(* ===== verification/Mpipin_Prelude.thy ===== *)
theory Mpipin_Prelude
  imports Main "HOL-Library.Word" "HOL-Library.Monad_Syntax"
begin

text \<open>
  Shared vocabulary of the development.
  \<^item> machine words: \<open>ulong\<close> is the C type \<^verbatim>\<open>unsigned long\<close> of both supported targets
    (\<^verbatim>\<open>BITS_PER_LONG\<close> is 64), \<open>u32\<close> is \<^verbatim>\<open>uint32_t\<close>;
  \<^item> checked memory: \<open>rd\<close> and \<open>wr\<close> read and write one element of an array and give \<open>None\<close>
    outside of it, so that an out-of-bounds access of the C code is a value of the model;
  \<^item> the abstraction of a bitmap (an array of words) to the predicate of its set bits, and
    the specification \<open>next_from\<close> of every bit search;
  \<^item> the collection \<open>mem_simps\<close> of the rewrite rules for checked memory.
\<close>

unbundle bit_operations_syntax

named_theorems mem_simps

type_synonym ulong = "64 word"
type_synonym u32 = "32 word"

text \<open>The largest \<^verbatim>\<open>int\<close>; a sum beyond it is undefined, which is \<open>None\<close>.\<close>

definition INT_MAX :: int where "INT_MAX = 2147483647"

section \<open>Checked array accesses\<close>

definition rd :: "'a list \<Rightarrow> nat \<Rightarrow> 'a option" where
  "rd xs i = (if i < length xs then Some (xs ! i) else None)"

definition wr :: "'a list \<Rightarrow> nat \<Rightarrow> 'a \<Rightarrow> 'a list option" where
  "wr xs i v = (if i < length xs then Some (xs[i := v]) else None)"

lemma rd_in [mem_simps]: "i < length xs \<Longrightarrow> rd xs i = Some (xs ! i)"
  by (simp add: rd_def)

lemma wr_in [mem_simps]: "i < length xs \<Longrightarrow> wr xs i v = Some (xs[i := v])"
  by (simp add: wr_def)

lemma rd_eq_Some [simp]: "rd xs i = Some v \<longleftrightarrow> i < length xs \<and> v = xs ! i"
  by (auto simp: rd_def)

lemma wr_eq_Some [simp]: "wr xs i v = Some ys \<longleftrightarrow> i < length xs \<and> ys = xs[i := v]"
  by (auto simp: wr_def)

lemma wr_length: "wr xs i v = Some ys \<Longrightarrow> length ys = length xs"
  by auto

section \<open>The bits of an array of words\<close>

definition bm_bit :: "ulong list \<Rightarrow> nat \<Rightarrow> bool" where
  "bm_bit m i \<longleftrightarrow> i div 64 < length m \<and> bit (m ! (i div 64)) (i mod 64)"

definition bm_set :: "ulong list \<Rightarrow> nat \<Rightarrow> nat set" where
  "bm_set m n = {i. i < n \<and> bm_bit m i}"

lemma bm_bit_bound: "bm_bit m i \<Longrightarrow> i < 64 * length m"
  by (simp add: bm_bit_def) linarith

lemma bm_bit_word: "k < length m \<Longrightarrow> j < 64 \<Longrightarrow> bm_bit m (64 * k + j) = bit (m ! k) j"
  by (simp add: bm_bit_def)

lemma finite_bm_set [simp]: "finite (bm_set m n)"
  by (simp add: bm_set_def)

lemma bm_set_subset: "bm_set m n \<subseteq> {..<n}"
  by (auto simp: bm_set_def)

lemma in_bm_set [simp]: "i \<in> bm_set m n \<longleftrightarrow> i < n \<and> bm_bit m i"
  by (simp add: bm_set_def)

lemma bm_bit_update:
  "k < length m \<Longrightarrow>
   bm_bit (m[k := w]) i = (if i div 64 = k then bit w (i mod 64) else bm_bit m i)"
  by (auto simp: bm_bit_def nth_list_update)

lemma word_split_index: "64 * (i div 64) + i mod 64 = (i::nat)"
  by simp

lemma words_eqI:
  assumes "length m = length m'" and "\<And>i. i < 64 * length m \<Longrightarrow> bm_bit m i = bm_bit m' i"
  shows "m = m'"
proof (rule nth_equalityI [OF assms(1)])
  fix k
  assume k: "k < length m"
  show "m ! k = m' ! k"
  proof (rule bit_word_eqI)
    fix j
    assume "j < LENGTH(64)"
    then have "j < 64" by simp
    with k have "bm_bit m (64 * k + j) = bm_bit m' (64 * k + j)"
      by (intro assms(2)) linarith
    with k \<open>j < 64\<close> show "bit (m ! k) j = bit (m' ! k) j"
      by (simp add: bm_bit_word assms(1))
  qed
qed

section \<open>The specification of a bit search\<close>

text \<open>The first index from \<open>i\<close> on, below \<open>n\<close>, that satisfies \<open>P\<close>; \<open>n\<close> if there is none.\<close>

function next_from :: "(nat \<Rightarrow> bool) \<Rightarrow> nat \<Rightarrow> nat \<Rightarrow> nat" where
  "next_from P n i = (if i < n then if P i then i else next_from P n (Suc i) else n)"
  by pat_completeness auto
termination
  by (relation "measure (\<lambda>(P, n, i). n - i)") auto

declare next_from.simps [simp del]

lemma next_from_ge [simp]: "n \<le> i \<Longrightarrow> next_from P n i = n"
  by (simp add: next_from.simps)

lemma next_from_hit: "i < n \<Longrightarrow> P i \<Longrightarrow> next_from P n i = i"
  by (simp add: next_from.simps)

lemma next_from_miss: "\<not> P i \<Longrightarrow> next_from P n i = next_from P n (Suc i)"
  by (cases "i < n") (simp_all add: next_from.simps [of P n i])

lemma next_from_le: "next_from P n i \<le> n"
  by (induction P n i rule: next_from.induct) (subst next_from.simps, auto)

lemma next_from_lower: "i \<le> n \<Longrightarrow> i \<le> next_from P n i"
  by (induction P n i rule: next_from.induct) (subst next_from.simps, force)

lemma next_from_holds: "next_from P n i < n \<Longrightarrow> P (next_from P n i)"
proof (induction P n i rule: next_from.induct)
  case (1 P n i)
  then show ?case
    by (cases "i < n \<and> \<not> P i") (auto simp: next_from.simps [of P n i] split: if_splits)
qed

lemma next_from_skips: "i \<le> j \<Longrightarrow> j < next_from P n i \<Longrightarrow> \<not> P j"
proof (induction P n i rule: next_from.induct)
  case (1 P n i)
  show ?case
  proof (cases "i < n \<and> \<not> P i")
    case True
    then have "next_from P n i = next_from P n (Suc i)"
      by (simp add: next_from_miss)
    with 1 True show ?thesis
      by (cases "i = j") auto
  next
    case False
    then show ?thesis
      using "1.prems" by (cases "i < n") (simp_all add: next_from_hit)
  qed
qed

lemma next_from_eqI:
  assumes "i \<le> r" "r \<le> n" "\<And>j. i \<le> j \<Longrightarrow> j < r \<Longrightarrow> \<not> P j" "r < n \<Longrightarrow> P r"
  shows "next_from P n i = r"
proof (rule antisym)
  show "r \<le> next_from P n i"
    using assms by (metis le_trans next_from_holds next_from_lower not_le order_less_le_trans)
  show "next_from P n i \<le> r"
    using assms by (metis next_from_le next_from_skips not_le le_neq_implies_less)
qed

lemma next_from_cong:
  assumes "\<And>j. i \<le> j \<Longrightarrow> j < n \<Longrightarrow> P j = Q j"
  shows "next_from P n i = next_from Q n i"
  using assms
proof (induction P n i rule: next_from.induct)
  case (1 P n i)
  then show ?case
    by (cases "i < n") (simp_all add: next_from.simps [of P n i] next_from.simps [of Q n i])
qed

lemma next_from_skip_to:
  assumes "i \<le> k" "k \<le> n" "\<And>j. i \<le> j \<Longrightarrow> j < k \<Longrightarrow> \<not> P j"
  shows "next_from P n i = next_from P n k"
proof (rule next_from_eqI)
  show "i \<le> next_from P n k"
    using assms(1,2) next_from_lower le_trans by blast
  show "\<not> P j" if "i \<le> j" "j < next_from P n k" for j
    using that assms(3) next_from_skips not_le by metis
qed (auto intro: next_from_le next_from_holds)

text \<open>Iterating the search enumerates the satisfying indices in increasing order.\<close>

lemma filter_upt_next_from:
  "filter P [i..<n] =
   (if next_from P n i < n then next_from P n i # filter P [Suc (next_from P n i)..<n] else [])"
proof (induction P n i rule: next_from.induct)
  case (1 P n i)
  then show ?case
    by (simp add: next_from.simps [of P n i] upt_rec [of i n])
qed

section \<open>List search and index arithmetic\<close>

lemma find_append_cases:
  "List.find P (xs @ ys) = (case List.find P xs of None \<Rightarrow> List.find P ys | Some x \<Rightarrow> Some x)"
  by (induction xs) auto

lemma find_upt_eq:
  assumes "i < n" "P i" "\<And>j. j < i \<Longrightarrow> \<not> P j"
  shows "List.find P [0..<n] = Some i"
proof -
  have "[0..<n] = [0..<i] @ i # [Suc i..<n]"
    using assms(1) by (metis add_0 le_add_diff_inverse less_imp_le upt_add_eq_append upt_conv_Cons zero_le)
  moreover have "List.find P [0..<i] = None"
    using assms(3) by (simp add: find_None_iff)
  ultimately show ?thesis
    using assms(2) by (auto simp: find_append_cases)
qed

lemma find_rev_upt_eq:
  assumes "i < n" "P i" "\<And>j. i < j \<Longrightarrow> j < n \<Longrightarrow> \<not> P j"
  shows "List.find P (rev [0..<n]) = Some i"
proof -
  have "[0..<n] = [0..<i] @ i # [Suc i..<n]"
    using assms(1) by (metis add_0 le_add_diff_inverse less_imp_le upt_add_eq_append upt_conv_Cons zero_le)
  moreover have "List.find P (rev [Suc i..<n]) = None"
    using assms(3) by (simp add: find_None_iff)
  ultimately show ?thesis
    using assms(2) by (auto simp: find_append_cases)
qed

lemma idx64: 
  fixes q r j :: nat
  assumes "r < 64"
  shows "(64 * q + r) div 32 = 2 * q + r div 32" "(64 * q + r) mod 32 = r mod 32"
proof -
  have "64 * q + r = r + (2 * q) * 32" by simp
  then show "(64 * q + r) div 32 = 2 * q + r div 32" "(64 * q + r) mod 32 = r mod 32"
    by (simp_all only: div_mult_self1 mod_mult_self1)
qed
lemma idx32:
  fixes j k :: nat
  assumes "k < 32"
  shows "(32 * j + k) div 64 = j div 2" "(32 * j + k) mod 64 = 32 * (j mod 2) + k"
proof -
  have "32 * j + k = (32 * (j mod 2) + k) + (j div 2) * 64"
    using div_mult_mod_eq [of j 2] by linarith
  moreover have "32 * (j mod 2) + k < 64" using assms by (cases "even j") (simp_all add: odd_iff_mod_2_eq_one)
  ultimately show "(32 * j + k) div 64 = j div 2" "(32 * j + k) mod 64 = 32 * (j mod 2) + k"
    by (simp_all only: div_mult_self1 mod_mult_self1) simp_all
qed

section \<open>Error numbers\<close>

definition EIO :: int where "EIO = 5"
definition ENOMEM :: int where "ENOMEM = 12"
definition EBUSY :: int where "EBUSY = 16"
definition EINVAL :: int where "EINVAL = 22"
definition ERANGE :: int where "ERANGE = 34"
definition ENAMETOOLONG :: int where "ENAMETOOLONG = 36"
definition EOVERFLOW :: int where "EOVERFLOW = 75"
definition ETIMEDOUT :: int where "ETIMEDOUT = 110"

lemmas errno_defs = EIO_def ENOMEM_def EBUSY_def EINVAL_def ERANGE_def ENAMETOOLONG_def EOVERFLOW_def ETIMEDOUT_def

section \<open>Monadic fold over checked operations\<close>

fun fold_opt :: "('x \<Rightarrow> 's \<Rightarrow> 's option) \<Rightarrow> 'x list \<Rightarrow> 's \<Rightarrow> 's option" where
  "fold_opt f [] s = Some s"
| "fold_opt f (x # xs) s = do { s' \<leftarrow> f x s; fold_opt f xs s' }"

lemma fold_opt_append: "fold_opt f (xs @ ys) s = do { s' \<leftarrow> fold_opt f xs s; fold_opt f ys s' }"
proof (induction xs arbitrary: s)
  case (Cons x xs)
  then show ?case by (cases "f x s") auto
qed simp

lemma fold_opt_cong: "(\<And>x s. x \<in> set xs \<Longrightarrow> f x s = g x s) \<Longrightarrow> fold_opt f xs s = fold_opt g xs s"
proof (induction xs arbitrary: s)
  case (Cons x xs)
  then show ?case by (cases "g x s") simp_all
qed simp

lemma fold_opt_map: "fold_opt f (map h xs) s = fold_opt (\<lambda>x. f (h x)) xs s"
proof (induction xs arbitrary: s)
  case (Cons x xs)
  then show ?case by (cases "f (h x) s") simp_all
qed simp

end
