(* ===== verification/Arch_Bitops.thy ===== *)
theory Arch_Bitops
  imports Mpipin_Prelude
begin

text \<open>
  The architecture headers \<^verbatim>\<open>include/arch/x86_64/arch-bitops.h\<close> and
  \<^verbatim>\<open>include/arch/aarch64/arch-bitops.h\<close>. The Makefile selects one of them with
  \<^verbatim>\<open>-I./include/arch/${ARCH}\<close>; both are modelled and shown to agree.
  On x86-64 the routines are single instructions: \<open>bsf\<close> and \<open>bsr\<close> (index of the lowest and
  highest set bit, result undefined for 0) and \<open>bts\<close>/\<open>btr\<close> with a 32-bit register operand,
  which address the bit string in memory by 32-bit units. The rest of the development
  uses the x86-64 versions.
\<close>

section \<open>x86-64: bit scans\<close>

definition bsf :: "'a::len word \<Rightarrow> nat option" where
  "bsf w = List.find (bit w) [0..<LENGTH('a)]"

definition bsr :: "'a::len word \<Rightarrow> nat option" where
  "bsr w = List.find (bit w) (rev [0..<LENGTH('a)])"

definition fls_x86 :: "u32 \<Rightarrow> int" where
  "fls_x86 x = (let r = (case bsr x of Some r \<Rightarrow> int r | None \<Rightarrow> -1) in r + 1)"

definition ffs_x86 :: "ulong \<Rightarrow> nat option" where
  "ffs_x86 word = bsf word"

definition ffz_x86 :: "ulong \<Rightarrow> nat option" where
  "ffz_x86 word = bsf (NOT word)"

section \<open>x86-64: bit updates through the 32-bit view of the array\<close>

text \<open>Both targets are little endian: 32-bit unit \<open>j\<close> is half \<open>j mod 2\<close> of word \<open>j div 2\<close>.\<close>

definition rd32 :: "ulong list \<Rightarrow> nat \<Rightarrow> u32 option" where
  "rd32 m j = map_option (\<lambda>w. ucast (drop_bit (32 * (j mod 2)) w)) (rd m (j div 2))"

definition wr32 :: "ulong list \<Rightarrow> nat \<Rightarrow> u32 \<Rightarrow> ulong list option" where
  "wr32 m j v = do {
     w \<leftarrow> rd m (j div 2);
     wr m (j div 2) (if even j then (w AND push_bit 32 (mask 32)) OR ucast v
                     else (w AND mask 32) OR push_bit 32 (ucast v)) }"

definition set_bit_x86 :: "nat \<Rightarrow> ulong list \<Rightarrow> ulong list option" where
  "set_bit_x86 nr addr = do {
     d \<leftarrow> rd32 addr (nr div 32);
     wr32 addr (nr div 32) (d OR push_bit (nr mod 32) 1) }"

definition clear_bit_x86 :: "nat \<Rightarrow> ulong list \<Rightarrow> ulong list option" where
  "clear_bit_x86 nr addr = do {
     d \<leftarrow> rd32 addr (nr div 32);
     wr32 addr (nr div 32) (d AND NOT (push_bit (nr mod 32) 1)) }"

section \<open>AArch64: the same routines in C\<close>

definition set_bit_arm :: "nat \<Rightarrow> ulong list \<Rightarrow> ulong list option" where
  "set_bit_arm nr addr =
     (let mask = push_bit (nr mod 64) (1::ulong); p = nr div 64
      in do { w \<leftarrow> rd addr p; wr addr p (w OR mask) })"

definition clear_bit_arm :: "nat \<Rightarrow> ulong list \<Rightarrow> ulong list option" where
  "clear_bit_arm nr addr =
     (let mask = push_bit (nr mod 64) (1::ulong); p = nr div 64
      in do { w \<leftarrow> rd addr p; wr addr p (w AND NOT mask) })"

definition fls_step :: "u32 \<Rightarrow> nat \<Rightarrow> u32 \<times> int \<Rightarrow> u32 \<times> int" where
  "fls_step m s xr = (case xr of (x, r) \<Rightarrow>
     if x AND m = 0 then (push_bit s x, r - int s) else (x, r))"

definition fls_arm :: "u32 \<Rightarrow> int" where
  "fls_arm x =
     (if x = 0 then 0
      else snd (fls_step 0x80000000 1 (fls_step 0xc0000000 2 (fls_step 0xf0000000 4
             (fls_step 0xff000000 8 (fls_step 0xffff0000 16 (x, 32)))))))"

definition ffs_step :: "ulong \<Rightarrow> nat \<Rightarrow> ulong \<times> nat \<Rightarrow> ulong \<times> nat" where
  "ffs_step m s wn = (case wn of (word, num) \<Rightarrow>
     if word AND m = 0 then (drop_bit s word, num + s) else (word, num))"

definition ffs_arm :: "ulong \<Rightarrow> nat" where
  "ffs_arm word =
     snd (ffs_step 0x1 1 (ffs_step 0x3 2 (ffs_step 0xf 4 (ffs_step 0xff 8
       (ffs_step 0xffff 16 (ffs_step 0xffffffff 32 (word, 0)))))))"

definition ffz_arm :: "ulong \<Rightarrow> nat" where
  "ffz_arm x = ffs_arm (NOT x)"

section \<open>Bit scans: what they compute\<close>

lemma bsf_eq:
  fixes w :: "'a::len word"
  assumes "bit w i" "\<And>j. j < i \<Longrightarrow> \<not> bit w j"
  shows "bsf w = Some i"
  unfolding bsf_def using assms bit_imp_le_length by (intro find_upt_eq) auto

lemma bsr_eq:
  fixes w :: "'a::len word"
  assumes "bit w i" "\<And>j. i < j \<Longrightarrow> j < LENGTH('a) \<Longrightarrow> \<not> bit w j"
  shows "bsr w = Some i"
  unfolding bsr_def using assms bit_imp_le_length by (intro find_rev_upt_eq) auto

lemma bsf_0 [simp]: "bsf (0 :: 'a::len word) = None"
  by (simp add: bsf_def find_None_iff)

lemma bsr_0 [simp]: "bsr (0 :: 'a::len word) = None"
  by (simp add: bsr_def find_None_iff)

lemma bsf_nonzero:
  fixes w :: "'a::len word"
  assumes "w \<noteq> 0"
  shows "bsf w = Some (next_from (bit w) LENGTH('a) 0)"
proof -
  let ?n = "next_from (bit w) LENGTH('a) 0"
  obtain j where "bit w j"
    using assms by (metis bit_0_eq bit_word_eqI bot_apply bot_bool_def)
  then have "?n < LENGTH('a)"
    by (metis bit_imp_le_length next_from_le next_from_skips le_neq_implies_less zero_le)
  then show ?thesis
    by (intro bsf_eq) (auto simp: next_from_holds dest: next_from_skips [rotated])
qed

text \<open>The binary search of AArch64's \<open>__ffs\<close>: invariant of its six steps.\<close>

definition ffs_inv :: "ulong \<Rightarrow> nat \<Rightarrow> ulong \<times> nat \<Rightarrow> bool" where
  "ffs_inv w l wn \<longleftrightarrow> fst wn = drop_bit (snd wn) w \<and> (\<forall>j < snd wn. \<not> bit w j) \<and>
     (\<exists>j < l. bit (fst wn) j)"

lemma ffs_step_inv:
  assumes "ffs_inv w (2 * s) wn" "m = mask s"
  shows "ffs_inv w s (ffs_step m s wn)"
proof (cases "fst wn AND m = 0")
  case True
  have low: "\<not> bit (fst wn) j" if "j < s" for j
  proof
    assume "bit (fst wn) j"
    with that assms(2) have "bit (fst wn AND m) j"
      by (auto simp: bit_simps dest: bit_imp_le_length)
    with True show False by simp
  qed
  from assms(1) obtain j where j: "j < 2 * s" "bit (fst wn) j"
    by (auto simp: ffs_inv_def)
  with low have "s \<le> j" by (meson not_le)
  with j have "bit (drop_bit s (fst wn)) (j - s)" "j - s < s"
    by (auto simp: bit_simps)
  moreover have "\<not> bit w i" if "i < snd wn + s" for i
  proof (cases "i < snd wn")
    case False
    with that have "\<not> bit (fst wn) (i - snd wn)" by (intro low) auto
    with False assms(1) show ?thesis by (auto simp: ffs_inv_def bit_simps)
  qed (use assms(1) in \<open>auto simp: ffs_inv_def\<close>)
  ultimately show ?thesis
    using assms(1) True by (auto simp: ffs_inv_def ffs_step_def split_def add.commute)
next
  case False
  then obtain j where "bit (fst wn AND m) j" by (metis bit_0_eq bit_word_eqI bot_apply bot_bool_def)
  then have "\<exists>j < s. bit (fst wn) j"
    using assms(2) by (auto simp: bit_simps)
  with False show ?thesis
    using assms(1) by (auto simp: ffs_inv_def ffs_step_def split_def)
qed

lemma ffs_arm_inv:
  assumes "word \<noteq> 0"
  shows "bit word (ffs_arm word) \<and> (\<forall>j < ffs_arm word. \<not> bit word j)"
proof -
  obtain j where "bit word j" using assms by (metis bit_0_eq bit_word_eqI bot_apply bot_bool_def)
  moreover from this have "j < 2 * 32" using bit_imp_le_length by fastforce
  ultimately have "ffs_inv word (2 * 32) (word, 0)" by (auto simp: ffs_inv_def)
  then have "ffs_inv word (2 * 16) (ffs_step 0xffffffff 32 (word, 0))"
    using ffs_step_inv [of word 32 "(word, 0)" "0xffffffff"] by (simp add: mask_eq_exp_minus_1)
  then have "ffs_inv word (2 * 8) (ffs_step 0xffff 16 (ffs_step 0xffffffff 32 (word, 0)))"
    using ffs_step_inv [of word 16 _ "0xffff"] by (simp add: mask_eq_exp_minus_1)
  then have "ffs_inv word (2 * 4) (ffs_step 0xff 8 (ffs_step 0xffff 16 (ffs_step 0xffffffff 32 (word, 0))))"
    using ffs_step_inv [of word 8 _ "0xff"] by (simp add: mask_eq_exp_minus_1)
  then have "ffs_inv word (2 * 2) (ffs_step 0xf 4 (ffs_step 0xff 8 (ffs_step 0xffff 16 (ffs_step 0xffffffff 32 (word, 0)))))"
    using ffs_step_inv [of word 4 _ "0xf"] by (simp add: mask_eq_exp_minus_1)
  then have "ffs_inv word (2 * 1) (ffs_step 0x3 2 (ffs_step 0xf 4 (ffs_step 0xff 8 (ffs_step 0xffff 16 (ffs_step 0xffffffff 32 (word, 0))))))"
    using ffs_step_inv [of word 2 _ "0x3"] by (simp add: mask_eq_exp_minus_1)
  then have "ffs_inv word 1 (ffs_step 0x1 1 (ffs_step 0x3 2 (ffs_step 0xf 4 (ffs_step 0xff 8 (ffs_step 0xffff 16 (ffs_step 0xffffffff 32 (word, 0)))))))"
    using ffs_step_inv [of word 1 _ "0x1"] by (simp add: mask_eq_exp_minus_1)
  then show ?thesis
    by (auto simp: ffs_inv_def ffs_arm_def bit_simps)
qed

lemma ffs_arm_eq_x86:
  assumes "word \<noteq> 0"
  shows "ffs_x86 word = Some (ffs_arm word)"
  unfolding ffs_x86_def using ffs_arm_inv [OF assms] by (intro bsf_eq) auto

text \<open>The binary search of AArch64's \<open>fls\<close>, from the top of the word.\<close>

definition fls_inv :: "u32 \<Rightarrow> nat \<Rightarrow> u32 \<times> int \<Rightarrow> bool" where
  "fls_inv x l xr \<longleftrightarrow> (\<exists>k \<le> 31. snd xr = 32 - int k \<and> fst xr = push_bit k x \<and>
     (\<forall>j. 32 - k \<le> j \<longrightarrow> \<not> bit x j) \<and> (\<exists>j \<ge> 32 - l. bit (fst xr) j))"

lemma fls_step_inv:
  assumes "fls_inv x (2 * s) xr" "m = push_bit (32 - s) (mask s)" "0 < s" "2 * s \<le> 32"
  shows "fls_inv x s (fls_step m s xr)"
proof -
  from assms(1) obtain k j where k: "k \<le> 31" "snd xr = 32 - int k" "fst xr = push_bit k x"
    "\<And>j. 32 - k \<le> j \<Longrightarrow> \<not> bit x j" and j: "32 - 2 * s \<le> j" "bit (fst xr) j"
    by (auto simp: fls_inv_def)
  from j(2) have j32: "j < 32" using bit_imp_le_length by fastforce
  show ?thesis
  proof (cases "fst xr AND m = 0")
    case True
    have high: "\<not> bit (fst xr) i" if "32 - s \<le> i" for i
    proof
      assume i: "bit (fst xr) i"
      then have "i < 32" using bit_imp_le_length by fastforce
      with i that assms(2-4) have "bit (fst xr AND m) i"
        by (auto simp: bit_simps)
      with True show False by simp
    qed
    with j have js: "j < 32 - s" by (meson not_le)
    from j(2) k(3) have kj: "k \<le> j" "bit x (j - k)" by (auto simp: bit_simps)
    from js kj have ks: "k + s \<le> 31" using assms(4) k(1) j by linarith
    have hi: "\<not> bit x i" if "32 - (k + s) \<le> i" for i
    proof (cases "32 - k \<le> i")
      case False
      with that have "32 - s \<le> i + k" "i + k < 32" using k(1) by linarith+
      with high [of "i + k"] k(3) show ?thesis by (auto simp: bit_simps)
    qed (use k(4) in auto)
    have top: "32 - s \<le> j + s \<and> bit (push_bit (k + s) x) (j + s)"
      using kj js j(1) assms(4) by (auto simp: bit_simps)
    have step: "fls_step m s xr = (push_bit (k + s) x, 32 - int (k + s))"
      using True k(2,3) by (simp add: fls_step_def split_def add.commute)
    show ?thesis
      unfolding fls_inv_def step by (rule exI [of _ "k + s"]) (use ks hi top in auto)
  next
    case False
    then obtain i where "bit (fst xr AND m) i" by (metis bit_0_eq bit_word_eqI bot_apply bot_bool_def)
    then have "bit (fst xr) i" "32 - s \<le> i"
      using assms(2) by (auto simp: bit_simps)
    moreover from False have "fls_step m s xr = xr"
      by (simp add: fls_step_def split_def)
    ultimately show ?thesis
      unfolding fls_inv_def using k by (intro exI [of _ k]) auto
  qed
qed

lemma fls_arm_top:
  assumes "x \<noteq> 0"
  shows "\<exists>i. bit x i \<and> (\<forall>j > i. \<not> bit x j) \<and> fls_arm x = int i + 1"
proof -
  obtain j where "bit x j" using assms by (metis bit_0_eq bit_word_eqI bot_apply bot_bool_def)
  moreover from this have "j < 2 * 16" using bit_imp_le_length by fastforce
  ultimately have "fls_inv x (2 * 16) (x, 32)"
    unfolding fls_inv_def by (intro exI [of _ 0]) (auto dest: bit_imp_le_length)
  note step = fls_step_inv [OF this, of "0xffff0000"]
  have "fls_inv x (2 * 8) (fls_step 0xffff0000 16 (x, 32))"
    using step by (simp add: mask_eq_exp_minus_1)
  note step = fls_step_inv [OF this, of "0xff000000"]
  have "fls_inv x (2 * 4) (fls_step 0xff000000 8 (fls_step 0xffff0000 16 (x, 32)))"
    using step by (simp add: mask_eq_exp_minus_1)
  note step = fls_step_inv [OF this, of "0xf0000000"]
  have "fls_inv x (2 * 2) (fls_step 0xf0000000 4 (fls_step 0xff000000 8 (fls_step 0xffff0000 16 (x, 32))))"
    using step by (simp add: mask_eq_exp_minus_1)
  note step = fls_step_inv [OF this, of "0xc0000000"]
  have "fls_inv x (2 * 1) (fls_step 0xc0000000 2 (fls_step 0xf0000000 4 (fls_step 0xff000000 8
      (fls_step 0xffff0000 16 (x, 32)))))"
    using step by (simp add: mask_eq_exp_minus_1)
  note step = fls_step_inv [OF this, of "0x80000000"]
  have "fls_inv x 1 (fls_step 0x80000000 1 (fls_step 0xc0000000 2 (fls_step 0xf0000000 4
      (fls_step 0xff000000 8 (fls_step 0xffff0000 16 (x, 32))))))" (is "fls_inv x 1 ?st")
    using step by (simp add: mask_eq_exp_minus_1)
  moreover have "fls_arm x = snd ?st" using assms by (simp add: fls_arm_def)
  ultimately obtain k j where k: "k \<le> 31" "fls_arm x = 32 - int k" "\<And>j. 32 - k \<le> j \<Longrightarrow> \<not> bit x j"
      and j: "31 \<le> j" "bit (push_bit k x) j"
    unfolding fls_inv_def by force
  from j(2) have "j < 32" using bit_imp_le_length by fastforce
  with j(1) have "j = 31" by simp
  with j(2) k(1) have "bit x (31 - k)" by (simp add: bit_push_bit_iff)
  with k show ?thesis
    by (intro exI [of _ "31 - k"]) (simp add: of_nat_diff)
qed

lemma fls_arm_eq_x86: "fls_arm x = fls_x86 x"
proof (cases "x = 0")
  case False
  then obtain i where "bit x i" "\<forall>j > i. \<not> bit x j" "fls_arm x = int i + 1"
    using fls_arm_top by blast
  then show ?thesis
    using bsr_eq [of x i] by (simp add: fls_x86_def)
qed (simp add: fls_arm_def fls_x86_def)

lemma fls_bound: "0 \<le> fls_x86 x \<and> fls_x86 x \<le> 32"
proof (cases "x = 0")
  case False
  then obtain i where "bit x i" "fls_arm x = int i + 1"
    using fls_arm_top by blast
  moreover from this have "i < 32" using bit_imp_le_length by fastforce
  ultimately show ?thesis by (simp flip: fls_arm_eq_x86)
qed (simp add: fls_x86_def)

section \<open>The contract of the bit scans\<close>

text \<open>
  What the searches of \<^verbatim>\<open>bitops.c\<close> rely on: on a non-zero word \<open>ffs\<close> returns the index of the
  lowest set bit. The result for zero is documented as undefined.
\<close>

locale word_scan =
  fixes ffs :: "ulong \<Rightarrow> nat option"
  assumes ffs_nonzero: "w \<noteq> 0 \<Longrightarrow> \<exists>n. ffs w = Some n \<and> bit w n \<and> (\<forall>j < n. \<not> bit w j)"
begin

lemma ffs_next_from:
  assumes "w \<noteq> 0"
  shows "ffs w = Some (next_from (bit w) 64 0)"
proof -
  obtain n where n: "ffs w = Some n" "bit w n" "\<forall>j < n. \<not> bit w j"
    using ffs_nonzero [OF assms] by blast
  then have "n < 64" using bit_imp_le_length by fastforce
  with n have "next_from (bit w) 64 0 = n" by (intro next_from_eqI) auto
  with n show ?thesis by simp
qed

lemma ffz_next_from:
  assumes "w \<noteq> -1"
  shows "ffs (NOT w) = Some (next_from (\<lambda>i. \<not> bit w i) 64 0)"
proof -
  have "NOT w \<noteq> 0" using assms by (metis bit.double_compl bit.compl_zero)
  then have "ffs (NOT w) = Some (next_from (bit (NOT w)) 64 0)" by (rule ffs_next_from)
  also have "next_from (bit (NOT w)) 64 0 = next_from (\<lambda>i. \<not> bit w i) 64 0"
    by (rule next_from_cong) (simp add: bit_not_iff)
  finally show ?thesis .
qed

end

interpretation scan_x86: word_scan ffs_x86
proof
  fix w :: ulong
  assume "w \<noteq> 0"
  then show "\<exists>n. ffs_x86 w = Some n \<and> bit w n \<and> (\<forall>j < n. \<not> bit w j)"
    using ffs_arm_inv ffs_arm_eq_x86 by blast
qed

interpretation scan_arm: word_scan "\<lambda>w. Some (ffs_arm w)"
  by unfold_locales (use ffs_arm_inv in blast)

section \<open>Bit updates: what they do to the array\<close>

lemma rd32_bit:
  assumes "rd32 m j = Some d" "k < 32"
  shows "bit d k = bm_bit m (32 * j + k)"
proof -
  note ix = idx32 [OF assms(2), of j]
  from assms(1) have "j div 2 < length m" "d = ucast (drop_bit (32 * (j mod 2)) (m ! (j div 2)))"
    by (auto simp: rd32_def)
  then show ?thesis
    using assms(2) by (auto simp: bm_bit_def ix bit_simps)
qed

lemma wr32_bit:
  assumes "wr32 m j v = Some m'"
  shows "bm_bit m' i = (if i div 32 = j then bit v (i mod 32) else bm_bit m i)"
proof -
  from assms have j: "j div 2 < length m"
    and m': "m' = m[j div 2 := (if even j then (m ! (j div 2) AND push_bit 32 (mask 32)) OR ucast v
       else (m ! (j div 2) AND mask 32) OR push_bit 32 (ucast v))]"
    by (auto simp: wr32_def bind_eq_Some_conv)
  show ?thesis
  proof (cases "i div 64 = j div 2")
    case True
    define r where "r = i mod 64"
    then have "r < 64" by simp
    have i: "i = 64 * (j div 2) + r" by (simp add: r_def flip: True)
    have low: "r < 32 \<Longrightarrow> i div 32 = 2 * (j div 2) \<and> i mod 32 = r"
      using \<open>r < 64\<close> by (simp add: i idx64)
    have high: "32 \<le> r \<Longrightarrow> i div 32 = 2 * (j div 2) + 1 \<and> i mod 32 = r - 32"
    proof -
      assume "32 \<le> r"
      with \<open>r < 64\<close> have "r div 32 = 1" "r mod 32 = r - 32"
        by (simp_all add: div_nat_eqI le_mod_geq)
      with \<open>r < 64\<close> show ?thesis by (simp add: i idx64)
    qed
    have jj: "j = 2 * (j div 2) + (if even j then 0 else 1)" by simp
    have "bm_bit m' i = bit (m' ! (j div 2)) r" "bm_bit m i = bit (m ! (j div 2)) r"
      using j by (simp_all add: bm_bit_def True m' flip: r_def)
    then show ?thesis
      using \<open>r < 64\<close> j low high jj
      by (cases "even j"; cases "r < 32") (auto simp: m' bit_simps dest: bit_imp_le_length)
  next
    case False
    then have "i div 32 \<noteq> j" by (metis div_mult2_eq mult_2 numeral_Bit0)
    with False j show ?thesis by (simp add: m' bm_bit_update)
  qed
qed

lemma rd32_in: "j div 2 < length m \<Longrightarrow> \<exists>d. rd32 m j = Some d"
  by (simp add: rd32_def rd_in del: rd_eq_Some)

lemma wr32_in: "j div 2 < length m \<Longrightarrow> \<exists>m'. wr32 m j v = Some m' \<and> length m' = length m"
  by (simp add: wr32_def mem_simps del: rd_eq_Some wr_eq_Some)

lemma set_bit_x86_spec:
  "set_bit_x86 nr m = Some m' \<Longrightarrow> length m' = length m \<and> (\<forall>i. bm_bit m' i \<longleftrightarrow> i = nr \<or> bm_bit m i)"
proof -
  assume "set_bit_x86 nr m = Some m'"
  then obtain d where d: "rd32 m (nr div 32) = Some d"
      and w: "wr32 m (nr div 32) (d OR push_bit (nr mod 32) 1) = Some m'"
    by (auto simp: set_bit_x86_def bind_eq_Some_conv)
  have "length m' = length m" using w by (auto simp: wr32_def bind_eq_Some_conv)
  moreover have "bm_bit m' i \<longleftrightarrow> i = nr \<or> bm_bit m i" for i
  proof (cases "i div 32 = nr div 32")
    case True
    then have "i = nr \<longleftrightarrow> i mod 32 = nr mod 32"
      by (metis div_mult_mod_eq)
    moreover have "bit d (i mod 32) = bm_bit m i"
      using rd32_bit [OF d, of "i mod 32"] by (simp flip: True)
    ultimately show ?thesis
      using wr32_bit [OF w, of i] True by (auto simp: bit_simps)
  qed (use wr32_bit [OF w, of i] in auto)
  ultimately show ?thesis by blast
qed

lemma clear_bit_x86_spec:
  "clear_bit_x86 nr m = Some m' \<Longrightarrow> length m' = length m \<and> (\<forall>i. bm_bit m' i \<longleftrightarrow> i \<noteq> nr \<and> bm_bit m i)"
proof -
  assume "clear_bit_x86 nr m = Some m'"
  then obtain d where d: "rd32 m (nr div 32) = Some d"
      and w: "wr32 m (nr div 32) (d AND NOT (push_bit (nr mod 32) 1)) = Some m'"
    by (auto simp: clear_bit_x86_def bind_eq_Some_conv)
  have "length m' = length m" using w by (auto simp: wr32_def bind_eq_Some_conv)
  moreover have "bm_bit m' i \<longleftrightarrow> i \<noteq> nr \<and> bm_bit m i" for i
  proof (cases "i div 32 = nr div 32")
    case True
    then have "i = nr \<longleftrightarrow> i mod 32 = nr mod 32"
      by (metis div_mult_mod_eq)
    moreover have "bit d (i mod 32) = bm_bit m i"
      using rd32_bit [OF d, of "i mod 32"] by (simp flip: True)
    ultimately show ?thesis
      using wr32_bit [OF w, of i] True by (auto simp: bit_simps)
  qed (use wr32_bit [OF w, of i] in auto)
  ultimately show ?thesis by blast
qed

lemma set_bit_arm_spec:
  "set_bit_arm nr m = Some m' \<Longrightarrow> length m' = length m \<and> (\<forall>i. bm_bit m' i \<longleftrightarrow> i = nr \<or> bm_bit m i)"
proof -
  assume "set_bit_arm nr m = Some m'"
  then have k: "nr div 64 < length m" and m': "m' = m[nr div 64 := m ! (nr div 64) OR push_bit (nr mod 64) 1]"
    by (auto simp: set_bit_arm_def Let_def bind_eq_Some_conv)
  have "bm_bit m' i \<longleftrightarrow> i = nr \<or> bm_bit m i" for i
  proof (cases "i div 64 = nr div 64")
    case True
    then have "i = nr \<longleftrightarrow> i mod 64 = nr mod 64" by (metis div_mult_mod_eq)
    with True k show ?thesis
      by (auto simp: m' bm_bit_update bm_bit_def bit_simps)
  qed (use k in \<open>auto simp: m' bm_bit_update\<close>)
  then show ?thesis by (simp add: m')
qed

lemma clear_bit_arm_spec:
  "clear_bit_arm nr m = Some m' \<Longrightarrow> length m' = length m \<and> (\<forall>i. bm_bit m' i \<longleftrightarrow> i \<noteq> nr \<and> bm_bit m i)"
proof -
  assume "clear_bit_arm nr m = Some m'"
  then have k: "nr div 64 < length m" and m': "m' = m[nr div 64 := m ! (nr div 64) AND NOT (push_bit (nr mod 64) 1)]"
    by (auto simp: clear_bit_arm_def Let_def bind_eq_Some_conv)
  have "bm_bit m' i \<longleftrightarrow> i \<noteq> nr \<and> bm_bit m i" for i
  proof (cases "i div 64 = nr div 64")
    case True
    then have "i = nr \<longleftrightarrow> i mod 64 = nr mod 64" by (metis div_mult_mod_eq)
    with True k show ?thesis
      by (auto simp: m' bm_bit_update bm_bit_def bit_simps)
  qed (use k in \<open>auto simp: m' bm_bit_update\<close>)
  then show ?thesis by (simp add: m')
qed

lemma bit_update_defined:
  assumes "nr < 64 * length m"
  shows "\<exists>m'. set_bit_x86 nr m = Some m'" "\<exists>m'. clear_bit_x86 nr m = Some m'"
    "\<exists>m'. set_bit_arm nr m = Some m'" "\<exists>m'. clear_bit_arm nr m = Some m'"
proof -
  from assms have "nr div 64 < length m" by linarith
  moreover from this have "nr div 32 div 2 < length m" by (simp add: div_mult2_eq [symmetric])
  ultimately show "\<exists>m'. set_bit_x86 nr m = Some m'" "\<exists>m'. clear_bit_x86 nr m = Some m'"
    "\<exists>m'. set_bit_arm nr m = Some m'" "\<exists>m'. clear_bit_arm nr m = Some m'"
    by (simp_all add: set_bit_x86_def clear_bit_x86_def set_bit_arm_def clear_bit_arm_def Let_def
        rd32_def wr32_def mem_simps del: rd_eq_Some wr_eq_Some)
qed

lemma bit_update_undefined:
  assumes "\<not> nr < 64 * length m"
  shows "set_bit_x86 nr m = None" "clear_bit_x86 nr m = None"
    "set_bit_arm nr m = None" "clear_bit_arm nr m = None"
proof -
  from assms have "\<not> nr div 64 < length m" by linarith
  then show "set_bit_x86 nr m = None" "clear_bit_x86 nr m = None"
    "set_bit_arm nr m = None" "clear_bit_arm nr m = None"
    by (simp_all add: set_bit_x86_def clear_bit_x86_def set_bit_arm_def clear_bit_arm_def Let_def
        rd32_def rd_def div_mult2_eq [symmetric])
qed

section \<open>The contract of the bit updates\<close>

locale bit_store =
  fixes ins :: "nat \<Rightarrow> ulong list \<Rightarrow> ulong list option"
    and del :: "nat \<Rightarrow> ulong list \<Rightarrow> ulong list option"
  assumes ins_defined: "ins i m = None \<longleftrightarrow> \<not> i < 64 * length m"
    and del_defined: "del i m = None \<longleftrightarrow> \<not> i < 64 * length m"
    and ins_spec: "ins i m = Some m' \<Longrightarrow>
      length m' = length m \<and> (\<forall>j. bm_bit m' j \<longleftrightarrow> j = i \<or> bm_bit m j)"
    and del_spec: "del i m = Some m' \<Longrightarrow>
      length m' = length m \<and> (\<forall>j. bm_bit m' j \<longleftrightarrow> j \<noteq> i \<and> bm_bit m j)"
begin

lemma ins_ok:
  assumes "i < 64 * length m"
  obtains m' where "ins i m = Some m'" "length m' = length m" "\<And>j. bm_bit m' j \<longleftrightarrow> j = i \<or> bm_bit m j"
  using assms ins_defined ins_spec by (metis not_None_eq)

lemma del_ok:
  assumes "i < 64 * length m"
  obtains m' where "del i m = Some m'" "length m' = length m" "\<And>j. bm_bit m' j \<longleftrightarrow> j \<noteq> i \<and> bm_bit m j"
  using assms del_defined del_spec by (metis not_None_eq)

lemma ins_set: "ins i m = Some m' \<Longrightarrow> i < n \<Longrightarrow> bm_set m' n = insert i (bm_set m n)"
  using ins_spec by (auto simp: bm_set_def)

lemma del_set: "del i m = Some m' \<Longrightarrow> bm_set m' n = bm_set m n - {i}"
  using del_spec by (auto simp: bm_set_def)

lemma fold_ins:
  assumes "\<forall>i \<in> set is. i < 64 * length m"
  shows "\<exists>m'. fold_opt ins is m = Some m' \<and> length m' = length m \<and>
    (\<forall>j. bm_bit m' j \<longleftrightarrow> j \<in> set is \<or> bm_bit m j)"
  using assms
proof (induction "is" arbitrary: m)
  case (Cons i "is")
  then have "i < 64 * length m" by simp
  then obtain m1 where m1: "ins i m = Some m1" "length m1 = length m"
    "\<And>j. bm_bit m1 j \<longleftrightarrow> j = i \<or> bm_bit m j"
    by (rule ins_ok) blast
  from Cons.prems m1(2) have "\<forall>i \<in> set is. i < 64 * length m1" by simp
  then obtain m' where "fold_opt ins is m1 = Some m'" "length m' = length m1"
    "\<forall>j. bm_bit m' j \<longleftrightarrow> j \<in> set is \<or> bm_bit m1 j"
    using Cons.IH [of m1] by blast
  with m1 show ?case by auto
qed simp

end

interpretation store_x86: bit_store set_bit_x86 clear_bit_x86
proof
  show "set_bit_x86 i m = None \<longleftrightarrow> \<not> i < 64 * length m" for i m
    using bit_update_defined(1) [of i m] bit_update_undefined(1) [of i m] by auto
  show "clear_bit_x86 i m = None \<longleftrightarrow> \<not> i < 64 * length m" for i m
    using bit_update_defined(2) [of i m] bit_update_undefined(2) [of i m] by auto
qed (simp_all add: set_bit_x86_spec clear_bit_x86_spec)

interpretation store_arm: bit_store set_bit_arm clear_bit_arm
proof
  show "set_bit_arm i m = None \<longleftrightarrow> \<not> i < 64 * length m" for i m
    using bit_update_defined(3) [of i m] bit_update_undefined(3) [of i m] by auto
  show "clear_bit_arm i m = None \<longleftrightarrow> \<not> i < 64 * length m" for i m
    using bit_update_defined(4) [of i m] bit_update_undefined(4) [of i m] by auto
qed (simp_all add: set_bit_arm_spec clear_bit_arm_spec)

text \<open>The contract determines the operations, so any two providers agree.\<close>

locale two_bit_stores = a: bit_store ins del + b: bit_store ins' del'
  for ins del ins' del'
begin

lemma ins_agree: "ins i m = ins' i m"
proof (cases "i < 64 * length m")
  case True
  then obtain m1 m2 where "ins i m = Some m1" "ins' i m = Some m2"
    by (metis a.ins_ok b.ins_ok)
  moreover from this have "m1 = m2"
    by (intro words_eqI) (simp_all add: a.ins_spec b.ins_spec)
  ultimately show ?thesis by simp
qed (metis a.ins_defined b.ins_defined)

lemma del_agree: "del i m = del' i m"
proof (cases "i < 64 * length m")
  case True
  then obtain m1 m2 where "del i m = Some m1" "del' i m = Some m2"
    by (metis a.del_ok b.del_ok)
  moreover from this have "m1 = m2"
    by (intro words_eqI) (simp_all add: a.del_spec b.del_spec)
  ultimately show ?thesis by simp
qed (metis a.del_defined b.del_defined)

end

interpretation arm_x86: two_bit_stores set_bit_arm clear_bit_arm set_bit_x86 clear_bit_x86
  by unfold_locales

section \<open>Properties\<close>

text \<open>
  C38. The aarch64 code and the x86_64 instructions compute the same: the lowest set and the lowest clear bit, the
  position of the highest bit, and the updates of a bit in memory, whose 32-bit and 64-bit accesses agree also where they leave
  the array.
\<close>

theorem arch_equivalence:
  "(w \<noteq> 0 \<longrightarrow> ffs_x86 w = Some (ffs_arm w)) \<and> (w \<noteq> -1 \<longrightarrow> ffz_x86 w = Some (ffz_arm w)) \<and> fls_x86 v = fls_arm v \<and>
   set_bit_x86 i m = set_bit_arm i m \<and> clear_bit_x86 i m = clear_bit_arm i m"
proof -
  have "ffz_x86 w = ffs_x86 (NOT w)" "ffz_arm w = ffs_arm (NOT w)" by (simp_all add: ffz_x86_def ffs_x86_def ffz_arm_def)
  moreover have "NOT w \<noteq> 0" if "w \<noteq> -1" using that by (metis bit.double_compl bit.compl_zero)
  ultimately show ?thesis
    using ffs_arm_eq_x86 fls_arm_eq_x86 arm_x86.ins_agree arm_x86.del_agree by simp
qed

theorem arch_equivalence_witness: "ffs_x86 8 = Some (ffs_arm 8) \<and> ffz_x86 7 = Some (ffz_arm 7)"
  using arch_equivalence [of 8] arch_equivalence [of 7] by simp

end
