(* ===== verification/Bitops.thy ===== *)
theory Bitops
  imports Arch_Bitops
begin

text \<open>
  \<^verbatim>\<open>bitops.c\<close> (the four bit searches) and the generic part of \<^verbatim>\<open>include/bitops.h\<close>:
  \<open>test_bit\<close>, the size and alignment macros and the iteration \<open>for_each_set_bit\<close>.
  Arrays are word lists, every access is checked, sizes and offsets are natural numbers.
  \<^verbatim>\<open>size & ~(BITS_PER_LONG-1)\<close> is written \<open>size - size mod 64\<close>; the labels the C code jumps to
  are the functions \<open>found_first\<close>, \<open>found_middle\<close> and their zero-bit variants.
  Each search is shown to compute \<open>next_from\<close> and never to read outside of the array.
\<close>

section \<open>Macros\<close>

definition BITS_TO_LONGS :: "nat \<Rightarrow> nat" where
  "BITS_TO_LONGS nr = (nr + 64 - 1) div 64"

definition BIT_WORD :: "nat \<Rightarrow> nat" where
  "BIT_WORD nr = nr div 64"

definition ALIGN_MASK :: "ulong \<Rightarrow> ulong \<Rightarrow> ulong" where
  "ALIGN_MASK x m = (x + m) AND NOT m"

section \<open>Testing a bit\<close>

definition test_bit :: "nat \<Rightarrow> ulong list \<Rightarrow> bool option" where
  "test_bit nr addr = do {
     d \<leftarrow> rd32 addr (nr div 32);
     Some (push_bit (nr mod 32) 1 AND (ucast d :: ulong) \<noteq> 0) }"

section \<open>Searching for a set bit\<close>

definition found_middle :: "nat \<Rightarrow> ulong \<Rightarrow> nat option" where
  "found_middle result tmp = do { b \<leftarrow> ffs_x86 tmp; Some (result + b) }"

definition found_first :: "nat \<Rightarrow> nat \<Rightarrow> ulong \<Rightarrow> nat option" where
  "found_first result sz tmp =
     (let tmp = tmp AND drop_bit (64 - sz) (-1)
      in if tmp = 0 then Some (result + sz) else found_middle result tmp)"

function find_next_words :: "ulong list \<Rightarrow> nat \<Rightarrow> nat \<Rightarrow> nat \<Rightarrow> nat option" where
  "find_next_words addr p sz result =
     (if sz - sz mod 64 \<noteq> 0 then do {
        tmp \<leftarrow> rd addr p;
        if tmp \<noteq> 0 then found_middle result tmp
        else find_next_words addr (p + 1) (sz - 64) (result + 64) }
      else if sz = 0 then Some result
      else do { tmp \<leftarrow> rd addr p; found_first result sz tmp })"
  by pat_completeness auto
termination
  by (relation "measure (\<lambda>(addr, p, sz, result). sz)") (auto simp: mod_less_eq_dividend)

definition find_next_bit :: "ulong list \<Rightarrow> nat \<Rightarrow> nat \<Rightarrow> nat option" where
  "find_next_bit addr sz offset =
     (let p = offset div 64; result = offset - offset mod 64 in
      if offset \<ge> sz then Some sz
      else let sz = sz - result; offset = offset mod 64 in
        if offset \<noteq> 0 then do {
          tmp \<leftarrow> rd addr p;
          let tmp = tmp AND push_bit offset (-1);
          if sz < 64 then found_first result sz tmp
          else if tmp \<noteq> 0 then found_middle result tmp
          else find_next_words addr (p + 1) (sz - 64) (result + 64) }
        else find_next_words addr p sz result)"

function find_first_words :: "ulong list \<Rightarrow> nat \<Rightarrow> nat \<Rightarrow> nat \<Rightarrow> nat option" where
  "find_first_words addr p sz result =
     (if sz - sz mod 64 \<noteq> 0 then do {
        tmp \<leftarrow> rd addr p;
        if tmp \<noteq> 0 then found_middle result tmp
        else find_first_words addr (p + 1) (sz - 64) (result + 64) }
      else if sz = 0 then Some result
      else do {
        w \<leftarrow> rd addr p;
        let tmp = w AND drop_bit (64 - sz) (-1);
        if tmp = 0 then Some (result + sz) else found_middle result tmp })"
  by pat_completeness auto
termination
  by (relation "measure (\<lambda>(addr, p, sz, result). sz)") (auto simp: mod_less_eq_dividend)

definition find_first_bit :: "ulong list \<Rightarrow> nat \<Rightarrow> nat option" where
  "find_first_bit addr sz = find_first_words addr 0 sz 0"

section \<open>Searching for a zero bit\<close>

definition found_middle_zero :: "nat \<Rightarrow> ulong \<Rightarrow> nat option" where
  "found_middle_zero result tmp = do { b \<leftarrow> ffz_x86 tmp; Some (result + b) }"

definition found_first_zero :: "nat \<Rightarrow> nat \<Rightarrow> ulong \<Rightarrow> nat option" where
  "found_first_zero result sz tmp =
     (let tmp = tmp OR push_bit sz (-1)
      in if tmp = -1 then Some (result + sz) else found_middle_zero result tmp)"

function find_next_zero_words :: "ulong list \<Rightarrow> nat \<Rightarrow> nat \<Rightarrow> nat \<Rightarrow> nat option" where
  "find_next_zero_words addr p sz result =
     (if sz - sz mod 64 \<noteq> 0 then do {
        tmp \<leftarrow> rd addr p;
        if NOT tmp \<noteq> 0 then found_middle_zero result tmp
        else find_next_zero_words addr (p + 1) (sz - 64) (result + 64) }
      else if sz = 0 then Some result
      else do { tmp \<leftarrow> rd addr p; found_first_zero result sz tmp })"
  by pat_completeness auto
termination
  by (relation "measure (\<lambda>(addr, p, sz, result). sz)") (auto simp: mod_less_eq_dividend)

definition find_next_zero_bit :: "ulong list \<Rightarrow> nat \<Rightarrow> nat \<Rightarrow> nat option" where
  "find_next_zero_bit addr sz offset =
     (let p = offset div 64; result = offset - offset mod 64 in
      if offset \<ge> sz then Some sz
      else let sz = sz - result; offset = offset mod 64 in
        if offset \<noteq> 0 then do {
          tmp \<leftarrow> rd addr p;
          let tmp = tmp OR drop_bit (64 - offset) (-1);
          if sz < 64 then found_first_zero result sz tmp
          else if NOT tmp \<noteq> 0 then found_middle_zero result tmp
          else find_next_zero_words addr (p + 1) (sz - 64) (result + 64) }
        else find_next_zero_words addr p sz result)"

function find_first_zero_words :: "ulong list \<Rightarrow> nat \<Rightarrow> nat \<Rightarrow> nat \<Rightarrow> nat option" where
  "find_first_zero_words addr p sz result =
     (if sz - sz mod 64 \<noteq> 0 then do {
        tmp \<leftarrow> rd addr p;
        if NOT tmp \<noteq> 0 then found_middle_zero result tmp
        else find_first_zero_words addr (p + 1) (sz - 64) (result + 64) }
      else if sz = 0 then Some result
      else do {
        w \<leftarrow> rd addr p;
        let tmp = w OR push_bit sz (-1);
        if tmp = -1 then Some (result + sz) else found_middle_zero result tmp })"
  by pat_completeness auto
termination
  by (relation "measure (\<lambda>(addr, p, sz, result). sz)") (auto simp: mod_less_eq_dividend)

definition find_first_zero_bit :: "ulong list \<Rightarrow> nat \<Rightarrow> nat option" where
  "find_first_zero_bit addr sz = find_first_zero_words addr 0 sz 0"

declare find_next_words.simps [simp del]
declare find_first_words.simps [simp del]
declare find_next_zero_words.simps [simp del]
declare find_first_zero_words.simps [simp del]

section \<open>Scanning one word\<close>

lemma scan_hit:
  assumes w: "\<And>j. j < 64 \<Longrightarrow> bit (w::ulong) j \<longleftrightarrow> lo \<le> j \<and> j < hi \<and> P (64 * p + j)"
    and "w \<noteq> 0" "hi \<le> 64" "64 * p + hi \<le> n"
  shows "next_from P n (64 * p + lo) = 64 * p + next_from (bit w) 64 0"
proof -
  let ?r = "next_from (bit w) 64 0"
  obtain j where j: "bit w j" using assms(2) by (metis bit_0_eq bit_word_eqI bot_apply bot_bool_def)
  then have "j < 64" using bit_imp_le_length by fastforce
  with j have r: "?r < 64" by (metis next_from_le next_from_skips le_neq_implies_less zero_le)
  then have "bit w ?r" by (rule next_from_holds)
  with r have hit: "lo \<le> ?r" "?r < hi" "P (64 * p + ?r)" using w by blast+
  show ?thesis
  proof (rule next_from_eqI)
    fix i
    assume i: "64 * p + lo \<le> i" "i < 64 * p + ?r"
    then have "i - 64 * p < ?r" "lo \<le> i - 64 * p" by linarith+
    then have "\<not> bit w (i - 64 * p)" using next_from_skips [of 0 "i - 64 * p"] by blast
    with \<open>i - 64 * p < ?r\<close> \<open>lo \<le> i - 64 * p\<close> r hit w [of "i - 64 * p"] i show "\<not> P i" by simp
  qed (use hit assms(4) in auto)
qed

lemma scan_miss:
  assumes w: "\<And>j. j < 64 \<Longrightarrow> bit (w::ulong) j \<longleftrightarrow> lo \<le> j \<and> j < hi \<and> P (64 * p + j)"
    and "w = 0" "lo \<le> hi" "hi \<le> 64" "64 * p + hi \<le> n"
  shows "next_from P n (64 * p + lo) = next_from P n (64 * p + hi)"
proof (rule next_from_skip_to)
  fix i
  assume "64 * p + lo \<le> i" "i < 64 * p + hi"
  with w [of "i - 64 * p"] assms(2,4) show "\<not> P i" by auto
qed (use assms in auto)

lemma bit_ones [simp]: "bit (-1 :: 'a::len word) j \<longleftrightarrow> j < LENGTH('a)"
  by simp

lemma size_floor: "n - n mod 64 = 0 \<longleftrightarrow> n < (64::nat)"
  by (metis diff_is_0_eq div_mult_mod_eq mod_less mod_less_divisor not_le not_numeral_le_zero nat_le_linear le_antisym mod_less_eq_dividend zero_less_numeral)

lemma found_middle_eq:
  assumes "\<And>j. j < 64 \<Longrightarrow> bit tmp j \<longleftrightarrow> lo \<le> j \<and> j < hi \<and> P (64 * p + j)" "tmp \<noteq> 0" "hi \<le> 64" "64 * p + hi \<le> n"
  shows "found_middle (64 * p) tmp = Some (next_from P n (64 * p + lo))"
proof -
  have "next_from P n (64 * p + lo) = 64 * p + next_from (bit tmp) 64 0"
    using assms by (rule scan_hit)
  then show ?thesis
    by (simp add: found_middle_def scan_x86.ffs_next_from [OF assms(2)])
qed

lemma found_first_eq:
  assumes "\<And>j. j < 64 \<Longrightarrow> bit tmp j \<longleftrightarrow> lo \<le> j \<and> P (64 * p + j)" "lo \<le> sz" "sz < 64" "0 < sz"
  shows "found_first (64 * p) sz tmp = Some (next_from P (64 * p + sz) (64 * p + lo))"
proof -
  let ?t = "tmp AND drop_bit (64 - sz) (-1)"
  have t: "bit ?t j \<longleftrightarrow> lo \<le> j \<and> j < sz \<and> P (64 * p + j)" if "j < 64" for j
    using that assms(1) [OF that] assms(3,4) by (auto simp: bit_simps)
  show ?thesis
  proof (cases "?t = 0")
    case True
    from scan_miss [OF t True] assms(2,3) True show ?thesis by (simp add: found_first_def)
  next
    case False
    from found_middle_eq [OF t False] assms(3) False show ?thesis by (simp add: found_first_def)
  qed
qed

lemma find_next_words_eq:
  "64 * p + sz \<le> 64 * length addr \<Longrightarrow>
   find_next_words addr p sz (64 * p) = Some (next_from (bm_bit addr) (64 * p + sz) (64 * p))"
proof (induction sz arbitrary: p rule: less_induct)
  case (less sz)
  show ?case
  proof (cases "sz < 64")
    case True
    then show ?thesis
    proof (cases "sz = 0")
      case False
      with less.prems have p: "p < length addr" by linarith
      with True False have "found_first (64 * p) sz (addr ! p) =
          Some (next_from (bm_bit addr) (64 * p + sz) (64 * p + 0))"
        by (intro found_first_eq) (simp_all add: bm_bit_word)
      with p True False show ?thesis by (simp add: find_next_words.simps [of addr p sz] mem_simps del: rd_eq_Some)
    qed (simp add: find_next_words.simps)
  next
    case False
    with less.prems have p: "p < length addr" by linarith
    have w: "bit (addr ! p) j \<longleftrightarrow> 0 \<le> j \<and> j < 64 \<and> bm_bit addr (64 * p + j)" if "j < 64" for j
      using that p by (simp add: bm_bit_word)
    have guard: "sz - sz mod 64 \<noteq> 0" using False by (simp add: size_floor)
    show ?thesis
    proof (cases "addr ! p = 0")
      case True
      have "find_next_words addr (p + 1) (sz - 64) (64 * (p + 1)) =
          Some (next_from (bm_bit addr) (64 * (p + 1) + (sz - 64)) (64 * (p + 1)))"
        using False less.prems by (intro less.IH) auto
      moreover have "64 * (p + 1) + (sz - 64) = 64 * p + sz" using False by simp
      moreover have "next_from (bm_bit addr) (64 * p + sz) (64 * p + 0) = next_from (bm_bit addr) (64 * p + sz) (64 * p + 64)"
        using False True by (intro scan_miss [OF w]) auto
      ultimately show ?thesis
        using guard p True by (simp add: find_next_words.simps [of addr p sz] mem_simps algebra_simps del: rd_eq_Some)
    next
      case nz: False
      have "found_middle (64 * p) (addr ! p) = Some (next_from (bm_bit addr) (64 * p + sz) (64 * p + 0))"
        using False nz by (intro found_middle_eq [OF w]) auto
      then show ?thesis
        using guard p nz by (simp add: find_next_words.simps [of addr p sz] mem_simps del: rd_eq_Some)
    qed
  qed
qed

lemma find_first_words_eq: "find_first_words addr p sz result = find_next_words addr p sz result"
proof (induction addr p sz result rule: find_first_words.induct)
  case (1 addr p sz result)
  then show ?case
    by (cases "rd addr p")
       (simp_all add: find_first_words.simps [of addr p sz result] find_next_words.simps [of addr p sz result]
         found_first_def Let_def del: rd_eq_Some)
qed

lemma find_next_bit_eq:
  assumes "sz \<le> 64 * length addr"
  shows "find_next_bit addr sz offset = Some (next_from (bm_bit addr) sz offset)"
proof (cases "offset < sz")
  case False
  then show ?thesis by (simp add: find_next_bit_def)
next
  case True
  let ?p = "offset div 64" and ?o = "offset mod 64"
  have off: "offset = 64 * ?p + ?o" and floor: "offset - ?o = 64 * ?p" and o: "?o < 64"
    by (simp_all add: minus_mod_eq_mult_div)
  from True assms have p: "?p < length addr" by linarith
  let ?sz = "sz - 64 * ?p"
  have sz: "64 * ?p + ?sz = sz" "?o < ?sz" using True off by linarith+
  show ?thesis
  proof (cases "?o = 0")
    case True
    then have "find_next_bit addr sz offset = find_next_words addr ?p ?sz (64 * ?p)"
      using \<open>offset < sz\<close> floor by (simp add: find_next_bit_def)
    also have "\<dots> = Some (next_from (bm_bit addr) (64 * ?p + ?sz) (64 * ?p))"
      using sz assms by (intro find_next_words_eq) simp
    finally show ?thesis using sz True off by simp
  next
    case False
    let ?t = "addr ! ?p AND push_bit ?o (-1)"
    have t: "bit ?t j \<longleftrightarrow> ?o \<le> j \<and> bm_bit addr (64 * ?p + j)" if "j < 64" for j
      using that p by (auto simp: bm_bit_word bit_simps)
    show ?thesis
    proof (cases "?sz < 64")
      case True
      have "found_first (64 * ?p) ?sz ?t = Some (next_from (bm_bit addr) (64 * ?p + ?sz) (64 * ?p + ?o))"
        using True sz by (intro found_first_eq [OF t]) auto
      then show ?thesis
        using True False sz floor p \<open>offset < sz\<close>
        by (simp add: find_next_bit_def mem_simps Let_def del: rd_eq_Some)
    next
      case big: False
      have t': "bit ?t j \<longleftrightarrow> ?o \<le> j \<and> j < 64 \<and> bm_bit addr (64 * ?p + j)" if "j < 64" for j
        using t that by blast
      show ?thesis
      proof (cases "?t = 0")
        case True
        have "next_from (bm_bit addr) sz (64 * ?p + ?o) = next_from (bm_bit addr) sz (64 * ?p + 64)"
          using True big sz o by (intro scan_miss [OF t']) auto
        moreover have "find_next_words addr (?p + 1) (?sz - 64) (64 * (?p + 1)) =
            Some (next_from (bm_bit addr) (64 * (?p + 1) + (?sz - 64)) (64 * (?p + 1)))"
          using big sz assms by (intro find_next_words_eq) auto
        moreover have "64 * (?p + 1) + (?sz - 64) = sz" using big sz(1) by simp
        ultimately show ?thesis
          using True False big floor p \<open>offset < sz\<close>
          by (simp add: find_next_bit_def mem_simps Let_def algebra_simps del: rd_eq_Some)
      next
        case nz: False
        have "found_middle (64 * ?p) ?t = Some (next_from (bm_bit addr) sz (64 * ?p + ?o))"
          using nz big sz by (intro found_middle_eq [OF t']) auto
        then show ?thesis
          using nz False big floor p \<open>offset < sz\<close>
          by (simp add: find_next_bit_def mem_simps Let_def del: rd_eq_Some)
      qed
    qed
  qed
qed

lemma find_first_bit_eq:
  "sz \<le> 64 * length addr \<Longrightarrow> find_first_bit addr sz = Some (next_from (bm_bit addr) sz 0)"
  using find_next_words_eq [of 0 sz addr] by (simp add: find_first_bit_def find_first_words_eq)

section \<open>The zero searches are the set searches on the complemented array\<close>

lemma rd_map: "rd (map f xs) i = map_option f (rd xs i)"
  by (simp add: rd_def)

lemma NOT_eq_0_iff: "NOT (w :: 'a::len word) = 0 \<longleftrightarrow> w = -1"
  by (metis bit.compl_zero bit.double_compl)

lemma found_middle_zero_eq: "found_middle_zero result tmp = found_middle result (NOT tmp)"
  by (simp add: found_middle_zero_def found_middle_def ffz_x86_def ffs_x86_def)

lemma found_first_zero_eq:
  assumes "sz < 64"
  shows "found_first_zero result sz tmp = found_first result sz (NOT tmp)"
proof -
  have eq: "NOT tmp AND drop_bit (64 - sz) (-1) = NOT (tmp OR push_bit sz (-1))"
    using assms by (intro bit_word_eqI) (auto simp: bit_simps)
  show ?thesis
    unfolding found_first_zero_def found_first_def Let_def eq NOT_eq_0_iff found_middle_zero_eq ..
qed

lemma find_next_zero_words_eq:
  "find_next_zero_words addr p sz result = find_next_words (map NOT addr) p sz result"
proof (induction addr p sz result rule: find_next_zero_words.induct)
  case (1 addr p sz result)
  show ?case
  proof (cases "rd addr p")
    case None
    then show ?thesis
      by (simp add: find_next_zero_words.simps [of addr p sz result]
          find_next_words.simps [of "map NOT addr" p sz result] rd_map)
  next
    case (Some w)
    then show ?thesis
      using "1.IH" [of w] 
      by (simp add: find_next_zero_words.simps [of addr p sz result] size_floor
          find_next_words.simps [of "map NOT addr" p sz result] rd_map found_middle_zero_eq
          found_first_zero_eq del: rd_eq_Some)
  qed
qed

lemma find_first_zero_words_eq: "find_first_zero_words addr p sz result = find_next_zero_words addr p sz result"
proof (induction addr p sz result rule: find_first_zero_words.induct)
  case (1 addr p sz result)
  then show ?case
    by (cases "rd addr p")
       (simp_all add: find_first_zero_words.simps [of addr p sz result] find_next_zero_words.simps [of addr p sz result]
         found_first_zero_def Let_def del: rd_eq_Some)
qed

lemma find_next_zero_bit_complement:
  "find_next_zero_bit addr sz offset = find_next_bit (map NOT addr) sz offset"
proof -
  have eq: "NOT (w OR drop_bit (64 - o') (-1)) = NOT w AND push_bit o' (-1)" if "o' < 64" for w :: ulong and o'
    using that by (intro bit_word_eqI) (auto simp: bit_simps)
  show ?thesis
    by (cases "rd addr (offset div 64)")
       (simp_all add: find_next_zero_bit_def find_next_bit_def Let_def rd_map eq found_first_zero_eq
         found_middle_zero_eq find_next_zero_words_eq NOT_eq_0_iff [symmetric] del: rd_eq_Some)
qed

lemma bm_bit_complement: "bm_bit (map NOT m) i \<longleftrightarrow> i < 64 * length m \<and> \<not> bm_bit m i"
  by (auto simp: bm_bit_def bit_simps)

lemma next_from_complement:
  "n \<le> 64 * length m \<Longrightarrow> next_from (bm_bit (map NOT m)) n i = next_from (\<lambda>j. \<not> bm_bit m j) n i"
  by (rule next_from_cong) (simp add: bm_bit_complement)

lemma find_next_zero_bit_eq:
  "sz \<le> 64 * length addr \<Longrightarrow>
   find_next_zero_bit addr sz offset = Some (next_from (\<lambda>i. \<not> bm_bit addr i) sz offset)"
  by (simp add: find_next_zero_bit_complement find_next_bit_eq next_from_complement)

lemma find_first_zero_bit_eq:
  "sz \<le> 64 * length addr \<Longrightarrow>
   find_first_zero_bit addr sz = Some (next_from (\<lambda>i. \<not> bm_bit addr i) sz 0)"
  using find_next_words_eq [of 0 sz "map NOT addr"]
  by (simp add: find_first_zero_bit_def find_first_zero_words_eq find_next_zero_words_eq next_from_complement)

section \<open>Testing a bit\<close>

lemma test_bit_eq:
  "nr < 64 * length addr \<Longrightarrow> test_bit nr addr = Some (bm_bit addr nr)"
proof -
  assume "nr < 64 * length addr"
  then have "nr div 32 div 2 < length addr" by (simp add: div_mult2_eq [symmetric])
  then obtain d where d: "rd32 addr (nr div 32) = Some d" using rd32_in by blast
  have "push_bit (nr mod 32) 1 AND (ucast d :: ulong) \<noteq> 0 \<longleftrightarrow> bit d (nr mod 32)"
    using bit_iff_and_push_bit_not_eq_0 [of "ucast d :: ulong" "nr mod 32"]
      order_less_trans [OF mod_less_divisor [of 32 nr], of 64]
    by (simp add: and.commute bit_ucast_iff)
  also have "\<dots> = bm_bit addr nr"
    using rd32_bit [OF d, of "nr mod 32"] by simp
  finally show ?thesis by (simp add: test_bit_def d)
qed

section \<open>Iteration over the set bits\<close>

lemma bsf_SomeD: "bsf w = Some b \<Longrightarrow> bit w b"
  by (auto simp: bsf_def find_Some_iff)

lemma found_middle_ge: "found_middle result tmp = Some r \<Longrightarrow> \<exists>b. r = result + b \<and> bit tmp b"
  by (auto simp: found_middle_def ffs_x86_def bind_eq_Some_conv dest: bsf_SomeD)

lemma found_first_ge: "found_first result sz tmp = Some r \<Longrightarrow> r = result + sz \<or> (\<exists>b. r = result + b \<and> bit tmp b)"
  by (auto simp: found_first_def Let_def bit_simps dest!: found_middle_ge split: if_splits)

lemma find_next_words_ge: "find_next_words addr p sz result = Some r \<Longrightarrow> result \<le> r"
proof (induction addr p sz result rule: find_next_words.induct)
  case (1 addr p sz result)
  then show ?case
    by (subst (asm) (2) find_next_words.simps)
       (auto simp: bind_eq_Some_conv split: if_splits dest!: found_middle_ge found_first_ge)
qed

lemma find_next_bit_progress:
  assumes "find_next_bit addr sz offset = Some r"
  shows "offset \<le> r \<or> sz \<le> r"
proof -
  show ?thesis using assms
    by (auto simp: find_next_bit_def Let_def bind_eq_Some_conv bit_simps minus_mod_eq_mult_div split: if_splits
        dest!: found_middle_ge found_first_ge find_next_words_ge)
       (use mult_div_mod_eq [of 64 offset] in linarith)+
qed

function for_each_from :: "(nat \<Rightarrow> 's \<Rightarrow> 's option) \<Rightarrow> ulong list \<Rightarrow> nat \<Rightarrow> nat \<Rightarrow> 's \<Rightarrow> 's option" where
  "for_each_from body addr sz b s =
     (if b < sz then do {
        s' \<leftarrow> body b s;
        b' \<leftarrow> find_next_bit addr sz (b + 1);
        for_each_from body addr sz b' s' }
      else Some s)"
  by pat_completeness auto
termination
  by (relation "measure (\<lambda>(body, addr, sz, b, s). sz - b)") (auto dest!: find_next_bit_progress)

declare for_each_from.simps [simp del]

definition for_each_set_bit :: "(nat \<Rightarrow> 's \<Rightarrow> 's option) \<Rightarrow> ulong list \<Rightarrow> nat \<Rightarrow> 's \<Rightarrow> 's option" where
  "for_each_set_bit body addr sz s = do {
     b \<leftarrow> find_first_bit addr sz;
     for_each_from body addr sz b s }"

lemma for_each_from_eq:
  assumes "sz \<le> 64 * length addr"
  shows "for_each_from body addr sz (next_from (bm_bit addr) sz i) s =
    fold_opt body (filter (bm_bit addr) [i..<sz]) s"
proof (induction "sz - i" arbitrary: i s rule: less_induct)
  case less
  let ?b = "next_from (bm_bit addr) sz i"
  show ?case
  proof (cases "?b < sz")
    case False
    then show ?thesis
      by (simp add: for_each_from.simps filter_upt_next_from [of "bm_bit addr" i])
  next
    case True
    then have "i \<le> ?b" by (metis le_cases next_from_ge next_from_lower not_le)
    with True have IH: "for_each_from body addr sz (next_from (bm_bit addr) sz (Suc ?b)) s' =
        fold_opt body (filter (bm_bit addr) [Suc ?b..<sz]) s'" for s'
      by (intro less) linarith
    have "for_each_from body addr sz ?b s = do {
        s' \<leftarrow> body ?b s;
        fold_opt body (filter (bm_bit addr) [Suc ?b..<sz]) s' }"
      using True by (simp add: for_each_from.simps [of body addr sz ?b s] find_next_bit_eq [OF assms] IH)
    also have "\<dots> = fold_opt body (filter (bm_bit addr) [i..<sz]) s"
      using True by (simp add: filter_upt_next_from [of "bm_bit addr" i])
    finally show ?thesis .
  qed
qed

lemma for_each_set_bit_eq:
  "sz \<le> 64 * length addr \<Longrightarrow>
   for_each_set_bit body addr sz s = fold_opt body (filter (bm_bit addr) [0..<sz]) s"
  by (simp add: for_each_set_bit_def find_first_bit_eq for_each_from_eq)

end
