(* ===== verification/Hweight.thy ===== *)
theory Hweight
  imports Mpipin_Prelude
begin

text \<open>
  The software population counts of \<^verbatim>\<open>bitops.c\<close> (\<^verbatim>\<open>__sw_hweight8/16/32/64\<close>) and
  \<open>hweight_long\<close> of \<^verbatim>\<open>include/bitops.h\<close>. \<^verbatim>\<open>ARCH_HAS_FAST_MULTIPLIER\<close> is commented out in both
  architecture headers, so the \<^verbatim>\<open>#else\<close> branches are the compiled code; the multiplying
  variants are modelled too and shown to agree.
\<close>

section \<open>The routines\<close>

definition sw_hweight32 :: "u32 \<Rightarrow> u32" where
  "sw_hweight32 w =
     (let res = w - (drop_bit 1 w AND 0x55555555);
          res = (res AND 0x33333333) + (drop_bit 2 res AND 0x33333333);
          res = (res + drop_bit 4 res) AND 0x0F0F0F0F;
          res = res + drop_bit 8 res
      in (res + drop_bit 16 res) AND 0x000000FF)"

definition sw_hweight32_mul :: "u32 \<Rightarrow> u32" where
  "sw_hweight32_mul w =
     (let w = w - (drop_bit 1 w AND 0x55555555);
          w = (w AND 0x33333333) + (drop_bit 2 w AND 0x33333333);
          w = (w + drop_bit 4 w) AND 0x0f0f0f0f
      in drop_bit 24 (w * 0x01010101))"

definition sw_hweight16 :: "u32 \<Rightarrow> u32" where
  "sw_hweight16 w =
     (let res = w - (drop_bit 1 w AND 0x5555);
          res = (res AND 0x3333) + (drop_bit 2 res AND 0x3333);
          res = (res + drop_bit 4 res) AND 0x0F0F
      in (res + drop_bit 8 res) AND 0x00FF)"

definition sw_hweight8 :: "u32 \<Rightarrow> u32" where
  "sw_hweight8 w =
     (let res = w - (drop_bit 1 w AND 0x55);
          res = (res AND 0x33) + (drop_bit 2 res AND 0x33)
      in (res + drop_bit 4 res) AND 0x0F)"

definition sw_hweight64 :: "ulong \<Rightarrow> ulong" where
  "sw_hweight64 w =
     (let res = w - (drop_bit 1 w AND 0x5555555555555555);
          res = (res AND 0x3333333333333333) + (drop_bit 2 res AND 0x3333333333333333);
          res = (res + drop_bit 4 res) AND 0x0F0F0F0F0F0F0F0F;
          res = res + drop_bit 8 res;
          res = res + drop_bit 16 res
      in (res + drop_bit 32 res) AND 0x00000000000000FF)"

definition sw_hweight64_mul :: "ulong \<Rightarrow> ulong" where
  "sw_hweight64_mul w =
     (let w = w - (drop_bit 1 w AND 0x5555555555555555);
          w = (w AND 0x3333333333333333) + (drop_bit 2 w AND 0x3333333333333333);
          w = (w + drop_bit 4 w) AND 0x0f0f0f0f0f0f0f0f
      in drop_bit 56 (w * 0x0101010101010101))"

text \<open>\<^verbatim>\<open>sizeof(w) == 4 ? __sw_hweight32(w) : __sw_hweight64(w)\<close> with an 8-byte \<^verbatim>\<open>unsigned long\<close>.\<close>

definition hweight_long :: "ulong \<Rightarrow> ulong" where
  "hweight_long w = sw_hweight64 w"

section \<open>Digit lists\<close>

abbreviation val :: "nat \<Rightarrow> nat list \<Rightarrow> nat" where
  "val \<equiv> horner_sum (\<lambda>d. d)"

fun pairsum :: "nat list \<Rightarrow> nat list" where
  "pairsum (a # b # ds) = (a + b) # pairsum ds"
| "pairsum ds = ds"

fun field_mask :: "nat \<Rightarrow> nat \<Rightarrow> nat" where
  "field_mask k 0 = 0"
| "field_mask k (Suc n) = (2 ^ k - 1) + 2 ^ (2 * k) * field_mask k n"

declare field_mask.simps(2) [simp del]

lemma field_mask_1 [simp]: "field_mask k (Suc 0) = 2 ^ k - 1"
  by (simp add: field_mask.simps)

lemma field_mask_unfold:
  "field_mask k (numeral n) = (2 ^ k - 1) + 2 ^ (2 * k) * field_mask k (pred_numeral n)"
  by (simp add: numeral_eq_Suc field_mask.simps)

lemma val_less: "\<forall>d \<in> set ds. d < B \<Longrightarrow> val B ds < B ^ length ds"
proof (induction ds)
  case (Cons d ds)
  then have "d < B" "val B ds + 1 \<le> B ^ length ds" by auto
  then have "d + B * val B ds < B * (val B ds + 1)" by simp
  also have "\<dots> \<le> B * B ^ length ds" using \<open>val B ds + 1 \<le> _\<close> by (rule mult_le_mono2)
  finally show ?case by simp
qed simp

lemma bit_low_high:
  fixes a x :: nat
  assumes "a < 2 ^ m"
  shows "bit (a + 2 ^ m * x) i \<longleftrightarrow> (if i < m then bit a i else bit x (i - m))"
proof -
  let ?z = "a + 2 ^ m * x"
  have "take_bit m ?z = a" "drop_bit m ?z = x"
    using assms by (simp_all add: take_bit_eq_mod drop_bit_eq_div)
  then show ?thesis
    by (metis bit_drop_bit_eq bit_take_bit_iff comp_apply le_add_diff_inverse not_le)
qed

lemma val_div: "\<forall>d \<in> set ds. d < B \<Longrightarrow> val B ds div B ^ k = val B (drop k ds)"
proof (induction ds arbitrary: k)
  case (Cons d ds)
  show ?case
  proof (cases k)
    case (Suc j)
    have "val B (d # ds) div B ^ Suc j = val B (d # ds) div B div B ^ j"
      by (simp add: div_mult2_eq)
    also have "val B (d # ds) div B = val B ds" using Cons.prems by simp
    also have "val B ds div B ^ j = val B (drop j ds)" using Cons by simp
    finally show ?thesis by (simp add: Suc)
  qed simp
qed simp

lemma val_mod: "d < B \<Longrightarrow> val B (d # ds) mod B = d"
  by simp

lemma and_low_high:
  fixes a c x y :: nat
  assumes "a < 2 ^ m" "c < 2 ^ m"
  shows "(a + 2 ^ m * x) AND (c + 2 ^ m * y) = (a AND c) + 2 ^ m * (x AND y)"
proof (rule bit_eqI)
  fix i
  have "take_bit m (a AND c) = a AND c"
    unfolding take_bit_and using assms by (simp add: take_bit_nat_eq_self)
  then have "a AND c < 2 ^ m" by (simp only: take_bit_nat_eq_self_iff)
  then show "bit ((a + 2 ^ m * x) AND (c + 2 ^ m * y)) i = bit ((a AND c) + 2 ^ m * (x AND y)) i"
    using assms by (simp add: bit_low_high bit_and_iff)
qed

lemma and_field_mask:
  assumes "a < 2 ^ k" "b < 2 ^ k"
  shows "(a + 2 ^ k * (b + 2 ^ k * r)) AND field_mask k (Suc n) = a + 2 ^ (2 * k) * (r AND field_mask k n)"
proof -
  have "b + 1 \<le> 2 ^ k" using assms(2) by simp
  then have "2 ^ k * (b + 1) \<le> (2::nat) ^ k * 2 ^ k" by (rule mult_le_mono2)
  then have low: "a + 2 ^ k * b < 2 ^ (2 * k)" using assms(1) by (simp add: mult_2 power_add)
  have "(2::nat) ^ k \<le> 2 ^ (2 * k)" by (intro power_increasing) auto
  then have mask: "2 ^ k - 1 < (2::nat) ^ (2 * k)"
    by (meson diff_less less_le_trans zero_less_numeral zero_less_one zero_less_power)
  have m1: "(a + 2 ^ k * b) AND (2 ^ k - 1) = a"
    unfolding mask_eq_exp_minus_1 [symmetric] take_bit_eq_mask [symmetric]
    using assms(1) by (simp add: take_bit_eq_mod)
  have e: "a + 2 ^ k * (b + 2 ^ k * r) = (a + 2 ^ k * b) + 2 ^ (2 * k) * r"
    by (simp add: mult_2 power_add distrib_left mult.assoc)
  show ?thesis
    unfolding field_mask.simps e and_low_high [OF low mask] m1 ..
qed

lemma fm_1_32: "field_mask 1 32 = 0x5555555555555555"
  by (simp add: field_mask_unfold)
lemma fm_2_16: "field_mask 2 16 = 0x3333333333333333"
  by (simp add: field_mask_unfold)
lemma fm_4_8: "field_mask 4 8 = 0x0F0F0F0F0F0F0F0F"
  by (simp add: field_mask_unfold)
lemma fm_1_16: "field_mask 1 16 = 0x55555555"
  by (simp add: field_mask_unfold)
lemma fm_2_8: "field_mask 2 8 = 0x33333333"
  by (simp add: field_mask_unfold)
lemma fm_4_4: "field_mask 4 4 = 0x0F0F0F0F"
  by (simp add: field_mask_unfold)

lemma pairsum_length: "length ds = 2 * n \<Longrightarrow> length (pairsum ds) = n"
  by (induction n arbitrary: ds) (auto simp: length_Suc_conv)

lemma pairsum_sum: "sum_list (pairsum ds) = sum_list ds"
  by (induction ds rule: pairsum.induct) auto

lemma pairsum_bound: "length ds = 2 * n \<Longrightarrow> \<forall>d \<in> set ds. d \<le> c \<Longrightarrow> \<forall>d \<in> set (pairsum ds). d \<le> 2 * c"
  by (induction n arbitrary: ds) (fastforce simp: length_Suc_conv)+

lemma masked_pairsum:
  assumes "length ds = 2 * n" "\<forall>d \<in> set ds. d < 2 ^ k"
  shows "(val (2 ^ k) ds AND field_mask k n) + (val (2 ^ k) ds div 2 ^ k AND field_mask k n) =
    val (2 ^ (2 * k)) (pairsum ds)"
  using assms
proof (induction n arbitrary: ds)
  case (Suc n)
  then obtain a b r where ds: "ds = a # b # r" "length r = 2 * n"
    by (auto simp: length_Suc_conv)
  with Suc.prems have ab: "a < 2 ^ k" "b < 2 ^ k" "\<forall>d \<in> set r. d < 2 ^ k" by auto
  let ?v = "val (2 ^ k) r" and ?X = "(2::nat) ^ (2 * k)" and ?M = "field_mask k"
  have v: "val (2 ^ k) ds = a + 2 ^ k * (b + 2 ^ k * ?v)" by (simp add: ds)
  have d: "val (2 ^ k) ds div 2 ^ k = b + 2 ^ k * (?v mod 2 ^ k + 2 ^ k * (?v div 2 ^ k))"
    using ab by (simp add: v)
  have "(val (2 ^ k) ds AND ?M (Suc n)) + (val (2 ^ k) ds div 2 ^ k AND ?M (Suc n)) =
      (a + ?X * (?v AND ?M n)) + (b + ?X * (?v div 2 ^ k AND ?M n))"
    using and_field_mask [OF ab(1,2), of ?v n] and_field_mask [OF ab(2), of "?v mod 2 ^ k" "?v div 2 ^ k" n]
    unfolding d by (simp only: v) simp
  also have "\<dots> = (a + b) + ?X * ((?v AND ?M n) + (?v div 2 ^ k AND ?M n))"
    by (simp add: distrib_left)
  finally show ?case
    using Suc.IH [OF ds(2) ab(3)] by (simp add: ds)
qed simp


text \<open>The first step subtracts: a binary number is the sum of its even and doubled odd fields.\<close>

lemma odd_even_fields:
  assumes "length ds = 2 * n" "\<forall>d \<in> set ds. d < 2"
  shows "val 2 ds - (val 2 ds div 2 AND field_mask 1 n) = val 4 (pairsum ds)"
    and "val 2 ds div 2 AND field_mask 1 n \<le> val 2 ds"
proof -
  have "val 2 ds = (val 2 ds AND field_mask 1 n) + 2 * (val 2 ds div 2 AND field_mask 1 n)"
    using assms
  proof (induction n arbitrary: ds)
    case (Suc n)
    then obtain a b r where ds: "ds = a # b # r" "length r = 2 * n"
      by (auto simp: length_Suc_conv)
    with Suc.prems have ab: "a < 2 ^ 1" "b < 2 ^ 1" "\<forall>d \<in> set r. d < 2" by auto
    let ?v = "val 2 r" and ?M = "field_mask 1"
    have v: "val 2 ds = a + 2 ^ 1 * (b + 2 ^ 1 * ?v)" by (simp add: ds)
    have d: "val 2 ds div 2 = b + 2 ^ 1 * (?v mod 2 ^ 1 + 2 ^ 1 * (?v div 2 ^ 1))"
      using ab by (simp add: v)
    have "?v mod 2 ^ 1 < 2 ^ 1" by simp
    note ands = and_field_mask [OF ab(1,2), of ?v n] and_field_mask [OF ab(2) this, of "?v div 2 ^ 1" n]
    have "(val 2 ds AND ?M (Suc n)) + 2 * (val 2 ds div 2 AND ?M (Suc n)) =
        (a + 2 ^ (2 * 1) * (?v AND ?M n)) + 2 * (b + 2 ^ (2 * 1) * (?v div 2 ^ 1 AND ?M n))"
      unfolding d ands by (simp only: v ands)
    also have "\<dots> = a + 2 * b + 4 * ((?v AND ?M n) + 2 * (?v div 2 AND ?M n))" by simp
    also have "\<dots> = val 2 ds" unfolding Suc.IH [OF ds(2) ab(3), symmetric] by (simp add: ds)
    finally show ?case ..
  qed simp
  moreover have "(val 2 ds AND field_mask 1 n) + (val 2 ds div 2 AND field_mask 1 n) = val 4 (pairsum ds)"
    using masked_pairsum [of ds n 1] assms by simp
  ultimately show "val 2 ds - (val 2 ds div 2 AND field_mask 1 n) = val 4 (pairsum ds)"
    and "val 2 ds div 2 AND field_mask 1 n \<le> val 2 ds" by linarith+
qed

text \<open>The third step masks after the addition: small fields do not carry into each other.\<close>

lemma and_after_add:
  assumes "length ds = 2 * n" "\<forall>d \<in> set ds. 2 * d < 2 ^ k"
  shows "(val (2 ^ k) ds + val (2 ^ k) ds div 2 ^ k) AND field_mask k n = val (2 ^ (2 * k)) (pairsum ds)"
  using assms
proof (induction n arbitrary: ds)
  case (Suc n)
  then obtain a b r where ds: "ds = a # b # r" "length r = 2 * n"
    by (auto simp: length_Suc_conv)
  with Suc.prems have ab: "2 * a < 2 ^ k" "2 * b < 2 ^ k" "\<forall>d \<in> set r. 2 * d < 2 ^ k" by auto
  let ?v = "val (2 ^ k) r" and ?B = "(2::nat) ^ k"
  obtain c where c: "2 * c < ?B" "?v mod ?B = c"
  proof (cases r)
    case Nil
    with that [of 0] show ?thesis by simp
  next
    case (Cons c r')
    with that [of c] ab(3) show ?thesis by simp
  qed
  have v: "val ?B ds = a + ?B * (b + ?B * ?v)" by (simp add: ds)
  have "val ?B ds div ?B = b + ?B * ?v" using ab by (simp add: v)
  moreover have "?B * ?v = ?B * c + ?B * (?B * (?v div ?B))"
    using c(2) by (metis distrib_left mod_mult_div_eq)
  ultimately have eq: "val ?B ds + val ?B ds div ?B =
      (a + b) + ?B * ((b + c) + ?B * (?v + ?v div ?B))"
    unfolding v distrib_left by linarith
  have "a + b < ?B" "b + c < ?B" using ab(1,2) c(1) by linarith+
  then show ?case
    unfolding eq using Suc.IH [OF ds(2) ab(3)]
    by (simp add: ds and_field_mask [of "a + b" k "b + c"])
qed simp


text \<open>Three steps turn the 64 bits of a word into eight byte counts, the 32 bits into four.\<close>

definition byte_counts :: "nat list \<Rightarrow> nat list" where
  "byte_counts ds = pairsum (pairsum (pairsum ds))"

lemma byte_counts:
  assumes "length ds = 8 * n" "\<forall>d \<in> set ds. d < 2"
  shows "length (byte_counts ds) = n" "\<forall>d \<in> set (byte_counts ds). d \<le> 8"
    "sum_list (byte_counts ds) = sum_list ds"
proof -
  have "length (pairsum ds) = 2 * (2 * n)" "length (pairsum (pairsum ds)) = 2 * n"
    using assms(1) by (simp_all add: pairsum_length)
  moreover have "\<forall>d \<in> set (pairsum ds). d \<le> 2 * 1"
    using assms by (intro pairsum_bound [of ds "4 * n"]) auto
  ultimately show "\<forall>d \<in> set (byte_counts ds). d \<le> 8"
    using pairsum_bound [of "pairsum ds" "2 * n" 2] pairsum_bound [of "pairsum (pairsum ds)" n 4]
    by (simp add: byte_counts_def)
qed (use assms in \<open>simp_all add: byte_counts_def pairsum_length pairsum_sum\<close>)

lemma val_double: "val B (map ((*) 2) ds) = 2 * val B ds"
  by (induction ds) auto

lemma val_double_less: "\<forall>d \<in> set ds. 2 * d < B \<Longrightarrow> 2 * val B ds < B ^ length ds"
  using val_less [of "map ((*) 2) ds" B] by (simp add: val_double)

lemma three_steps:
  assumes "length ds = 8 * n" "\<forall>d \<in> set ds. d < 2"
  defines "x1 \<equiv> val 2 ds - (val 2 ds div 2 AND field_mask 1 (4 * n))"
  defines "x2 \<equiv> (x1 AND field_mask 2 (2 * n)) + (x1 div 4 AND field_mask 2 (2 * n))"
  shows "(x2 + x2 div 16) AND field_mask 4 n = val 256 (byte_counts ds)"
    "val 2 ds div 2 AND field_mask 1 (4 * n) \<le> val 2 ds" "x2 + x2 div 16 < 2 ^ (8 * n)"
proof -
  have len: "length (pairsum ds) = 2 * (2 * n)" "length (pairsum (pairsum ds)) = 2 * n"
    using assms(1) by (simp_all add: pairsum_length)
  have b1: "\<forall>d \<in> set (pairsum ds). d \<le> 2 * 1"
    using assms by (intro pairsum_bound [of ds "4 * n"]) auto
  have b2: "\<forall>d \<in> set (pairsum (pairsum ds)). d \<le> 2 * 2"
    using len b1 by (intro pairsum_bound [of _ "2 * n"]) auto
  have x1: "x1 = val (2 ^ 2) (pairsum ds)"
    unfolding x1_def using odd_even_fields(1) [of ds "4 * n"] assms by simp
  have x2: "x2 = val (2 ^ (2 * 2)) (pairsum (pairsum ds))"
    unfolding x2_def x1 using masked_pairsum [of "pairsum ds" "2 * n" 2] len b1 by fastforce
  then show "(x2 + x2 div 16) AND field_mask 4 n = val 256 (byte_counts ds)"
    using and_after_add [of "pairsum (pairsum ds)" n 4] len b2 by (fastforce simp: byte_counts_def)
  show "val 2 ds div 2 AND field_mask 1 (4 * n) \<le> val 2 ds"
    using odd_even_fields(2) [of ds "4 * n"] assms by simp
  have "2 * x2 < (2 ^ (2 * 2)) ^ length (pairsum (pairsum ds))"
    unfolding x2 by (rule val_double_less) (use b2 in fastforce)
  also have "\<dots> = 2 ^ (8 * n)" unfolding len power_mult [symmetric] by simp
  finally show "x2 + x2 div 16 < 2 ^ (8 * n)" using div_le_dividend [of x2 16] by linarith
qed

lemma byte_sum_8:
  assumes "length cs = 8" "\<forall>c \<in> set cs. c \<le> 8"
  defines "r1 \<equiv> val 256 cs + val 256 cs div 256"
  defines "r2 \<equiv> r1 + r1 div 65536"
  shows "(r2 + r2 div 4294967296) mod 256 = sum_list cs" "r2 + r2 div 4294967296 < 2 ^ 64"
    "val 256 cs * 0x0101010101010101 mod 2 ^ 64 div 2 ^ 56 = sum_list cs"
    "r1 < 2 ^ 64" "r2 < 2 ^ 64" "val 256 cs < 2 ^ 64"
proof -
  obtain c0 c1 c2 c3 c4 c5 c6 c7 where cs: "cs = [c0, c1, c2, c3, c4, c5, c6, c7]"
    using assms(1) by (auto simp: length_Suc_conv eval_nat_numeral)
  with assms(2) have b: "c0 \<le> 8" "c1 \<le> 8" "c2 \<le> 8" "c3 \<le> 8" "c4 \<le> 8" "c5 \<le> 8" "c6 \<le> 8" "c7 \<le> 8"
    by auto
  have r1: "r1 = val 256 [c0 + c1, c1 + c2, c2 + c3, c3 + c4, c4 + c5, c5 + c6, c6 + c7, c7]"
    using b by (simp add: r1_def cs)
  have "r1 div 256 ^ 2 = val 256 [c2 + c3, c3 + c4, c4 + c5, c5 + c6, c6 + c7, c7]"
    unfolding r1 by (subst val_div) (use b in auto)
  then have r2: "r2 = val 256 [c0 + c1 + c2 + c3, c1 + c2 + c3 + c4, c2 + c3 + c4 + c5, c3 + c4 + c5 + c6,
      c4 + c5 + c6 + c7, c5 + c6 + c7, c6 + c7, c7]"
    by (simp add: r2_def) (simp add: r1)
  have "r2 div 256 ^ 4 = val 256 [c4 + c5 + c6 + c7, c5 + c6 + c7, c6 + c7, c7]"
    unfolding r2 by (subst val_div) (use b in auto)
  then have r3: "r2 + r2 div 4294967296 = val 256 [c0 + c1 + c2 + c3 + c4 + c5 + c6 + c7,
      c1 + c2 + c3 + c4 + c5 + c6 + c7, c2 + c3 + c4 + c5 + c6 + c7, c3 + c4 + c5 + c6 + c7,
      c4 + c5 + c6 + c7, c5 + c6 + c7, c6 + c7, c7]"
    by simp (simp add: r2)
  show "(r2 + r2 div 4294967296) mod 256 = sum_list cs"
    unfolding r3 by (subst val_mod) (use b in \<open>simp_all add: cs\<close>)
  show "r2 + r2 div 4294967296 < 2 ^ 64" unfolding r3 using b by simp
  let ?p = "[c0, c0 + c1, c0 + c1 + c2, c0 + c1 + c2 + c3, c0 + c1 + c2 + c3 + c4,
      c0 + c1 + c2 + c3 + c4 + c5, c0 + c1 + c2 + c3 + c4 + c5 + c6, c0 + c1 + c2 + c3 + c4 + c5 + c6 + c7]"
  have "val 256 cs * 0x0101010101010101 = val 256 ?p + 2 ^ 64 * val 256 [c1 + c2 + c3 + c4 + c5 + c6 + c7,
      c2 + c3 + c4 + c5 + c6 + c7, c3 + c4 + c5 + c6 + c7, c4 + c5 + c6 + c7, c5 + c6 + c7, c6 + c7, c7]"
    by (simp add: cs)
  moreover have "val 256 ?p < 256 ^ length ?p" using b by (intro val_less) simp
  then have "val 256 ?p < 2 ^ 64" by simp
  ultimately have "val 256 cs * 0x0101010101010101 mod 2 ^ 64 = val 256 ?p"
    by (simp only: mod_mult_self2 mod_less)
  also have "\<dots> div 256 ^ 7 = sum_list cs" by (subst val_div) (use b in \<open>auto simp: cs\<close>)
  finally show "val 256 cs * 0x0101010101010101 mod 2 ^ 64 div 2 ^ 56 = sum_list cs" by simp
  show "r1 < 2 ^ 64" "r2 < 2 ^ 64" "val 256 cs < 2 ^ 64" using b unfolding r1 r2 cs by simp_all
qed

section \<open>From words to digit lists\<close>

definition bits_of :: "nat \<Rightarrow> 'a::len word \<Rightarrow> nat list" where
  "bits_of n w = map (\<lambda>i. of_bool (bit w i)) [0..<n]"

lemma bits_of:
  "length (bits_of n w) = n" "\<forall>d \<in> set (bits_of n w). d < 2"
  "sum_list (bits_of n w) = card {i. i < n \<and> bit w i}"
proof -
  have "sum_list (bits_of n w) = (\<Sum>i = 0..<n. of_bool (bit w i))"
    by (simp add: bits_of_def interv_sum_list_conv_sum_set_nat)
  also have "\<dots> = card ({0..<n} \<inter> {i. bit w i})"
    by (simp add: sum_of_bool_eq)
  also have "{0..<n} \<inter> {i. bit w i} = {i. i < n \<and> bit w i}" by auto
  finally show "sum_list (bits_of n w) = card {i. i < n \<and> bit w i}" .
qed (auto simp: bits_of_def)

lemma horner_sum_map_of_bool: "val 2 (map (\<lambda>i. of_bool (P i)) xs) = horner_sum of_bool 2 (map P xs)"
  by (induction xs) auto

lemma val_bits_of:
  assumes "unat w < 2 ^ n"
  shows "val 2 (bits_of n w) = unat w"
proof -
  have "(\<lambda>i. bit w i) = bit (unat w)" by (auto simp: bit_unsigned_iff dest: bit_imp_le_length)
  then have "val 2 (bits_of n w) = take_bit n (unat w)"
    by (simp add: bits_of_def horner_sum_map_of_bool horner_sum_bit_eq_take_bit)
  then show ?thesis using assms by (simp add: take_bit_nat_eq_self)
qed

lemma unat_drop: "unat (drop_bit k (w :: 'a::len word)) = unat w div 2 ^ k"
  unfolding unat_drop_bit_eq by (rule drop_bit_eq_div)

lemma unat_add_less: "unat (a::'a::len word) + unat b < 2 ^ LENGTH('a) \<Longrightarrow> unat (a + b) = unat a + unat b"
  by (simp add: unat_add_lem [THEN iffD1])

lemma word_three_steps:
  fixes w :: "'a::len word"
  assumes w: "unat w < 2 ^ (8 * n)" "8 * n \<le> LENGTH('a)"
    and m: "unat m1 = field_mask 1 (4 * n)" "unat m2 = field_mask 2 (2 * n)" "unat m4 = field_mask 4 n"
  defines "x1 \<equiv> w - (drop_bit 1 w AND m1)"
  defines "x2 \<equiv> (x1 AND m2) + (drop_bit 2 x1 AND m2)"
  shows "unat ((x2 + drop_bit 4 x2) AND m4) = val 256 (byte_counts (bits_of (8 * n) w))"
proof -
  note ds = bits_of(1,2) [of "8 * n" w]
  note steps = three_steps [OF ds, unfolded val_bits_of [OF w(1)]]
  have top: "(2::nat) ^ (8 * n) \<le> 2 ^ LENGTH('a)" using w(2) by (rule power_increasing) simp
  have half: "unat (drop_bit 1 w AND m1) = (unat w div 2 AND field_mask 1 (4 * n))"
    unfolding unsigned_and_eq unat_drop m by simp
  then have "drop_bit 1 w AND m1 \<le> w"
    using steps(2) by (simp only: word_le_nat_alt)
  then have x1: "unat x1 = unat w - (unat w div 2 AND field_mask 1 (4 * n))"
    unfolding x1_def half [symmetric] by (rule unat_sub)
  let ?x2 = "(unat x1 AND field_mask 2 (2 * n)) + (unat x1 div 4 AND field_mask 2 (2 * n))"
  have le: "?x2 + ?x2 div 16 < 2 ^ LENGTH('a)"
    using steps(3) top unfolding x1 by (rule less_le_trans)
  then have x2: "unat x2 = ?x2"
    unfolding x2_def
    by (subst unat_add_less) (simp_all add: unsigned_and_eq unat_drop m)
  have "unat (x2 + drop_bit 4 x2) = ?x2 + ?x2 div 16"
    using le by (subst unat_add_less) (simp_all add: x2 unat_drop)
  then show ?thesis
    using steps(1) by (simp add: unsigned_and_eq m x1)
qed

lemma unat_and_ff: "unat ((x :: 'a::len word) AND 0xFF) = unat x mod 256" if "8 \<le> LENGTH('a)"
proof -
  have "(0xFF :: 'a word) = mask 8" by (simp add: mask_eq_exp_minus_1)
  show ?thesis
    unfolding \<open>0xFF = mask 8\<close> take_bit_eq_mask [symmetric] unsigned_take_bit_eq
    by (simp add: take_bit_eq_mod [of 8 "unat x"])
qed

lemma sw_hweight64_count: "unat (sw_hweight64 w) = card {i. i < 64 \<and> bit w i}"
  and sw_hweight64_mul_count: "unat (sw_hweight64_mul w) = card {i. i < 64 \<and> bit w i}"
proof -
  let ?ds = "bits_of (8 * 8) w"
  define x1 where "x1 = w - (drop_bit 1 w AND 0x5555555555555555)"
  define x2 where "x2 = (x1 AND 0x3333333333333333) + (drop_bit 2 x1 AND 0x3333333333333333)"
  define x3 where "x3 = (x2 + drop_bit 4 x2) AND 0x0F0F0F0F0F0F0F0F"
  have "unat w < 2 ^ (8 * 8)" using unsigned_less [of w] by simp
  then have x3: "unat x3 = val 256 (byte_counts ?ds)"
    unfolding x3_def x2_def x1_def
    by (rule word_three_steps) (simp_all add: fm_1_32 fm_2_16 fm_4_8 del: One_nat_def)
  note bc = byte_counts [OF bits_of(1,2) [of "8 * 8" w]]
  note sums = byte_sum_8 [OF bc(1,2), folded x3]
  define r1 where "r1 = x3 + drop_bit 8 x3"
  define r2 where "r2 = r1 + drop_bit 16 r1"
  have r1: "unat r1 = unat x3 + unat x3 div 256"
    unfolding r1_def by (subst unat_add_less) (use sums(4) in \<open>simp_all add: unat_drop\<close>)
  have r2: "unat r2 = unat r1 + unat r1 div 65536"
    unfolding r2_def by (subst unat_add_less) (use sums(5) in \<open>simp_all add: r1 unat_drop\<close>)
  have "unat (r2 + drop_bit 32 r2) = unat r2 + unat r2 div 4294967296"
    by (subst unat_add_less) (use sums(2) in \<open>simp_all add: r1 r2 unat_drop\<close>)
  then have "unat ((r2 + drop_bit 32 r2) AND 0xFF) = sum_list (byte_counts ?ds)"
    using sums(1) by (simp add: unat_and_ff r1 r2)
  then show "unat (sw_hweight64 w) = card {i. i < 64 \<and> bit w i}"
    unfolding sw_hweight64_def Let_def x1_def [symmetric] x2_def [symmetric] x3_def [symmetric]
      r1_def [symmetric] r2_def [symmetric] by (simp add: bc(3) [simplified] bits_of(3))
  have "unat (drop_bit 56 (x3 * 0x0101010101010101)) = sum_list (byte_counts ?ds)"
    using sums(3) by (simp add: unat_drop unat_word_ariths take_bit_eq_mod)
  then show "unat (sw_hweight64_mul w) = card {i. i < 64 \<and> bit w i}"
    unfolding sw_hweight64_mul_def Let_def x1_def [symmetric] x2_def [symmetric] x3_def [symmetric]
    by (simp add: bc(3) [simplified] bits_of(3))
qed


text \<open>The 32-bit routines; the 16- and 8-bit ones take an argument of that many bits.\<close>

lemma byte_sum_4:
  assumes "length cs = 4" "\<forall>c \<in> set cs. c \<le> 8"
  defines "r1 \<equiv> val 256 cs + val 256 cs div 256"
  shows "(r1 + r1 div 65536) mod 256 = sum_list cs" "r1 + r1 div 65536 < 2 ^ 32"
    "val 256 cs * 0x01010101 mod 2 ^ 32 div 2 ^ 24 = sum_list cs" "r1 < 2 ^ 32"
proof -
  obtain c0 c1 c2 c3 where cs: "cs = [c0, c1, c2, c3]"
    using assms(1) by (auto simp: length_Suc_conv eval_nat_numeral)
  with assms(2) have b: "c0 \<le> 8" "c1 \<le> 8" "c2 \<le> 8" "c3 \<le> 8" by auto
  have r1: "r1 = val 256 [c0 + c1, c1 + c2, c2 + c3, c3]"
    using b by (simp add: r1_def cs)
  have "r1 div 256 ^ 2 = val 256 [c2 + c3, c3]"
    unfolding r1 by (subst val_div) (use b in auto)
  then have r2: "r1 + r1 div 65536 = val 256 [c0 + c1 + c2 + c3, c1 + c2 + c3, c2 + c3, c3]"
    by simp (simp add: r1)
  show "(r1 + r1 div 65536) mod 256 = sum_list cs"
    unfolding r2 by (subst val_mod) (use b in \<open>simp_all add: cs\<close>)
  show "r1 + r1 div 65536 < 2 ^ 32" unfolding r2 using b by simp
  show "r1 < 2 ^ 32" unfolding r1 using b by simp
  let ?p = "[c0, c0 + c1, c0 + c1 + c2, c0 + c1 + c2 + c3]"
  have "val 256 cs * 0x01010101 = val 256 ?p + 2 ^ 32 * val 256 [c1 + c2 + c3, c2 + c3, c3]"
    by (simp add: cs)
  moreover have "val 256 ?p < 2 ^ 32" using b by simp
  ultimately have "val 256 cs * 0x01010101 mod 2 ^ 32 = val 256 ?p"
    by (simp only: mod_mult_self2 mod_less)
  also have "\<dots> div 256 ^ 3 = sum_list cs" by (subst val_div) (use b in \<open>auto simp: cs\<close>)
  finally show "val 256 cs * 0x01010101 mod 2 ^ 32 div 2 ^ 24 = sum_list cs" by simp
qed

lemma sw_hweight32_count: "unat (sw_hweight32 w) = card {i. i < 32 \<and> bit w i}"
  and sw_hweight32_mul_count: "unat (sw_hweight32_mul w) = card {i. i < 32 \<and> bit w i}"
proof -
  let ?ds = "bits_of (8 * 4) w"
  define x1 where "x1 = w - (drop_bit 1 w AND 0x55555555)"
  define x2 where "x2 = (x1 AND 0x33333333) + (drop_bit 2 x1 AND 0x33333333)"
  define x3 where "x3 = (x2 + drop_bit 4 x2) AND 0x0F0F0F0F"
  have "unat w < 2 ^ (8 * 4)" using unsigned_less [of w] by simp
  then have x3: "unat x3 = val 256 (byte_counts ?ds)"
    unfolding x3_def x2_def x1_def
    by (rule word_three_steps) (simp_all add: fm_1_16 fm_2_8 fm_4_4 del: One_nat_def)
  note bc = byte_counts [OF bits_of(1,2) [of "8 * 4" w]]
  note sums = byte_sum_4 [OF bc(1,2), folded x3]
  define r1 where "r1 = x3 + drop_bit 8 x3"
  have r1: "unat r1 = unat x3 + unat x3 div 256"
    unfolding r1_def by (subst unat_add_less) (use sums(4) in \<open>simp_all add: unat_drop\<close>)
  have "unat (r1 + drop_bit 16 r1) = unat r1 + unat r1 div 65536"
    by (subst unat_add_less) (use sums(2) in \<open>simp_all add: r1 unat_drop\<close>)
  then have "unat ((r1 + drop_bit 16 r1) AND 0xFF) = sum_list (byte_counts ?ds)"
    using sums(1) by (simp add: unat_and_ff r1)
  then show "unat (sw_hweight32 w) = card {i. i < 32 \<and> bit w i}"
    unfolding sw_hweight32_def Let_def x1_def [symmetric] x2_def [symmetric] x3_def [symmetric]
      r1_def [symmetric] by (simp add: bc(3) [simplified] bits_of(3))
  have "unat (drop_bit 24 (x3 * 0x01010101)) = sum_list (byte_counts ?ds)"
    using sums(3) by (simp add: unat_drop unat_word_ariths take_bit_eq_mod)
  then show "unat (sw_hweight32_mul w) = card {i. i < 32 \<and> bit w i}"
    unfolding sw_hweight32_mul_def Let_def x1_def [symmetric] x2_def [symmetric] x3_def [symmetric]
    by (simp add: bc(3) [simplified] bits_of(3))
qed

lemma sw_hweight16_count:
  assumes "unat w < 2 ^ 16"
  shows "unat (sw_hweight16 w) = card {i. i < 16 \<and> bit w i}"
proof -
  let ?ds = "bits_of (8 * 2) w"
  define x1 where "x1 = w - (drop_bit 1 w AND 0x5555)"
  define x2 where "x2 = (x1 AND 0x3333) + (drop_bit 2 x1 AND 0x3333)"
  define x3 where "x3 = (x2 + drop_bit 4 x2) AND 0x0F0F"
  have "unat w < 2 ^ (8 * 2)" using assms by simp
  then have x3: "unat x3 = val 256 (byte_counts ?ds)"
    unfolding x3_def x2_def x1_def
    by (rule word_three_steps) (simp_all add: field_mask_unfold)
  note bc = byte_counts [OF bits_of(1,2) [of "8 * 2" w]]
  obtain a b where cs: "byte_counts ?ds = [a, b]"
    using bc(1) by (auto simp: length_Suc_conv eval_nat_numeral)
  with bc(2) have ab: "a \<le> 8" "b \<le> 8" by auto
  have "unat (x3 + drop_bit 8 x3) = val 256 [a + b, b]"
    by (subst unat_add_less) (use ab in \<open>simp_all add: x3 [unfolded cs] unat_drop\<close>)
  then have "unat ((x3 + drop_bit 8 x3) AND 0xFF) = a + b"
    using ab val_mod [of "a + b" 256 "[b]"] by (simp add: unat_and_ff del: horner_sum_simps)
  then show ?thesis
    using bc(3) [unfolded cs] unfolding sw_hweight16_def Let_def x1_def [symmetric] x2_def [symmetric] x3_def [symmetric]
    by (simp add: bits_of(3))
qed

lemma sw_hweight8_count:
  assumes "unat w < 2 ^ 8"
  shows "unat (sw_hweight8 w) = card {i. i < 8 \<and> bit w i}"
proof -
  have w: "unat w < 2 ^ (8 * 1)" using assms by simp
  have "unat (sw_hweight8 w) = val 256 (byte_counts (bits_of (8 * 1) w))"
    unfolding sw_hweight8_def Let_def
    by (rule word_three_steps [OF w]) (simp_all add: field_mask_unfold)
  moreover obtain a where "byte_counts (bits_of (8 * 1) w) = [a]"
    using byte_counts(1) [OF bits_of(1,2) [of "8 * 1" w]] by (auto simp: length_Suc_conv)
  ultimately show ?thesis
    using byte_counts(3) [OF bits_of(1,2) [of "8 * 1" w]] by (simp add: bits_of(3))
qed

text \<open>The population count is the number of set bits: what \<^verbatim>\<open>bitmap_weight\<close> relies on.\<close>

lemma hweight_long_count: "unat (hweight_long w) = card {i. bit w i}"
proof -
  have "{i. i < 64 \<and> bit w i} = {i. bit w i}" by (auto dest: bit_imp_le_length)
  then show ?thesis by (simp add: hweight_long_def sw_hweight64_count)
qed

end
