(* ===== verification/Bitmap_Core.thy ===== *)
theory Bitmap_Core
  imports Bitops Hweight
begin

text \<open>
  The bit-wise operations of \<^verbatim>\<open>bitmap.c\<close> (lines 65 to 337 without the shifts); the inline
  wrappers of \<^verbatim>\<open>include/bitmap.h\<close> are in theory \<open>Bitmap_Inline\<close>.
  A bitmap is a word list; \<^verbatim>\<open>bits\<close> is a natural number. Where C passes a destination and
  sources that may be the same array, a source is an \<open>operand\<close>: another array, or \<open>Dst\<close> for
  the destination itself, read at its current contents. Loops over the words are \<open>fold_opt\<close>
  over the index range, or \<open>scan_words\<close> where the C loop returns early.
  The lemmas give each operation its meaning on the set of the first \<open>bits\<close> bits.
\<close>

section \<open>Masks and operands\<close>

definition BITMAP_FIRST_WORD_MASK :: "nat \<Rightarrow> ulong" where
  "BITMAP_FIRST_WORD_MASK start = push_bit (start mod 64) (-1)"

definition BITMAP_LAST_WORD_MASK :: "nat \<Rightarrow> ulong" where
  "BITMAP_LAST_WORD_MASK nbits = (if nbits mod 64 \<noteq> 0 then push_bit (nbits mod 64) 1 - 1 else -1)"

datatype operand = Arr "ulong list" | Dst

fun rd_op :: "operand \<Rightarrow> ulong list \<Rightarrow> nat \<Rightarrow> ulong option" where
  "rd_op (Arr a) dst k = rd a k"
| "rd_op Dst dst k = rd dst k"

fun op_words :: "operand \<Rightarrow> ulong list \<Rightarrow> ulong list" where
  "op_words (Arr a) dst = a"
| "op_words Dst dst = dst"

function scan_words :: "(nat \<Rightarrow> bool option) \<Rightarrow> nat \<Rightarrow> nat \<Rightarrow> bool option" where
  "scan_words test k lim =
     (if k < lim then do { t \<leftarrow> test k; if t then Some True else scan_words test (k + 1) lim }
      else Some False)"
  by pat_completeness auto
termination
  by (relation "measure (\<lambda>(test, k, lim). lim - k)") auto

declare scan_words.simps [simp del]

section \<open>Predicates\<close>

definition bitmap_empty' :: "ulong list \<Rightarrow> nat \<Rightarrow> bool option" where
  "bitmap_empty' bitmap bits = (let lim = bits div 64 in do {
     hit \<leftarrow> scan_words (\<lambda>k. do { w \<leftarrow> rd bitmap k; Some (w \<noteq> 0) }) 0 lim;
     if hit then Some False
     else if bits mod 64 \<noteq> 0 then do {
       w \<leftarrow> rd bitmap lim;
       Some (\<not> w AND BITMAP_LAST_WORD_MASK bits \<noteq> 0) }
     else Some True })"

definition bitmap_full' :: "ulong list \<Rightarrow> nat \<Rightarrow> bool option" where
  "bitmap_full' bitmap bits = (let lim = bits div 64 in do {
     hit \<leftarrow> scan_words (\<lambda>k. do { w \<leftarrow> rd bitmap k; Some (NOT w \<noteq> 0) }) 0 lim;
     if hit then Some False
     else if bits mod 64 \<noteq> 0 then do {
       w \<leftarrow> rd bitmap lim;
       Some (\<not> NOT w AND BITMAP_LAST_WORD_MASK bits \<noteq> 0) }
     else Some True })"

definition bitmap_equal' :: "ulong list \<Rightarrow> ulong list \<Rightarrow> nat \<Rightarrow> bool option" where
  "bitmap_equal' bitmap1 bitmap2 bits = (let lim = bits div 64 in do {
     hit \<leftarrow> scan_words (\<lambda>k. do { a \<leftarrow> rd bitmap1 k; b \<leftarrow> rd bitmap2 k; Some (a \<noteq> b) }) 0 lim;
     if hit then Some False
     else if bits mod 64 \<noteq> 0 then do {
       a \<leftarrow> rd bitmap1 lim; b \<leftarrow> rd bitmap2 lim;
       Some (\<not> (a XOR b) AND BITMAP_LAST_WORD_MASK bits \<noteq> 0) }
     else Some True })"

definition bitmap_intersects' :: "ulong list \<Rightarrow> ulong list \<Rightarrow> nat \<Rightarrow> bool option" where
  "bitmap_intersects' bitmap1 bitmap2 bits = (let lim = bits div 64 in do {
     hit \<leftarrow> scan_words (\<lambda>k. do { a \<leftarrow> rd bitmap1 k; b \<leftarrow> rd bitmap2 k; Some (a AND b \<noteq> 0) }) 0 lim;
     if hit then Some True
     else if bits mod 64 \<noteq> 0 then do {
       a \<leftarrow> rd bitmap1 lim; b \<leftarrow> rd bitmap2 lim;
       Some ((a AND b) AND BITMAP_LAST_WORD_MASK bits \<noteq> 0) }
     else Some False })"

definition bitmap_subset' :: "ulong list \<Rightarrow> ulong list \<Rightarrow> nat \<Rightarrow> bool option" where
  "bitmap_subset' bitmap1 bitmap2 bits = (let lim = bits div 64 in do {
     hit \<leftarrow> scan_words (\<lambda>k. do { a \<leftarrow> rd bitmap1 k; b \<leftarrow> rd bitmap2 k; Some (a AND NOT b \<noteq> 0) }) 0 lim;
     if hit then Some False
     else if bits mod 64 \<noteq> 0 then do {
       a \<leftarrow> rd bitmap1 lim; b \<leftarrow> rd bitmap2 lim;
       Some (\<not> (a AND NOT b) AND BITMAP_LAST_WORD_MASK bits \<noteq> 0) }
     else Some True })"

definition bitmap_weight' :: "ulong list \<Rightarrow> nat \<Rightarrow> nat option" where
  "bitmap_weight' bitmap bits = (let lim = bits div 64 in do {
     w \<leftarrow> fold_opt (\<lambda>k w. do { x \<leftarrow> rd bitmap k; Some (w + unat (hweight_long x)) }) [0..<lim] 0;
     if bits mod 64 \<noteq> 0 then do {
       x \<leftarrow> rd bitmap lim;
       Some (w + unat (hweight_long (x AND BITMAP_LAST_WORD_MASK bits))) }
     else Some w })"

section \<open>Word-wise updates\<close>

definition bitmap_complement' :: "ulong list \<Rightarrow> operand \<Rightarrow> nat \<Rightarrow> ulong list option" where
  "bitmap_complement' dst src bits = (let lim = bits div 64 in do {
     dst \<leftarrow> fold_opt (\<lambda>k d. do { s \<leftarrow> rd_op src d k; wr d k (NOT s) }) [0..<lim] dst;
     if bits mod 64 \<noteq> 0 then do {
       s \<leftarrow> rd_op src dst lim;
       wr dst lim (NOT s AND BITMAP_LAST_WORD_MASK bits) }
     else Some dst })"

definition bitmap_and' :: "ulong list \<Rightarrow> operand \<Rightarrow> operand \<Rightarrow> nat \<Rightarrow> (ulong list \<times> bool) option" where
  "bitmap_and' dst bitmap1 bitmap2 bits = do {
     (dst, result) \<leftarrow> fold_opt (\<lambda>k (d, result). do {
         a \<leftarrow> rd_op bitmap1 d k; b \<leftarrow> rd_op bitmap2 d k;
         d' \<leftarrow> wr d k (a AND b);
         Some (d', result OR (a AND b)) }) [0..<BITS_TO_LONGS bits] (dst, 0 :: ulong);
     Some (dst, result \<noteq> 0) }"

definition bitmap_or' :: "ulong list \<Rightarrow> operand \<Rightarrow> operand \<Rightarrow> nat \<Rightarrow> ulong list option" where
  "bitmap_or' dst bitmap1 bitmap2 bits =
     fold_opt (\<lambda>k d. do { a \<leftarrow> rd_op bitmap1 d k; b \<leftarrow> rd_op bitmap2 d k; wr d k (a OR b) })
       [0..<BITS_TO_LONGS bits] dst"

definition bitmap_xor' :: "ulong list \<Rightarrow> operand \<Rightarrow> operand \<Rightarrow> nat \<Rightarrow> ulong list option" where
  "bitmap_xor' dst bitmap1 bitmap2 bits =
     fold_opt (\<lambda>k d. do { a \<leftarrow> rd_op bitmap1 d k; b \<leftarrow> rd_op bitmap2 d k; wr d k (a XOR b) })
       [0..<BITS_TO_LONGS bits] dst"

definition bitmap_andnot' :: "ulong list \<Rightarrow> operand \<Rightarrow> operand \<Rightarrow> nat \<Rightarrow> (ulong list \<times> bool) option" where
  "bitmap_andnot' dst bitmap1 bitmap2 bits = do {
     (dst, result) \<leftarrow> fold_opt (\<lambda>k (d, result). do {
         a \<leftarrow> rd_op bitmap1 d k; b \<leftarrow> rd_op bitmap2 d k;
         d' \<leftarrow> wr d k (a AND NOT b);
         Some (d', result OR (a AND NOT b)) }) [0..<BITS_TO_LONGS bits] (dst, 0 :: ulong);
     Some (dst, result \<noteq> 0) }"

section \<open>Setting and clearing a range\<close>

function bitmap_set_loop :: "ulong list \<Rightarrow> nat \<Rightarrow> nat \<Rightarrow> nat \<Rightarrow> ulong \<Rightarrow> (ulong list \<times> nat \<times> nat \<times> ulong) option" where
  "bitmap_set_loop bmap p nr bits_to_set mask_to_set =
     (if nr \<ge> bits_to_set then do {
        w \<leftarrow> rd bmap p;
        bmap' \<leftarrow> wr bmap p (w OR mask_to_set);
        bitmap_set_loop bmap' (p + 1) (nr - bits_to_set) 64 (-1) }
      else Some (bmap, p, nr, mask_to_set))"
  by pat_completeness auto
termination
  by (relation "measure (\<lambda>(bmap, p, nr, bts, m). 2 * nr + (if bts = 0 then 1 else 0))") auto

definition bitmap_set :: "ulong list \<Rightarrow> nat \<Rightarrow> nat \<Rightarrow> ulong list option" where
  "bitmap_set bmap start nr = (let sz = start + nr in do {
     (bmap, p, nr, mask_to_set) \<leftarrow>
       bitmap_set_loop bmap (BIT_WORD start) nr (64 - start mod 64) (BITMAP_FIRST_WORD_MASK start);
     if nr \<noteq> 0 then do {
       w \<leftarrow> rd bmap p;
       wr bmap p (w OR (mask_to_set AND BITMAP_LAST_WORD_MASK sz)) }
     else Some bmap })"

function bitmap_clear_loop :: "ulong list \<Rightarrow> nat \<Rightarrow> nat \<Rightarrow> nat \<Rightarrow> ulong \<Rightarrow> (ulong list \<times> nat \<times> nat \<times> ulong) option" where
  "bitmap_clear_loop bmap p nr bits_to_clear mask_to_clear =
     (if nr \<ge> bits_to_clear then do {
        w \<leftarrow> rd bmap p;
        bmap' \<leftarrow> wr bmap p (w AND NOT mask_to_clear);
        bitmap_clear_loop bmap' (p + 1) (nr - bits_to_clear) 64 (-1) }
      else Some (bmap, p, nr, mask_to_clear))"
  by pat_completeness auto
termination
  by (relation "measure (\<lambda>(bmap, p, nr, bts, m). 2 * nr + (if bts = 0 then 1 else 0))") auto

definition bitmap_clear :: "ulong list \<Rightarrow> nat \<Rightarrow> nat \<Rightarrow> ulong list option" where
  "bitmap_clear bmap start nr = (let sz = start + nr in do {
     (bmap, p, nr, mask_to_clear) \<leftarrow>
       bitmap_clear_loop bmap (BIT_WORD start) nr (64 - start mod 64) (BITMAP_FIRST_WORD_MASK start);
     if nr \<noteq> 0 then do {
       w \<leftarrow> rd bmap p;
       wr bmap p (w AND NOT (mask_to_clear AND BITMAP_LAST_WORD_MASK sz)) }
     else Some bmap })"

declare bitmap_set_loop.simps [simp del]
declare bitmap_clear_loop.simps [simp del]

section \<open>What the masks select\<close>

lemma bit_first_word_mask [bit_simps]:
  "bit (BITMAP_FIRST_WORD_MASK start) j \<longleftrightarrow> j < 64 \<and> start mod 64 \<le> j"
  by (auto simp: BITMAP_FIRST_WORD_MASK_def bit_simps)

lemma bit_last_word_mask [bit_simps]:
  "bit (BITMAP_LAST_WORD_MASK nbits) j \<longleftrightarrow> j < (if nbits mod 64 = 0 then 64 else nbits mod 64)"
proof -
  have "push_bit n 1 - 1 = (mask n :: ulong)" for n by (simp add: mask_eq_exp_minus_1 push_bit_eq_mult)
  moreover have "nbits mod 64 < 64" by simp
  ultimately show ?thesis
    by (auto simp: BITMAP_LAST_WORD_MASK_def bit_mask_iff)
qed

lemma BITS_TO_LONGS_eq: "BITS_TO_LONGS bits = bits div 64 + (if bits mod 64 = 0 then 0 else 1)"
proof -
  have "bits + 64 - 1 = (bits mod 64 + 63) + (bits div 64) * 64" by simp
  then have "BITS_TO_LONGS bits = bits div 64 + (bits mod 64 + 63) div 64"
    unfolding BITS_TO_LONGS_def by (simp only: div_mult_self1)
  moreover have "(bits mod 64 + 63) div 64 = (if bits mod 64 = 0 then 0 else 1)"
    using mod_less_divisor [of 64 bits] by (auto intro!: div_nat_eqI)
  ultimately show ?thesis by simp
qed

lemma word_nonzero_iff: "(w :: ulong) \<noteq> 0 \<longleftrightarrow> (\<exists>j < 64. bit w j)"
  by (auto simp: bit_eq_iff dest: bit_imp_le_length)

text \<open>A bitmap of \<open>bits\<close> bits is backed by enough words.\<close>

abbreviation backed :: "ulong list \<Rightarrow> nat \<Rightarrow> bool" where
  "backed m bits \<equiv> bits \<le> 64 * length m"

lemma backed_words: "backed m bits \<Longrightarrow> k < bits div 64 \<Longrightarrow> k < length m"
  by linarith

lemma backed_last: "backed m bits \<Longrightarrow> bits mod 64 \<noteq> 0 \<Longrightarrow> bits div 64 < length m"
  using mult_div_mod_eq [of 64 bits] by linarith

lemma all_bits_split:
  fixes bits :: nat
  shows "(\<exists>i < bits. P i) \<longleftrightarrow> (\<exists>k < bits div 64. \<exists>j < 64. P (64 * k + j)) \<or> (\<exists>j < bits mod 64. P (64 * (bits div 64) + j))"
proof
  assume "\<exists>i < bits. P i"
  then obtain i where i: "i < bits" "P i" by blast
  have ix: "64 * (i div 64) + i mod 64 = i" by simp
  show "(\<exists>k < bits div 64. \<exists>j < 64. P (64 * k + j)) \<or> (\<exists>j < bits mod 64. P (64 * (bits div 64) + j))"
  proof (cases "i div 64 < bits div 64")
    case True
    with i ix show ?thesis by (intro disjI1 exI [of _ "i div 64"] conjI exI [of _ "i mod 64"]) auto
  next
    case False
    with i have "i div 64 = bits div 64" by (simp add: div_le_mono le_antisym)
    moreover from this i have "i mod 64 < bits mod 64" using mult_div_mod_eq [of 64 bits] ix by linarith
    ultimately show ?thesis using i ix by (intro disjI2 exI [of _ "i mod 64"]) auto
  qed
next
  assume "(\<exists>k < bits div 64. \<exists>j < 64. P (64 * k + j)) \<or> (\<exists>j < bits mod 64. P (64 * (bits div 64) + j))"
  moreover have "64 * k + j < bits" if "k < bits div 64" "j < 64" for k j
    using that mult_div_mod_eq [of 64 bits] by linarith
  moreover have "64 * (bits div 64) + j < bits" if "j < bits mod 64" for j
    using that mult_div_mod_eq [of 64 bits] by linarith
  ultimately show "\<exists>i < bits. P i" by blast
qed

section \<open>The scanning loops\<close>

lemma scan_words_eq:
  "(\<And>j. k \<le> j \<Longrightarrow> j < lim \<Longrightarrow> test j = Some (P j)) \<Longrightarrow> scan_words test k lim = Some (\<exists>j. k \<le> j \<and> j < lim \<and> P j)"
proof (induction test k lim rule: scan_words.induct)
  case (1 test k lim)
  show ?case
  proof (cases "k < lim")
    case True
    with 1 show ?thesis
      by (simp add: scan_words.simps [of test k lim]) (metis Suc_leD Suc_leI le_neq_implies_less order_refl)
  qed (simp add: scan_words.simps)
qed

lemma scan_bitmap:
  assumes "\<And>k. k < bits div 64 \<Longrightarrow> test k = Some (\<exists>j < 64. P (64 * k + j))"
    and "bits mod 64 \<noteq> 0 \<Longrightarrow> tail = Some (\<exists>j < bits mod 64. P (64 * (bits div 64) + j))"
  shows "do { hit \<leftarrow> scan_words test 0 (bits div 64);
              if hit then Some True else if bits mod 64 \<noteq> 0 then tail else Some False } =
         Some (\<exists>i < bits. P i)"
proof -
  have "scan_words test 0 (bits div 64) = Some (\<exists>k. 0 \<le> k \<and> k < bits div 64 \<and> (\<exists>j < 64. P (64 * k + j)))"
    by (rule scan_words_eq) (simp add: assms(1))
  then show ?thesis using assms(2) by (auto simp: all_bits_split [of bits])
qed

lemma scan_bitmap_not:
  assumes "\<And>k. k < bits div 64 \<Longrightarrow> test k = Some (\<exists>j < 64. P (64 * k + j))"
    and "bits mod 64 \<noteq> 0 \<Longrightarrow> tail = Some (\<not> (\<exists>j < bits mod 64. P (64 * (bits div 64) + j)))"
  shows "do { hit \<leftarrow> scan_words test 0 (bits div 64);
              if hit then Some False else if bits mod 64 \<noteq> 0 then tail else Some True } =
         Some (\<not> (\<exists>i < bits. P i))"
proof -
  have "scan_words test 0 (bits div 64) = Some (\<exists>k. 0 \<le> k \<and> k < bits div 64 \<and> (\<exists>j < 64. P (64 * k + j)))"
    by (rule scan_words_eq) (simp add: assms(1))
  then show ?thesis using assms(2) by (auto simp: all_bits_split [of bits])
qed

lemma last_word_nonzero:
  assumes "bits mod 64 \<noteq> 0"
  shows "(w :: ulong) AND BITMAP_LAST_WORD_MASK bits \<noteq> 0 \<longleftrightarrow> (\<exists>j < bits mod 64. bit w j)"
proof -
  have "bits mod 64 < 64" by simp
  moreover have "bit (w AND BITMAP_LAST_WORD_MASK bits) j \<longleftrightarrow> bit w j \<and> j < bits mod 64" for j
    using assms by (simp add: bit_simps)
  ultimately show ?thesis
    unfolding word_nonzero_iff by (metis order_less_trans)
qed

lemma bm_bit_last:
  "backed m bits \<Longrightarrow> bits mod 64 \<noteq> 0 \<Longrightarrow> j < bits mod 64 \<Longrightarrow>
   bm_bit m (64 * (bits div 64) + j) = bit (m ! (bits div 64)) j"
  using mod_less_divisor [of 64 bits] backed_last by (simp add: bm_bit_word)

lemmas word_pred = rd_in backed_words bm_bit_word word_nonzero_iff bit_and_iff bit_not_iff bit_xor_iff
lemmas last_pred = rd_in backed_last bm_bit_last last_word_nonzero bit_and_iff bit_not_iff bit_xor_iff

lemma bm_bit_last':
  "backed m bits \<Longrightarrow> j < bits mod 64 \<Longrightarrow> bm_bit m (64 * (bits div 64) + j) = bit (m ! (bits div 64)) j"
  using bm_bit_last by auto

lemma last_bit_64: "j < bits mod 64 \<Longrightarrow> j < (64::nat)"
  using mod_less_divisor [of 64 bits] by linarith

lemma bitmap_empty_eq:
  assumes "backed m bits"
  shows "bitmap_empty' m bits = Some (\<not> (\<exists>i < bits. bm_bit m i))"
  unfolding bitmap_empty'_def Let_def
proof (rule scan_bitmap_not, goal_cases)
  case (1 k)
  with assms show ?case by (simp add: word_pred cong: conj_cong del: rd_eq_Some)
next
  case 2
  with assms show ?case by (simp add: last_pred bm_bit_last' last_bit_64 cong: conj_cong del: rd_eq_Some)
qed

lemma bitmap_full_eq:
  assumes "backed m bits"
  shows "bitmap_full' m bits = Some (\<not> (\<exists>i < bits. \<not> bm_bit m i))"
  unfolding bitmap_full'_def Let_def
proof (rule scan_bitmap_not, goal_cases)
  case (1 k)
  with assms show ?case by (simp add: word_pred cong: conj_cong del: rd_eq_Some)
next
  case 2
  with assms show ?case by (simp add: last_pred bm_bit_last' last_bit_64 cong: conj_cong del: rd_eq_Some)
qed

lemma bitmap_equal_eq:
  assumes "backed a bits" "backed b bits"
  shows "bitmap_equal' a b bits = Some (\<not> (\<exists>i < bits. bm_bit a i \<noteq> bm_bit b i))"
  unfolding bitmap_equal'_def Let_def
proof (rule scan_bitmap_not, goal_cases)
  case (1 k)
  with assms show ?case by (auto simp: word_pred bit_eq_iff [of "_ ! _"] cong: conj_cong del: rd_eq_Some)
next
  case 2
  with assms show ?case by (simp add: last_pred bm_bit_last' last_bit_64 cong: conj_cong del: rd_eq_Some)
qed

lemma bitmap_intersects_eq:
  assumes "backed a bits" "backed b bits"
  shows "bitmap_intersects' a b bits = Some (\<exists>i < bits. bm_bit a i \<and> bm_bit b i)"
  unfolding bitmap_intersects'_def Let_def
proof (rule scan_bitmap, goal_cases)
  case (1 k)
  with assms show ?case by (simp add: word_pred cong: conj_cong del: rd_eq_Some)
next
  case 2
  with assms show ?case by (simp add: last_pred bm_bit_last' last_bit_64 cong: conj_cong del: rd_eq_Some)
qed

lemma bitmap_subset_eq:
  assumes "backed a bits" "backed b bits"
  shows "bitmap_subset' a b bits = Some (\<not> (\<exists>i < bits. bm_bit a i \<and> \<not> bm_bit b i))"
  unfolding bitmap_subset'_def Let_def
proof (rule scan_bitmap_not, goal_cases)
  case (1 k)
  with assms show ?case by (simp add: word_pred cong: conj_cong del: rd_eq_Some)
next
  case 2
  with assms show ?case by (simp add: last_pred bm_bit_last' last_bit_64 cong: conj_cong del: rd_eq_Some)
qed

section \<open>The weight\<close>

lemma less_add_split: "(i::nat) < n + r \<longleftrightarrow> i < n \<or> (\<exists>j < r. i = n + j)"
proof (cases "i < n")
  case False
  then have "i = n + (i - n)" by simp
  then show ?thesis using False by (metis nat_add_left_cancel_less)
qed simp

lemma card_bm_set_add:
  "card (bm_set m (64 * k + r)) = card (bm_set m (64 * k)) + card {j. j < r \<and> bm_bit m (64 * k + j)}"
proof -
  have eq: "bm_set m (64 * k + r) = bm_set m (64 * k) \<union> (\<lambda>j. 64 * k + j) ` {j. j < r \<and> bm_bit m (64 * k + j)}"
    by (auto simp: bm_set_def less_add_split [of _ "64 * k"])
  have "card (bm_set m (64 * k + r)) =
      card (bm_set m (64 * k)) + card ((\<lambda>j. 64 * k + j) ` {j. j < r \<and> bm_bit m (64 * k + j)})"
    unfolding eq by (rule card_Un_disjoint) (auto simp: bm_set_def)
  also have "card ((\<lambda>j. 64 * k + j) ` {j. j < r \<and> bm_bit m (64 * k + j)}) = card {j. j < r \<and> bm_bit m (64 * k + j)}"
    by (rule card_image) (simp add: inj_on_def)
  finally show ?thesis .
qed

lemma weight_words:
  assumes "n \<le> length m"
  shows "fold_opt (\<lambda>k w. do { x \<leftarrow> rd m k; Some (w + unat (hweight_long x)) }) [0..<n] 0 = Some (card (bm_set m (64 * n)))"
  using assms
proof (induction n)
  case (Suc n)
  have "card (bm_set m (64 * Suc n)) = card (bm_set m (64 * n)) + card {j. j < 64 \<and> bm_bit m (64 * n + j)}"
    using card_bm_set_add [of m n 64] by (simp add: add.commute)
  also have "{j. j < 64 \<and> bm_bit m (64 * n + j)} = {j. j < 64 \<and> bit (m ! n) j}"
    using Suc.prems by (simp add: bm_bit_word cong: conj_cong)
  also have "\<dots> = {j. bit (m ! n) j}" by (auto dest: bit_imp_le_length)
  finally show ?case
    using Suc by (simp add: fold_opt_append rd_in hweight_long_count del: rd_eq_Some)
qed (simp add: bm_set_def)

lemma bitmap_weight_eq:
  assumes "backed m bits"
  shows "bitmap_weight' m bits = Some (card (bm_set m bits))"
proof (cases "bits mod 64 = 0")
  case True
  then have "64 * (bits div 64) = bits" by auto
  moreover have "bits div 64 \<le> length m" using assms by linarith
  ultimately show ?thesis
    using weight_words [of "bits div 64" m] True by (simp add: bitmap_weight'_def)
next
  case False
  have n: "bits div 64 < length m" using assms False by (rule backed_last)
  have "{j. bit (m ! (bits div 64) AND BITMAP_LAST_WORD_MASK bits) j} =
      {j. j < bits mod 64 \<and> bm_bit m (64 * (bits div 64) + j)}"
    using False assms by (auto simp: bit_simps bm_bit_last)
  then show ?thesis
    using weight_words [of "bits div 64" m] n False card_bm_set_add [of m "bits div 64" "bits mod 64"]
    by (simp add: bitmap_weight'_def Let_def rd_in hweight_long_count del: rd_eq_Some)
qed

section \<open>Word-wise updates\<close>

lemma fold_words:
  assumes "\<And>k d'. k < n \<Longrightarrow> length d' = length d \<Longrightarrow> d' ! k = d ! k \<Longrightarrow> body k d' = Some (d'[k := f k])"
    and "n \<le> length d"
  shows "fold_opt body [0..<n] d = Some (map f [0..<n] @ drop n d)"
  using assms
proof (induction n)
  case (Suc n)
  let ?d = "map f [0..<n] @ drop n d"
  have "fold_opt body [0..<n] d = Some ?d" using Suc by simp
  moreover have "body n ?d = Some (?d[n := f n])"
    using Suc.prems by (intro Suc.prems(1)) (simp_all add: nth_append)
  moreover have "?d[n := f n] = map f [0..<Suc n] @ drop (Suc n) d"
    using Suc.prems(2) by (simp add: list_update_append Cons_nth_drop_Suc [symmetric])
  ultimately show ?case by (simp add: fold_opt_append)
qed simp

lemma fold_words_acc:
  fixes f :: "nat \<Rightarrow> ulong"
  assumes "\<And>k d' r. k < n \<Longrightarrow> length d' = length d \<Longrightarrow> d' ! k = d ! k \<Longrightarrow> body k (d', r) = Some (d'[k := f k], r OR f k)"
    and "n \<le> length d"
  shows "\<exists>r. fold_opt body [0..<n] (d, 0) = Some (map f [0..<n] @ drop n d, r) \<and> (r \<noteq> 0 \<longleftrightarrow> (\<exists>k < n. f k \<noteq> 0))"
  using assms
proof (induction n)
  case (Suc n)
  let ?d = "map f [0..<n] @ drop n d"
  obtain r where "fold_opt body [0..<n] (d, 0) = Some (?d, r)" and r: "r \<noteq> 0 \<longleftrightarrow> (\<exists>k < n. f k \<noteq> 0)"
    using Suc by force
  moreover have "body n (?d, r) = Some (?d[n := f n], r OR f n)"
    using Suc.prems by (intro Suc.prems(1)) (simp_all add: nth_append)
  moreover have "?d[n := f n] = map f [0..<Suc n] @ drop (Suc n) d"
    using Suc.prems(2) by (simp add: list_update_append Cons_nth_drop_Suc [symmetric])
  moreover have "r OR f n \<noteq> 0 \<longleftrightarrow> (\<exists>k < Suc n. f k \<noteq> 0)"
    using r by (auto simp: less_Suc_eq or_eq_0_iff)
  ultimately show ?case by (simp add: fold_opt_append)
qed simp

section \<open>Word-wise results bit by bit\<close>

lemma bm_bit_words:
  assumes "n \<le> length d"
  shows "bm_bit (map f [0..<n] @ drop n d) i = (if i < 64 * n then bit (f (i div 64)) (i mod 64) else bm_bit d i)"
proof -
  have "i div 64 < n \<longleftrightarrow> i < 64 * n" by linarith
  then show ?thesis using assms by (auto simp: bm_bit_def nth_append)
qed

lemma backed_longs: "backed m bits \<Longrightarrow> BITS_TO_LONGS bits \<le> length m"
  using backed_last [of bits m] by (auto simp: BITS_TO_LONGS_eq)

lemma longs_le: "bits \<le> 64 * BITS_TO_LONGS bits"
  using mult_div_mod_eq [of 64 bits] mod_less_divisor [of 64 bits] by (auto simp: BITS_TO_LONGS_eq)

lemma rd_op_eq:
  assumes "k < length (op_words s d)" "k < length d'" "d' ! k = d ! k"
  shows "rd_op s d' k = Some (op_words s d ! k)"
  using assms by (cases s) (simp_all add: rd_in del: rd_eq_Some)

lemma word_of_bits: "k < length m \<Longrightarrow> j < 64 \<Longrightarrow> i div 64 = k \<Longrightarrow> i mod 64 = j \<Longrightarrow> bit (m ! k) j = bm_bit m i"
  by (auto simp: bm_bit_def)

lemma longs_index: "backed m bits \<Longrightarrow> k < BITS_TO_LONGS bits \<Longrightarrow> k < length m"
  using backed_longs [of bits m] by linarith

lemma bitmap_or_words:
  assumes "backed dst bits" "backed (op_words s1 dst) bits" "backed (op_words s2 dst) bits"
  shows "bitmap_or' dst s1 s2 bits =
    Some (map (\<lambda>k. op_words s1 dst ! k OR op_words s2 dst ! k) [0..<BITS_TO_LONGS bits] @ drop (BITS_TO_LONGS bits) dst)"
  unfolding bitmap_or'_def
  by (rule fold_words)
    (use assms longs_index [OF assms(1)] longs_index [OF assms(2)] longs_index [OF assms(3)] in \<open>simp_all add: rd_op_eq [where d = dst] wr_in backed_longs del: wr_eq_Some\<close>)

lemma bitmap_xor_words:
  assumes "backed dst bits" "backed (op_words s1 dst) bits" "backed (op_words s2 dst) bits"
  shows "bitmap_xor' dst s1 s2 bits =
    Some (map (\<lambda>k. op_words s1 dst ! k XOR op_words s2 dst ! k) [0..<BITS_TO_LONGS bits] @ drop (BITS_TO_LONGS bits) dst)"
  unfolding bitmap_xor'_def
  by (rule fold_words)
    (use assms longs_index [OF assms(1)] longs_index [OF assms(2)] longs_index [OF assms(3)] in \<open>simp_all add: rd_op_eq [where d = dst] wr_in backed_longs del: wr_eq_Some\<close>)

lemma bitmap_and_words:
  assumes "backed dst bits" "backed (op_words s1 dst) bits" "backed (op_words s2 dst) bits"
  shows "bitmap_and' dst s1 s2 bits =
    Some (map (\<lambda>k. op_words s1 dst ! k AND op_words s2 dst ! k) [0..<BITS_TO_LONGS bits] @ drop (BITS_TO_LONGS bits) dst,
          \<exists>k < BITS_TO_LONGS bits. op_words s1 dst ! k AND op_words s2 dst ! k \<noteq> 0)"
proof -
  let ?body = "\<lambda>k (d, result). do { a \<leftarrow> rd_op s1 d k; b \<leftarrow> rd_op s2 d k; d' \<leftarrow> wr d k (a AND b); Some (d', result OR (a AND b)) }"
  have "\<exists>r. fold_opt ?body [0..<BITS_TO_LONGS bits] (dst, 0) =
      Some (map (\<lambda>k. op_words s1 dst ! k AND op_words s2 dst ! k) [0..<BITS_TO_LONGS bits] @ drop (BITS_TO_LONGS bits) dst, r) \<and>
      (r \<noteq> 0 \<longleftrightarrow> (\<exists>k < BITS_TO_LONGS bits. op_words s1 dst ! k AND op_words s2 dst ! k \<noteq> 0))"
    by (rule fold_words_acc)
      (use assms longs_index [OF assms(1)] longs_index [OF assms(2)] longs_index [OF assms(3)] in \<open>simp_all add: rd_op_eq [where d = dst] wr_in backed_longs del: wr_eq_Some\<close>)
  then show ?thesis unfolding bitmap_and'_def by auto
qed

lemma bitmap_andnot_words:
  assumes "backed dst bits" "backed (op_words s1 dst) bits" "backed (op_words s2 dst) bits"
  shows "bitmap_andnot' dst s1 s2 bits =
    Some (map (\<lambda>k. op_words s1 dst ! k AND NOT (op_words s2 dst ! k)) [0..<BITS_TO_LONGS bits] @ drop (BITS_TO_LONGS bits) dst,
          \<exists>k < BITS_TO_LONGS bits. op_words s1 dst ! k AND NOT (op_words s2 dst ! k) \<noteq> 0)"
proof -
  let ?body = "\<lambda>k (d, result). do { a \<leftarrow> rd_op s1 d k; b \<leftarrow> rd_op s2 d k; d' \<leftarrow> wr d k (a AND NOT b); Some (d', result OR (a AND NOT b)) }"
  have "\<exists>r. fold_opt ?body [0..<BITS_TO_LONGS bits] (dst, 0) =
      Some (map (\<lambda>k. op_words s1 dst ! k AND NOT (op_words s2 dst ! k)) [0..<BITS_TO_LONGS bits] @ drop (BITS_TO_LONGS bits) dst, r) \<and>
      (r \<noteq> 0 \<longleftrightarrow> (\<exists>k < BITS_TO_LONGS bits. op_words s1 dst ! k AND NOT (op_words s2 dst ! k) \<noteq> 0))"
    by (rule fold_words_acc)
      (use assms longs_index [OF assms(1)] longs_index [OF assms(2)] longs_index [OF assms(3)] in \<open>simp_all add: rd_op_eq [where d = dst] wr_in backed_longs del: wr_eq_Some\<close>)
  then show ?thesis unfolding bitmap_andnot'_def by auto
qed

lemma bitmap_complement_words:
  assumes "backed dst bits" "backed (op_words s dst) bits"
  shows "bitmap_complement' dst s bits =
    Some (map (\<lambda>k. if k < bits div 64 then NOT (op_words s dst ! k) else NOT (op_words s dst ! k) AND BITMAP_LAST_WORD_MASK bits)
            [0..<BITS_TO_LONGS bits] @ drop (BITS_TO_LONGS bits) dst)"
proof -
  let ?n = "bits div 64"
  let ?d = "map (\<lambda>k. NOT (op_words s dst ! k)) [0..<?n] @ drop ?n dst"
  have len: "?n \<le> length dst" using assms by linarith
  have fold: "fold_opt (\<lambda>k d. do { s \<leftarrow> rd_op s d k; wr d k (NOT s) }) [0..<?n] dst = Some ?d"
  proof (rule fold_words)
    fix k d'
    assume "k < ?n" "length d' = length dst" "d' ! k = dst ! k"
    then show "do { s \<leftarrow> rd_op s d' k; wr d' k (NOT s) } = Some (d'[k := NOT (op_words s dst ! k)])"
      using backed_words [OF assms(1)] backed_words [OF assms(2)] by (simp add: rd_op_eq [where d = dst] wr_in del: wr_eq_Some)
  qed (rule len)
  show ?thesis
  proof (cases "bits mod 64 = 0")
    case True
    then show ?thesis using fold by (simp add: bitmap_complement'_def BITS_TO_LONGS_eq)
  next
    case False
    have "rd_op s ?d ?n = Some (op_words s dst ! ?n)"
      using backed_last [OF assms(1) False] backed_last [OF assms(2) False]
      by (intro rd_op_eq) (simp_all add: nth_append)
    then show ?thesis
      using fold False backed_last [OF assms(1) False]
      by (simp add: bitmap_complement'_def BITS_TO_LONGS_eq Let_def wr_in list_update_append Cons_nth_drop_Suc [symmetric] del: wr_eq_Some)
  qed
qed


text \<open>What the word-wise results mean bit by bit.\<close>

lemma words_bits:
  assumes "backed dst bits"
    and "\<And>i. i < 64 * BITS_TO_LONGS bits \<Longrightarrow> bit (f (i div 64)) (i mod 64) = P i"
  shows "length (map f [0..<BITS_TO_LONGS bits] @ drop (BITS_TO_LONGS bits) dst) = length dst"
    and "\<forall>i < bits. bm_bit (map f [0..<BITS_TO_LONGS bits] @ drop (BITS_TO_LONGS bits) dst) i = P i"
    and "\<forall>i \<ge> 64 * BITS_TO_LONGS bits. bm_bit (map f [0..<BITS_TO_LONGS bits] @ drop (BITS_TO_LONGS bits) dst) i = bm_bit dst i"
  using assms longs_le [of bits] backed_longs [OF assms(1)] by (simp_all add: bm_bit_words)

lemma word_index:
  assumes "backed m bits" "i < 64 * BITS_TO_LONGS bits"
  shows "bit (m ! (i div 64)) (i mod 64) = bm_bit m i"
proof -
  have "i div 64 < BITS_TO_LONGS bits" using assms(2) by linarith
  then show ?thesis using longs_index [OF assms(1)] by (simp add: bm_bit_def)
qed

lemma any_word_bits:
  assumes "\<And>i. i < 64 * n \<Longrightarrow> bit (f (i div 64)) (i mod 64) = P i"
  shows "(\<exists>k < n. f k \<noteq> (0 :: ulong)) \<longleftrightarrow> (\<exists>i < 64 * n. P i)"
proof -
  have "bit (f k) j = P (64 * k + j)" if "k < n" "j < 64" for k j
    using that assms [of "64 * k + j"] by simp
  then have "(\<exists>k < n. f k \<noteq> 0) \<longleftrightarrow> (\<exists>k < n. \<exists>j < 64. P (64 * k + j))"
    by (simp add: word_nonzero_iff cong: conj_cong)
  also have "\<dots> \<longleftrightarrow> (\<exists>i < 64 * n. P i)"
    using all_bits_split [of "64 * n" P] by simp
  finally show ?thesis .
qed


definition frame_bits :: "ulong list \<Rightarrow> ulong list \<Rightarrow> nat \<Rightarrow> (nat \<Rightarrow> bool) \<Rightarrow> bool" where
  "frame_bits old new bits P \<longleftrightarrow> length new = length old \<and> (\<forall>i < bits. bm_bit new i = P i) \<and>
     (\<forall>i \<ge> 64 * BITS_TO_LONGS bits. bm_bit new i = bm_bit old i)"

lemma frame_words:
  assumes "backed dst bits"
    and "\<And>i. i < 64 * BITS_TO_LONGS bits \<Longrightarrow> bit (f (i div 64)) (i mod 64) = P i"
  shows "frame_bits dst (map f [0..<BITS_TO_LONGS bits] @ drop (BITS_TO_LONGS bits) dst) bits P"
  unfolding frame_bits_def using words_bits [OF assms] by blast

lemma frame_words_any:
  assumes "backed dst bits"
    and "\<And>i. i < 64 * BITS_TO_LONGS bits \<Longrightarrow> bit (f (i div 64)) (i mod 64) = P i"
  shows "\<exists>d. Some (map f [0..<BITS_TO_LONGS bits] @ drop (BITS_TO_LONGS bits) dst, \<exists>k < BITS_TO_LONGS bits. f k \<noteq> 0) =
      Some (d, \<exists>i < 64 * BITS_TO_LONGS bits. P i) \<and> frame_bits dst d bits P"
  using frame_words [OF assms] any_word_bits [OF assms(2)] by simp

lemma bitmap_or_eq:
  assumes "backed dst bits" "backed (op_words s1 dst) bits" "backed (op_words s2 dst) bits"
  shows "\<exists>d. bitmap_or' dst s1 s2 bits = Some d \<and>
    frame_bits dst d bits (\<lambda>i. bm_bit (op_words s1 dst) i \<or> bm_bit (op_words s2 dst) i)"
  unfolding bitmap_or_words [OF assms]
  by (rule exI, rule conjI, rule refl, rule frame_words [OF assms(1)]) (simp add: bit_or_iff word_index [OF assms(2)] word_index [OF assms(3)])

lemma bitmap_xor_eq:
  assumes "backed dst bits" "backed (op_words s1 dst) bits" "backed (op_words s2 dst) bits"
  shows "\<exists>d. bitmap_xor' dst s1 s2 bits = Some d \<and>
    frame_bits dst d bits (\<lambda>i. bm_bit (op_words s1 dst) i \<noteq> bm_bit (op_words s2 dst) i)"
  unfolding bitmap_xor_words [OF assms]
  by (rule exI, rule conjI, rule refl, rule frame_words [OF assms(1)]) (simp add: bit_xor_iff word_index [OF assms(2)] word_index [OF assms(3)])

lemma bitmap_and_eq:
  assumes "backed dst bits" "backed (op_words s1 dst) bits" "backed (op_words s2 dst) bits"
  shows "\<exists>d. bitmap_and' dst s1 s2 bits =
      Some (d, \<exists>i < 64 * BITS_TO_LONGS bits. bm_bit (op_words s1 dst) i \<and> bm_bit (op_words s2 dst) i) \<and>
    frame_bits dst d bits (\<lambda>i. bm_bit (op_words s1 dst) i \<and> bm_bit (op_words s2 dst) i)"
  unfolding bitmap_and_words [OF assms]
  by (rule frame_words_any [OF assms(1)]) (simp add: bit_and_iff word_index [OF assms(2)] word_index [OF assms(3)])

lemma bitmap_andnot_eq:
  assumes "backed dst bits" "backed (op_words s1 dst) bits" "backed (op_words s2 dst) bits"
  shows "\<exists>d. bitmap_andnot' dst s1 s2 bits =
      Some (d, \<exists>i < 64 * BITS_TO_LONGS bits. bm_bit (op_words s1 dst) i \<and> \<not> bm_bit (op_words s2 dst) i) \<and>
    frame_bits dst d bits (\<lambda>i. bm_bit (op_words s1 dst) i \<and> \<not> bm_bit (op_words s2 dst) i)"
  unfolding bitmap_andnot_words [OF assms]
  by (rule frame_words_any [OF assms(1)]) (simp add: bit_and_iff bit_not_iff word_index [OF assms(2)] word_index [OF assms(3)])

lemma bitmap_complement_eq:
  assumes "backed dst bits" "backed (op_words s dst) bits"
  shows "\<exists>d. bitmap_complement' dst s bits = Some d \<and>
    frame_bits dst d bits (\<lambda>i. \<not> bm_bit (op_words s dst) i) \<and>
    (\<forall>i \<ge> bits. i < 64 * BITS_TO_LONGS bits \<longrightarrow> \<not> bm_bit d i)"
proof -
  let ?P = "\<lambda>i. i < bits \<and> \<not> bm_bit (op_words s dst) i"
  let ?f = "\<lambda>k. if k < bits div 64 then NOT (op_words s dst ! k) else NOT (op_words s dst ! k) AND BITMAP_LAST_WORD_MASK bits"
  have bit: "bit (?f (i div 64)) (i mod 64) = ?P i" if "i < 64 * BITS_TO_LONGS bits" for i
  proof (cases "i div 64 < bits div 64")
    case True
    then have "i < bits" by (metis div_le_mono not_le)
    with True show ?thesis using word_index [OF assms(2) that] by (simp add: bit_not_iff)
  next
    case False
    have ne: "bits mod 64 \<noteq> 0" "i div 64 = bits div 64"
      using that False by (auto simp: BITS_TO_LONGS_eq split: if_splits)
    then have "i < bits \<longleftrightarrow> i mod 64 < bits mod 64"
      using mult_div_mod_eq [of 64 i] mult_div_mod_eq [of 64 bits] by linarith
    then show ?thesis using word_index [OF assms(2) that] False ne
      by (auto simp: bit_simps)
  qed
  let ?d = "map ?f [0..<BITS_TO_LONGS bits] @ drop (BITS_TO_LONGS bits) dst"
  have fr: "frame_bits dst ?d bits ?P" by (rule frame_words [OF assms(1) bit])
  moreover have "\<not> bm_bit ?d i" if "bits \<le> i" "i < 64 * BITS_TO_LONGS bits" for i
    using that bit [OF that(2)] backed_longs [OF assms(1)] by (simp add: bm_bit_words)
  ultimately show ?thesis
    unfolding bitmap_complement_words [OF assms] by (auto simp: frame_bits_def)
qed

section \<open>Ranges\<close>

text \<open>The state of the range loops: \<open>bts\<close> bits are left in word \<open>p\<close>, so the next bit is \<open>range_pos p bts\<close>.\<close>

abbreviation range_pos :: "nat \<Rightarrow> nat \<Rightarrow> nat" where
  "range_pos p bts \<equiv> 64 * p + (64 - bts)"

lemma or_mask_update:
  assumes "p < length b" "\<And>j. bit m j \<longleftrightarrow> j < 64 \<and> lo \<le> j \<and> j < hi" "hi \<le> 64"
  shows "bm_bit (b[p := b ! p OR m]) i = (bm_bit b i \<or> 64 * p + lo \<le> i \<and> i < 64 * p + hi)"
proof (cases "i div 64 = p")
  case True
  then have i: "i = 64 * p + i mod 64" "i mod 64 < 64" by auto
  then have "(64 * p + lo \<le> i \<and> i < 64 * p + hi) \<longleftrightarrow> lo \<le> i mod 64 \<and> i mod 64 < hi" by linarith
  then show ?thesis using True i assms by (auto simp: bm_bit_update bit_or_iff bm_bit_def)
next
  case False
  then have "\<not> (64 * p + lo \<le> i \<and> i < 64 * p + hi)" using assms(3) by (auto simp: div_nat_eqI)
  then show ?thesis using False assms(1) by (simp only: bm_bit_update if_False) blast
qed

lemma bitmap_set_loop_spec:
  assumes "0 < bts" "bts \<le> 64" "\<And>j. bit m j \<longleftrightarrow> j < 64 \<and> 64 - bts \<le> j"
    and "backed b (range_pos p bts + nr)"
  shows "\<exists>b' p' nr' m' bts'. bitmap_set_loop b p nr bts m = Some (b', p', nr', m') \<and> length b' = length b \<and>
    nr' < bts' \<and> bts' \<le> 64 \<and> (\<forall>j. bit m' j \<longleftrightarrow> j < 64 \<and> 64 - bts' \<le> j) \<and>
    range_pos p' bts' + nr' = range_pos p bts + nr \<and> range_pos p bts \<le> range_pos p' bts' \<and>
    (\<forall>i. bm_bit b' i = (bm_bit b i \<or> range_pos p bts \<le> i \<and> i < range_pos p' bts'))"
  using assms
proof (induction b p nr bts m rule: bitmap_set_loop.induct)
  case (1 b p nr bts m)
  show ?case
  proof (cases "bts \<le> nr")
    case False
    then have "bitmap_set_loop b p nr bts m = Some (b, p, nr, m)"
      by (simp add: bitmap_set_loop.simps [of b p nr bts m])
    moreover have "\<forall>i. bm_bit b i = (bm_bit b i \<or> range_pos p bts \<le> i \<and> i < range_pos p bts)" by auto
    moreover have "nr < bts" using False by simp
    ultimately show ?thesis using "1.prems"(2,3) by blast
  next
    case True
    let ?b = "b[p := b ! p OR m]"
    have p: "p < length b" using 1 True by linarith
    have ones: "\<And>j. bit (-1 :: ulong) j \<longleftrightarrow> j < 64 \<and> 64 - 64 \<le> j" by simp
    have step: "bitmap_set_loop b p nr bts m = bitmap_set_loop ?b (p + 1) (nr - bts) 64 (-1)"
      using True p by (simp add: bitmap_set_loop.simps [of b p nr bts m] rd_in wr_in del: rd_eq_Some wr_eq_Some)
    have upd: "bm_bit ?b i = (bm_bit b i \<or> range_pos p bts \<le> i \<and> i < 64 * p + 64)" for i
      by (rule or_mask_update [OF p]) (use 1 in auto)
    have pos: "range_pos (p + 1) 64 = range_pos p bts + bts" "range_pos (p+1) 64 = 64 * p + 64" using 1 by auto
    have "backed ?b (range_pos (p + 1) 64 + (nr - bts))" using 1 True by auto
    from "1.IH" [OF True rd_in [OF p] wr_in [OF p] _ _ ones this]
    obtain b' p' nr' m' bts' where
      *: "bitmap_set_loop ?b (p + 1) (nr - bts) 64 (-1) = Some (b', p', nr', m')" "length b' = length ?b"
        "nr' < bts'" "bts' \<le> 64" "\<forall>j. bit m' j \<longleftrightarrow> j < 64 \<and> 64 - bts' \<le> j"
        "range_pos p' bts' + nr' = range_pos (p + 1) 64 + (nr - bts)" "range_pos (p + 1) 64 \<le> range_pos p' bts'"
        "\<forall>i. bm_bit b' i = (bm_bit ?b i \<or> range_pos (p + 1) 64 \<le> i \<and> i < range_pos p' bts')"
      by fastforce
    have "bm_bit b' i = (bm_bit b i \<or> range_pos p bts \<le> i \<and> i < range_pos p' bts')" for i
    proof -
      define e where "e = range_pos p' bts'"
      define s where "s = range_pos p bts"
      have le: "s \<le> 64 * p + 64" "64 * p + 64 \<le> e"
        using pos *(7) 1 by (simp_all add: e_def s_def)
      have "bm_bit b' i = (bm_bit ?b i \<or> 64 * p + 64 \<le> i \<and> i < e)"
        using *(8) pos(2) by (simp add: e_def add.commute)
      also have "\<dots> = (bm_bit b i \<or> s \<le> i \<and> i < 64 * p + 64 \<or> 64 * p + 64 \<le> i \<and> i < e)"
        using upd [of i] by (simp add: s_def)
      also have "\<dots> = (bm_bit b i \<or> s \<le> i \<and> i < e)"
        using le by (meson le_trans not_le order_less_le_trans)
      finally show ?thesis by (simp add: e_def s_def)
    qed
    moreover have "range_pos p' bts' + nr' = range_pos p bts + nr" "range_pos p bts \<le> range_pos p' bts'"
      using *(6,7) pos True by linarith+
    moreover have "length b' = length b" using *(2) by simp
    ultimately show ?thesis unfolding step using *(1,3,4,5) by blast
  qed
qed

lemma bitmap_set_eq:
  assumes "backed b (start + nr)"
  shows "\<exists>b'. bitmap_set b start nr = Some b' \<and> length b' = length b \<and>
    (\<forall>i. bm_bit b' i = (bm_bit b i \<or> start \<le> i \<and> i < start + nr))"
proof -
  have pos: "range_pos (BIT_WORD start) (64 - start mod 64) = start"
    using mod_less_divisor [of 64 start] by (simp add: BIT_WORD_def)
  have m64: "start mod 64 < 64" by simp
  have mask: "bit (BITMAP_FIRST_WORD_MASK start) j \<longleftrightarrow> j < 64 \<and> 64 - (64 - start mod 64) \<le> j" for j
    using m64 by (auto simp: bit_simps)
  have pre: "backed b (range_pos (BIT_WORD start) (64 - start mod 64) + nr)"
    using assms by (simp only: pos)
  have "0 < 64 - start mod 64" using m64 by linarith
  note L = bitmap_set_loop_spec [OF this _ mask pre]
  obtain b' p nr' m bts where
    *: "bitmap_set_loop b (BIT_WORD start) nr (64 - start mod 64) (BITMAP_FIRST_WORD_MASK start) = Some (b', p, nr', m)"
      "length b' = length b" "nr' < bts" "bts \<le> 64" "\<And>j. bit m j \<longleftrightarrow> j < 64 \<and> 64 - bts \<le> j"
      "range_pos p bts + nr' = start + nr" "start \<le> range_pos p bts"
      "\<And>i. bm_bit b' i = (bm_bit b i \<or> start \<le> i \<and> i < range_pos p bts)"
    using L unfolding pos by auto
  show ?thesis
  proof (cases "nr' = 0")
    case True
    then show ?thesis using * by (simp add: bitmap_set_def)
  next
    case False
    let ?hi = "64 - bts + nr'"
    have p: "p < length b'" using assms * False by linarith
    have hi: "(start + nr) mod 64 = ?hi"
    proof -
      have "start + nr = 64 * p + ?hi" "?hi < 64" using *(3,4,6) by linarith+
      then show ?thesis by simp
    qed
    have "bit (m AND BITMAP_LAST_WORD_MASK (start + nr)) j \<longleftrightarrow> j < 64 \<and> 64 - bts \<le> j \<and> j < ?hi" for j
      using hi False *(3,4) by (auto simp: bit_simps *(5))
    from or_mask_update [OF p this]
    have "bm_bit (b'[p := b' ! p OR (m AND BITMAP_LAST_WORD_MASK (start + nr))]) i =
        (bm_bit b i \<or> start \<le> i \<and> i < start + nr)" for i
      using *(3,4,6,7) *(8) [of i] by auto
    then show ?thesis using * False p
      by (simp add: bitmap_set_def rd_in wr_in del: rd_eq_Some wr_eq_Some)
  qed
qed

text \<open>Clearing a range is setting it in the complement.\<close>

lemma map_NOT_update: "map NOT (xs[i := w]) = (map NOT xs)[i := NOT (w :: ulong)]"
  by (simp add: map_update)

lemma bitmap_clear_loop_complement:
  "bitmap_clear_loop b p nr bts m =
    map_option (\<lambda>(b', r). (map NOT b', r)) (bitmap_set_loop (map NOT b) p nr bts m)"
proof (induction b p nr bts m rule: bitmap_clear_loop.induct)
  case (1 b p nr bts m)
  show ?case
  proof (cases "bts \<le> nr \<and> p < length b")
    case True
    then have "map NOT (b[p := b ! p AND NOT m]) = (map NOT b)[p := NOT (b ! p) OR m]"
      by (simp add: map_update)
    then show ?thesis using True 1
      by (simp add: bitmap_clear_loop.simps [of b p nr bts m] bitmap_set_loop.simps [of "map NOT b" p nr bts m]
          rd_in wr_in del: rd_eq_Some wr_eq_Some)
  next
    case False
    then show ?thesis
      by (auto simp: bitmap_clear_loop.simps [of b p nr bts m] bitmap_set_loop.simps [of "map NOT b" p nr bts m]
          rd_def wr_def o_def split: option.splits)
  qed
qed

lemma bitmap_clear_complement:
  "bitmap_clear b start nr = map_option (map NOT) (bitmap_set (map NOT b) start nr)"
proof (cases "bitmap_set_loop (map NOT b) (BIT_WORD start) nr (64 - start mod 64) (BITMAP_FIRST_WORD_MASK start)")
  case (Some r)
  obtain b' p nr' m where r: "r = (b', p, nr', m)" by (cases r)
  then show ?thesis
    using Some by (cases "p < length b'")
      (simp_all add: bitmap_clear_def bitmap_set_def Let_def bitmap_clear_loop_complement rd_def wr_def map_update o_def)
qed (simp add: bitmap_clear_def bitmap_set_def Let_def bitmap_clear_loop_complement)

lemma bitmap_clear_eq:
  assumes "backed b (start + nr)"
  shows "\<exists>b'. bitmap_clear b start nr = Some b' \<and> length b' = length b \<and>
    (\<forall>i. bm_bit b' i = (bm_bit b i \<and> \<not> (start \<le> i \<and> i < start + nr)))"
proof -
  have "backed (map NOT b) (start + nr)" using assms by simp
  from bitmap_set_eq [OF this] obtain b' where
    *: "bitmap_set (map NOT b) start nr = Some b'" "length b' = length b"
      "\<And>i. bm_bit b' i = (bm_bit (map NOT b) i \<or> start \<le> i \<and> i < start + nr)" by auto
  have "bm_bit (map NOT b') i = (bm_bit b i \<and> \<not> (start \<le> i \<and> i < start + nr))" for i
  proof (cases "i < 64 * length b")
    case True
    then show ?thesis using * by (simp add: bm_bit_complement)
  next
    case False
    then show ?thesis using *(2) bm_bit_bound [of b i] bm_bit_bound [of "map NOT b'" i] by auto
  qed
  then show ?thesis using * by (simp add: bitmap_clear_complement)
qed

end
