(* ===== verification/Cpuset.thy ===== *)
theory Cpuset
  imports Bitmap_Core
begin

text \<open>
  CPU sets: \<^verbatim>\<open>cpu_set_t\<close> of the C library (1024 bits in 16 words) with the macros the program
  uses, and \<^verbatim>\<open>cpuset_first\<close>, \<^verbatim>\<open>cpuset_next\<close>, \<^verbatim>\<open>for_each_cpu\<close> of \<^verbatim>\<open>mpipin.c\<close> (lines 56 to 92).
  \<open>for_each_cpu\<close> is a partial function: the C loop ends when the next bit is at least
  \<^verbatim>\<open>get_nprocs_conf()\<close>, and it does not end on a machine with more than 1024 configured CPUs,
  which is the value \<open>None\<close>.
  The lemmas relate every operation to the set \<open>cpus_of\<close> of the CPUs in it.
\<close>

section \<open>The macros of the C library\<close>

type_synonym cpu_set = "ulong list"

definition CPU_SETSIZE :: nat where
  "CPU_SETSIZE = 1024"

definition CPU_ZERO :: cpu_set where
  "CPU_ZERO = replicate 16 0"

definition CPU_SET :: "nat \<Rightarrow> cpu_set \<Rightarrow> cpu_set" where
  "CPU_SET cpu cpus = (if cpu div 8 < 128 then cpus[cpu div 64 := cpus ! (cpu div 64) OR push_bit (cpu mod 64) 1] else cpus)"

definition CPU_CLR :: "nat \<Rightarrow> cpu_set \<Rightarrow> cpu_set" where
  "CPU_CLR cpu cpus = (if cpu div 8 < 128 then cpus[cpu div 64 := cpus ! (cpu div 64) AND NOT (push_bit (cpu mod 64) 1)] else cpus)"

definition CPU_ISSET :: "nat \<Rightarrow> cpu_set \<Rightarrow> bool" where
  "CPU_ISSET cpu cpus = (if cpu div 8 < 128 then cpus ! (cpu div 64) AND push_bit (cpu mod 64) 1 \<noteq> 0 else False)"

definition CPU_COUNT :: "cpu_set \<Rightarrow> nat" where
  "CPU_COUNT cpus = length (filter (\<lambda>cpu. CPU_ISSET cpu cpus) [0..<CPU_SETSIZE])"

section \<open>Iteration\<close>

definition cpuset_first :: "cpu_set \<Rightarrow> nat option" where
  "cpuset_first srcp = find_first_bit srcp 1024"

definition cpuset_next :: "int \<Rightarrow> cpu_set \<Rightarrow> nat option" where
  "cpuset_next n srcp = find_next_bit srcp 1024 (nat (n + 1))"

text \<open>The loop body gives the next state, or leaves the loop with a result (a \<^verbatim>\<open>goto\<close> in C).\<close>

partial_function (option) for_each_cpu ::
  "nat \<Rightarrow> cpu_set \<Rightarrow> (nat \<Rightarrow> 's \<Rightarrow> 's + 'r) \<Rightarrow> int \<Rightarrow> 's \<Rightarrow> ('s + 'r) option" where
  "for_each_cpu nprocs_conf cpus body cpu s = do {
     cpu \<leftarrow> cpuset_next cpu cpus;
     if cpu < nprocs_conf then
       (case body cpu s of
          Inr r \<Rightarrow> Some (Inr r)
        | Inl s' \<Rightarrow> for_each_cpu nprocs_conf cpus body (int cpu) s')
     else Some (Inl s) }"

section \<open>The set of CPUs\<close>

definition wf_cpus :: "cpu_set \<Rightarrow> bool" where
  "wf_cpus s \<longleftrightarrow> length s = 16"

definition cpus_of :: "cpu_set \<Rightarrow> nat set" where
  "cpus_of s = bm_set s 1024"

lemma in_cpus_of: "wf_cpus s \<Longrightarrow> i \<in> cpus_of s \<longleftrightarrow> bm_bit s i"
  using bm_bit_bound [of s i] by (auto simp: cpus_of_def wf_cpus_def)

lemma cpus_of_lt: "i \<in> cpus_of s \<Longrightarrow> i < 1024"
  by (simp add: cpus_of_def)

lemma finite_cpus_of [simp, intro]: "finite (cpus_of s)"
  by (simp add: cpus_of_def)

lemma wf_CPU_ZERO [simp, intro]: "wf_cpus CPU_ZERO"
  by (simp add: wf_cpus_def CPU_ZERO_def)

lemma wf_CPU_SET [simp]: "wf_cpus (CPU_SET c s) = wf_cpus s"
  by (simp add: wf_cpus_def CPU_SET_def)

lemma wf_CPU_CLR [simp]: "wf_cpus (CPU_CLR c s) = wf_cpus s"
  by (simp add: wf_cpus_def CPU_CLR_def)

lemma cpus_of_ZERO [simp]: "cpus_of CPU_ZERO = {}"
  by (auto simp: cpus_of_def CPU_ZERO_def bm_set_def bm_bit_def nth_replicate)

lemma cpu_in_range: "cpu div 8 < 128 \<longleftrightarrow> cpu < (1024::nat)"
  by linarith

lemma bit_one_shift: "bit (push_bit (c mod 64) (1 :: ulong)) j \<longleftrightarrow> j = c mod 64"
  by (auto simp: bit_simps)

lemma div_mod_64_eq: "(i::nat) div 64 = c div 64 \<Longrightarrow> i mod 64 = c mod 64 \<longleftrightarrow> i = c"
  by (metis div_mult_mod_eq)

lemma cpus_of_SET:
  assumes "wf_cpus s"
  shows "cpus_of (CPU_SET c s) = (if c < 1024 then insert c (cpus_of s) else cpus_of s)"
proof (cases "c < 1024")
  case True
  then have c: "c div 64 < length s" using assms by (simp add: wf_cpus_def)
  have "bm_bit (CPU_SET c s) i \<longleftrightarrow> i = c \<or> bm_bit s i" for i
  proof -
    have "bm_bit (CPU_SET c s) i = (if i div 64 = c div 64 then bit (s ! (c div 64)) (i mod 64) \<or> i mod 64 = c mod 64 else bm_bit s i)"
      using True c by (simp add: CPU_SET_def cpu_in_range bm_bit_update bit_or_iff bit_one_shift del: push_bit_of_1)
    moreover have "i div 64 = c div 64 \<Longrightarrow> bm_bit s i = bit (s ! (c div 64)) (i mod 64)"
      using c by (simp add: bm_bit_def)
    ultimately show ?thesis using div_mod_64_eq [of i c] by (cases "i div 64 = c div 64") auto
  qed
  then show ?thesis using True by (auto simp: cpus_of_def)
qed (simp add: CPU_SET_def cpu_in_range)

lemma cpus_of_CLR:
  assumes "wf_cpus s"
  shows "cpus_of (CPU_CLR c s) = cpus_of s - {c}"
proof (cases "c < 1024")
  case True
  then have c: "c div 64 < length s" using assms by (simp add: wf_cpus_def)
  have "bm_bit (CPU_CLR c s) i \<longleftrightarrow> i \<noteq> c \<and> bm_bit s i" for i
  proof -
    have "bm_bit (CPU_CLR c s) i = (if i div 64 = c div 64 then bit (s ! (c div 64)) (i mod 64) \<and> i mod 64 \<noteq> c mod 64 else bm_bit s i)"
      using True c by (simp add: CPU_CLR_def cpu_in_range bm_bit_update bit_and_iff bit_not_iff bit_one_shift del: push_bit_of_1)
    moreover have "i div 64 = c div 64 \<Longrightarrow> bm_bit s i = bit (s ! (c div 64)) (i mod 64)"
      using c by (simp add: bm_bit_def)
    ultimately show ?thesis using div_mod_64_eq [of i c] by (cases "i div 64 = c div 64") auto
  qed
  then show ?thesis by (simp add: cpus_of_def bm_set_def set_eq_iff) blast
next
  case False
  then show ?thesis using cpus_of_lt [of c s] by (simp add: CPU_CLR_def cpu_in_range) blast
qed

lemma CPU_ISSET_iff: "wf_cpus s \<Longrightarrow> CPU_ISSET c s \<longleftrightarrow> c \<in> cpus_of s"
proof -
  assume "wf_cpus s"
  moreover have "w AND push_bit (c mod 64) 1 \<noteq> 0 \<longleftrightarrow> bit w (c mod 64)" for w :: ulong
    by (auto simp: word_nonzero_iff bit_and_iff bit_one_shift simp del: push_bit_of_1)
  ultimately show ?thesis
    by (auto simp: CPU_ISSET_def cpu_in_range cpus_of_def bm_bit_def wf_cpus_def)
qed

lemma CPU_COUNT_eq: "wf_cpus s \<Longrightarrow> CPU_COUNT s = card (cpus_of s)"
proof -
  assume wf: "wf_cpus s"
  have "CPU_COUNT s = card (set (filter (\<lambda>cpu. CPU_ISSET cpu s) [0..<CPU_SETSIZE]))"
    unfolding CPU_COUNT_def by (rule distinct_card [symmetric]) simp
  also have "set (filter (\<lambda>cpu. CPU_ISSET cpu s) [0..<CPU_SETSIZE]) = cpus_of s"
    using wf by (auto simp: CPU_ISSET_iff CPU_SETSIZE_def dest: cpus_of_lt)
  finally show ?thesis .
qed

lemma cpuset_first_eq:
  assumes "wf_cpus s"
  shows "cpuset_first s = Some (if cpus_of s = {} then 1024 else Min (cpus_of s))"
proof -
  let ?n = "next_from (bm_bit s) 1024 0"
  have "cpuset_first s = Some ?n"
    unfolding cpuset_first_def by (rule find_first_bit_eq) (use assms in \<open>simp add: wf_cpus_def\<close>)
  moreover have "?n = (if cpus_of s = {} then 1024 else Min (cpus_of s))"
  proof (rule next_from_eqI)
    show "\<not> bm_bit s j" if "0 \<le> j" "j < (if cpus_of s = {} then 1024 else Min (cpus_of s))" for j
      using that assms Min_le [OF finite_cpus_of, of j s] cpus_of_lt [of j s] by (auto simp: in_cpus_of split: if_splits)
    show "(if cpus_of s = {} then 1024 else Min (cpus_of s)) \<le> 1024"
      using Min_in [of "cpus_of s"] cpus_of_lt [of "Min (cpus_of s)" s] by (cases "cpus_of s = {}") auto
    show "bm_bit s (if cpus_of s = {} then 1024 else Min (cpus_of s))"
      if "(if cpus_of s = {} then 1024 else Min (cpus_of s)) < 1024"
      using that assms Min_in [of "cpus_of s"] by (auto simp: in_cpus_of split: if_splits)
  qed simp
  ultimately show ?thesis by simp
qed

section \<open>What the iteration visits\<close>

fun fold_until :: "(nat \<Rightarrow> 's \<Rightarrow> 's + 'r) \<Rightarrow> nat list \<Rightarrow> 's \<Rightarrow> 's + 'r" where
  "fold_until body [] s = Inl s"
| "fold_until body (x # xs) s = (case body x s of Inr r \<Rightarrow> Inr r | Inl s' \<Rightarrow> fold_until body xs s')"

lemma cpuset_next_eq:
  "wf_cpus s \<Longrightarrow> cpuset_next n s = Some (next_from (bm_bit s) 1024 (nat (n + 1)))"
  unfolding cpuset_next_def by (rule find_next_bit_eq) (simp add: wf_cpus_def)

lemma next_from_below:
  assumes "n \<le> m" "next_from P m i < n"
  shows "next_from P n i = next_from P m i"
proof (rule next_from_eqI)
  show "i \<le> next_from P m i"
    using assms by (metis next_from_ge next_from_lower nle_le order_less_imp_le leD)
  show "next_from P m i \<le> n" using assms(2) by simp
  show "P (next_from P m i)" using assms by (intro next_from_holds [of P m i]) linarith
qed (rule next_from_skips)

lemma filter_upt_none:
  assumes "n \<le> m" "n \<le> next_from P m i"
  shows "filter P [i..<n] = []"
  using assms next_from_skips [of i _ P m] by (auto simp: filter_empty_conv)

lemma for_each_cpu_from_eq:
  assumes "wf_cpus cs" "nprocs \<le> 1024"
  shows "for_each_cpu nprocs cs body (int i - 1) s = Some (fold_until body (filter (bm_bit cs) [i..<nprocs]) s)"
proof (induction "1024 - i" arbitrary: i s rule: less_induct)
  case less
  let ?c = "next_from (bm_bit cs) 1024 i"
  have next_cpu: "cpuset_next (int i - 1) cs = Some ?c"
    using cpuset_next_eq [OF assms(1), of "int i - 1"] by simp
  show ?case
  proof (cases "?c < nprocs")
    case True
    then have c: "next_from (bm_bit cs) nprocs i = ?c" using assms(2) by (rule next_from_below [rotated])
    have "i \<le> ?c" using True assms(2) by (metis c next_from_ge next_from_lower nle_le order_less_irrefl)
    then have "1024 - Suc ?c < 1024 - i" using True assms(2) by linarith
    from less [OF this] have "for_each_cpu nprocs cs body (int ?c) s' =
        Some (fold_until body (filter (bm_bit cs) [Suc ?c..<nprocs]) s')" for s' by simp
    then show ?thesis
      using True c filter_upt_next_from [of "bm_bit cs" i nprocs]
      by (subst for_each_cpu.simps) (simp add: next_cpu split: sum.split)
  next
    case False
    then have "filter (bm_bit cs) [i..<nprocs] = []" using assms(2) by (intro filter_upt_none [of _ 1024]) auto
    then show ?thesis using False by (subst for_each_cpu.simps) (simp add: next_cpu)
  qed
qed

lemma for_each_cpu_eq:
  "wf_cpus cs \<Longrightarrow> nprocs \<le> 1024 \<Longrightarrow>
   for_each_cpu nprocs cs body (-1) s = Some (fold_until body (filter (bm_bit cs) [0..<nprocs]) s)"
  using for_each_cpu_from_eq [of cs nprocs body 0 s] by simp

lemma for_each_cpu_diverges:
  assumes "wf_cpus cs" "1024 < nprocs" "\<And>c s. \<exists>s'. body c s = Inl s'"
  shows "for_each_cpu nprocs cs body cpu s = None"
proof -
  have "\<not> (n = nprocs \<and> st = cs \<and> b = body)" if "for_each_cpu n st b cpu s = Some y" for n st b cpu s y
  proof (rule for_each_cpu.raw_induct [where P = "\<lambda>n st b cpu s y. \<not> (n = nprocs \<and> st = cs \<and> b = body)", rotated, OF that], goal_cases)
    case (1 rec n st b cpu s y)
    show ?case
    proof
      assume eq: "n = nprocs \<and> st = cs \<and> b = body"
      obtain s' where "body (next_from (bm_bit cs) 1024 (nat (cpu + 1))) s = Inl s'" using assms(3) by blast
      moreover have "next_from (bm_bit cs) 1024 (nat (cpu + 1)) < nprocs"
        using next_from_le [of "bm_bit cs" 1024 "nat (cpu + 1)"] assms(2) by linarith
      ultimately have "rec n st b (int (next_from (bm_bit cs) 1024 (nat (cpu + 1)))) s' = Some y"
        using 1(2) eq cpuset_next_eq [OF assms(1)] by simp
      then show False using 1(1) eq by blast
    qed
  qed
  then show ?thesis by (cases "for_each_cpu nprocs cs body cpu s") blast+
qed

section \<open>The interface of the CPU sets\<close>

locale cpu_sets =
  fixes wf :: "'s \<Rightarrow> bool" and elems :: "'s \<Rightarrow> nat set" and bound :: nat
    and ins del :: "nat \<Rightarrow> 's \<Rightarrow> 's" and least :: "'s \<Rightarrow> nat option"
  assumes wf_ins: "wf s \<Longrightarrow> wf (ins c s)"
    and wf_del: "wf s \<Longrightarrow> wf (del c s)"
    and elems_ins: "wf s \<Longrightarrow> elems (ins c s) = (if c < bound then insert c (elems s) else elems s)"
    and elems_del: "wf s \<Longrightarrow> elems (del c s) = elems s - {c}"
    and elems_below: "c \<in> elems s \<Longrightarrow> c < bound"
    and least_eq: "wf s \<Longrightarrow> least s = Some (if elems s = {} then bound else Min (elems s))"
begin

lemma elems_finite: "finite (elems s)"
  by (rule finite_subset [of _ "{..<bound}"]) (auto dest: elems_below)

lemma least_sound: "wf s \<Longrightarrow> \<exists>c. least s = Some c \<and> (c \<in> elems s \<or> elems s = {} \<and> c = bound)"
  using least_eq [of s] elems_finite [of s] by auto

text \<open>Moving one CPU keeps the union and the disjointness.\<close>

lemma move:
  assumes "wf a" "wf u" "c \<in> elems a \<or> elems a = {} \<and> bound \<le> c" "elems a \<inter> elems u = {}"
  shows "elems (del c a) \<union> elems (ins c u) = elems a \<union> elems u"
    and "elems (del c a) \<inter> elems (ins c u) = {}"
    and "card (elems (ins c u)) = card (elems u) + (if elems a = {} then 0 else 1)"
    and "card (elems (del c a)) = card (elems a) - 1"
  using assms elems_finite [of u] elems_below [of c a]
  by (auto simp: elems_ins elems_del card_insert_if)

end

interpretation cs: cpu_sets wf_cpus cpus_of 1024 CPU_SET CPU_CLR cpuset_first
  by unfold_locales (auto simp: cpus_of_SET cpus_of_CLR cpus_of_lt cpuset_first_eq)

end
