(* ===== verification/Topology.thy ===== *)
theory Topology
  imports Cpuset
begin

text \<open>
  The topology objects of \<^verbatim>\<open>mpipin.c\<close> (lines 187 to 226) and the searches over them.
  The intrusive lists \<^verbatim>\<open>cpu_topology_list\<close> and \<^verbatim>\<open>cache_topology_list\<close> are HOL lists in list
  order (objects are added with \<^verbatim>\<open>list_add_tail\<close> and visited with \<^verbatim>\<open>list_for_each_entry\<close>); the
  structures in memory are the subject of theory \<open>Topology_Memory\<close>.
  \<^verbatim>\<open>long\<close> fields are integers.
\<close>

record cache_topology =
  cache_index :: int
  cache_padding :: int
  level :: int
  cache_type :: string
  cache_size :: int
  size_str :: string
  coherency_line_size :: int
  number_of_sets :: int
  physical_line_partition :: int
  ways_of_associativity :: int
  shared_cpu_map :: cpu_set

record cpu_topology =
  cpu_id :: nat
  node_id :: int
  hw_id :: int
  physical_package_id :: int
  core_id :: int
  core_siblings :: cpu_set
  thread_siblings :: cpu_set
  cache_topology_list :: "cache_topology list"

record node_topology =
  node_number :: int
  node_padding :: int
  cpumap :: cpu_set

definition find_cpu_top :: "cpu_topology list \<Rightarrow> nat \<Rightarrow> cpu_topology option" where
  "find_cpu_top cpu_topology_list cpu = List.find (\<lambda>cpu_top_i. cpu_id cpu_top_i = cpu) cpu_topology_list"

lemma find_cpu_top_SomeD: "find_cpu_top tops c = Some t \<Longrightarrow> t \<in> set tops \<and> cpu_id t = c"
  by (auto simp: find_cpu_top_def find_Some_iff)

lemma find_cpu_top_None: "find_cpu_top tops c = None \<longleftrightarrow> (\<forall>t \<in> set tops. cpu_id t \<noteq> c)"
  by (auto simp: find_cpu_top_def find_None_iff)

text \<open>Every CPU of a set has a topology object.\<close>

definition covers :: "cpu_topology list \<Rightarrow> nat set \<Rightarrow> bool" where
  "covers tops cpus \<longleftrightarrow> (\<forall>c \<in> cpus. \<exists>t \<in> set tops. cpu_id t = c)"

lemma covers_find: "covers tops cpus \<Longrightarrow> c \<in> cpus \<Longrightarrow> \<exists>t. find_cpu_top tops c = Some t"
  using find_cpu_top_None [of tops c] by (auto simp: covers_def)

lemma covers_mono: "covers tops cpus \<Longrightarrow> cpus' \<subseteq> cpus \<Longrightarrow> covers tops cpus'"
  by (auto simp: covers_def)

text \<open>The CPU maps of all objects are real CPU sets.\<close>

definition wf_topology :: "cpu_topology list \<Rightarrow> bool" where
  "wf_topology tops \<longleftrightarrow>
     (\<forall>t \<in> set tops. \<forall>c \<in> set (cache_topology_list t). wf_cpus (shared_cpu_map c))"

end
