(* ===== verification/Partition.thy ===== *)
theory Partition
  imports Topology
begin

text \<open>
  The partitioning done by the first process of a partitioned execution: the inner loops of
  \<^verbatim>\<open>pin_process()\<close>, \<^verbatim>\<open>mpipin.c\<close> lines 947 to 1075.
  \<open>choose_cpu\<close> is one round of the assignment loop (same cache, same NUMA node, first unused),
  \<open>assign_cpus\<close> the loop over \<^verbatim>\<open>cpus_assigned\<close>, \<open>assign_rank\<close> the body of the loop over
  \<^verbatim>\<open>process_rank\<close>. A result is \<open>Inl\<close> of the negative error number or \<open>Inr\<close> of the CPUs;
  \<open>None\<close> is a loop that does not end or an access outside of an array.
  The lemmas show what is chosen, that the CPUs of different ranks are disjoint, and that the
  partitioning succeeds when the topology covers enough CPUs.
\<close>


section \<open>One assignment\<close>

text \<open>The CPU that shares a cache with the last one, caches from the innermost outwards.\<close>

fun same_cache :: "nat \<Rightarrow> cache_topology list \<Rightarrow> cpu_set \<Rightarrow> nat option option" where
  "same_cache nprocs [] cpus_available = Some None"
| "same_cache nprocs (cache_top # rest) cpus_available = do {
     r \<leftarrow> for_each_cpu nprocs (shared_cpu_map cache_top)
            (\<lambda>cpu _. if CPU_ISSET cpu cpus_available then Inr cpu else Inl ()) (-1) ();
     (case r of Inr cpu \<Rightarrow> Some (Some cpu) | Inl _ \<Rightarrow> same_cache nprocs rest cpus_available) }"

text \<open>A CPU of the same NUMA node; a CPU without topology object is an error.\<close>

definition same_node :: "nat \<Rightarrow> cpu_topology list \<Rightarrow> int \<Rightarrow> cpu_set \<Rightarrow> (unit + (int + nat)) option" where
  "same_node nprocs tops node cpus_available =
     for_each_cpu nprocs cpus_available
       (\<lambda>cpu _. case find_cpu_top tops cpu of
                   None \<Rightarrow> Inr (Inl (- EINVAL))
                 | Some cpu_top \<Rightarrow> if node = node_id cpu_top then Inr (Inr cpu) else Inl ()) (-1) ()"

definition choose_cpu :: "nat \<Rightarrow> cpu_topology list \<Rightarrow> nat \<Rightarrow> cpu_set \<Rightarrow> (int + nat) option" where
  "choose_cpu nprocs tops cpu_prev cpus_available =
     (case find_cpu_top tops cpu_prev of
        None \<Rightarrow> Some (Inl (- EINVAL))
      | Some cpu_top \<Rightarrow> do {
          r \<leftarrow> same_cache nprocs (cache_topology_list cpu_top) cpus_available;
          (case r of
             Some cpu \<Rightarrow> Some (Inr cpu)
           | None \<Rightarrow> do {
               r \<leftarrow> same_node nprocs tops (node_id cpu_top) cpus_available;
               (case r of
                  Inr r \<Rightarrow> Some r
                | Inl _ \<Rightarrow> do { cpu \<leftarrow> cpuset_first cpus_available; Some (Inr cpu) }) }) })"

section \<open>The loops over CPUs and ranks\<close>

fun assign_cpus ::
  "nat \<Rightarrow> cpu_topology list \<Rightarrow> nat \<Rightarrow> nat \<Rightarrow> cpu_set \<Rightarrow> cpu_set \<Rightarrow> (int + cpu_set \<times> cpu_set) option" where
  "assign_cpus nprocs tops 0 cpu_prev cpus_available cpus_to_use = Some (Inr (cpus_available, cpus_to_use))"
| "assign_cpus nprocs tops (Suc n) cpu_prev cpus_available cpus_to_use = do {
     r \<leftarrow> choose_cpu nprocs tops cpu_prev cpus_available;
     (case r of
        Inl e \<Rightarrow> Some (Inl e)
      | Inr cpu \<Rightarrow> assign_cpus nprocs tops n cpu (CPU_CLR cpu cpus_available) (CPU_SET cpu cpus_to_use)) }"

definition assign_rank ::
  "nat \<Rightarrow> cpu_topology list \<Rightarrow> int \<Rightarrow> cpu_set \<Rightarrow> (int + cpu_set \<times> cpu_set) option" where
  "assign_rank nprocs tops cpus_to_assign pe_cpus_available =
     (let cpus_available = pe_cpus_available; cpus_to_use = CPU_ZERO in do {
        cpu \<leftarrow> cpuset_first cpus_available;
        assign_cpus nprocs tops (nat (cpus_to_assign - 1)) cpu
          (CPU_CLR cpu cpus_available) (CPU_SET cpu cpus_to_use) })"

text \<open>
  The loop over the ranks commits \<^verbatim>\<open>cpus_available\<close> and the affinity of the rank after each
  rank; an error leaves the loop with what was committed so far.
\<close>

function assign_ranks ::
  "nat \<Rightarrow> cpu_topology list \<Rightarrow> int \<Rightarrow> int \<Rightarrow> int \<Rightarrow> cpu_set \<Rightarrow> cpu_set list \<Rightarrow>
   (int option \<times> int \<times> cpu_set \<times> cpu_set list) option" where
  "assign_ranks nprocs tops cpus_to_assign nr_processes process_rank pe_cpus_available affinities =
     (if process_rank < nr_processes then do {
        r \<leftarrow> assign_rank nprocs tops cpus_to_assign pe_cpus_available;
        (case r of
           Inl e \<Rightarrow> Some (Some e, process_rank, pe_cpus_available, affinities)
         | Inr (cpus_available, cpus_to_use) \<Rightarrow> do {
             affinities' \<leftarrow> wr affinities (nat process_rank) cpus_to_use;
             assign_ranks nprocs tops cpus_to_assign nr_processes (process_rank + 1) cpus_available affinities' }) }
      else Some (None, process_rank, pe_cpus_available, affinities))"
  by pat_completeness auto
termination
  by (relation "measure (\<lambda>(n, t, k, nr, r, a, f). nat (nr - r))") auto

declare assign_ranks.simps [simp del]

section \<open>The assignment loop over any chooser\<close>

text \<open>
  \<open>pick env prev a\<close> chooses the CPU after \<open>prev\<close> from \<open>a\<close>; \<open>run\<close> is a loop that repeats it.
  \<open>ok env\<close> is what the choice needs of its environment, \<open>known env\<close> the CPUs it can continue from.
\<close>

locale cpu_chooser = cpu_sets +
  fixes pick :: "'e \<Rightarrow> nat \<Rightarrow> 's \<Rightarrow> (int + nat) option"
    and run :: "'e \<Rightarrow> nat \<Rightarrow> nat \<Rightarrow> 's \<Rightarrow> 's \<Rightarrow> (int + 's \<times> 's) option"
    and ok :: "'e \<Rightarrow> bool" and known :: "'e \<Rightarrow> nat set"
  assumes pick_sound: "ok env \<Longrightarrow> wf a \<Longrightarrow> pick env prev a = Some (Inr c) \<Longrightarrow>
      c \<in> elems a \<or> elems a = {} \<and> bound \<le> c"
    and pick_total: "ok env \<Longrightarrow> wf a \<Longrightarrow> prev \<in> known env \<Longrightarrow> elems a \<subseteq> known env \<Longrightarrow> \<exists>c. pick env prev a = Some (Inr c)"
    and pick_defined: "ok env \<Longrightarrow> wf a \<Longrightarrow> pick env prev a \<noteq> None"
    and run_0: "run env 0 prev a u = Some (Inr (a, u))"
    and run_Suc: "run env (Suc n) prev a u =
      (case pick env prev a of None \<Rightarrow> None | Some (Inl e) \<Rightarrow> Some (Inl e)
       | Some (Inr c) \<Rightarrow> run env n c (del c a) (ins c u))"
begin

lemma run_defined: "ok env \<Longrightarrow> wf a \<Longrightarrow> run env n prev a u \<noteq> None"
proof (induction n arbitrary: prev a u)
  case (Suc n)
  then show ?case using pick_defined [of env a prev]
    by (auto simp: run_Suc wf_del split: option.split sum.split)
qed (simp add: run_0)

lemma run_sound:
  assumes "ok env" "wf a" "wf u" "elems a \<inter> elems u = {}" "run env n prev a u = Some (Inr (a', u'))"
  shows "wf a' \<and> wf u' \<and> elems a' \<union> elems u' = elems a \<union> elems u \<and> elems a' \<inter> elems u' = {} \<and>
    elems u \<subseteq> elems u' \<and> card (elems u') = card (elems u) + min n (card (elems a))"
  using assms(2-)
proof (induction n arbitrary: prev a u)
  case 0
  then show ?case by (simp add: run_0)
next
  case (Suc n)
  obtain c where c: "pick env prev a = Some (Inr c)" and rest: "run env n c (del c a) (ins c u) = Some (Inr (a', u'))"
    using Suc.prems(4) by (auto simp: run_Suc split: option.splits sum.splits)
  have cin: "c \<in> elems a \<or> elems a = {} \<and> bound \<le> c" using assms(1) Suc.prems(1) c by (rule pick_sound)
  note mv = move [OF Suc.prems(1,2) cin Suc.prems(3)]
  have "card (elems a) = 0 \<longleftrightarrow> elems a = {}" using elems_finite by simp
  moreover have "elems u \<subseteq> elems (ins c u)" using Suc.prems(2) by (auto simp: elems_ins)
  ultimately show ?case
    using Suc.IH [OF wf_del [OF Suc.prems(1)] wf_ins [OF Suc.prems(2)] mv(2) rest] mv
    by (auto simp: min_def)
qed

lemma run_total:
  assumes "ok env" "wf a" "wf u" "elems a \<subseteq> known env" "prev \<in> known env" "n \<le> card (elems a)"
  shows "\<exists>a' u'. run env n prev a u = Some (Inr (a', u'))"
  using assms(2-)
proof (induction n arbitrary: prev a u)
  case (Suc n)
  obtain c where c: "pick env prev a = Some (Inr c)"
    using pick_total [OF assms(1) Suc.prems(1,4,3)] by blast
  have ne: "elems a \<noteq> {}" using Suc.prems(5) by auto
  then have cin: "c \<in> elems a" using pick_sound [OF assms(1) Suc.prems(1) c] by blast
  then have "n \<le> card (elems (del c a))"
    using Suc.prems elems_finite by (simp add: elems_del)
  moreover have "elems (del c a) \<subseteq> known env" using Suc.prems by (auto simp: elems_del)
  ultimately show ?case
    using Suc.IH [of "del c a" "ins c u" c] Suc.prems cin c by (auto simp: run_Suc wf_del wf_ins)
qed (simp add: run_0)

end

section \<open>What the code chooses\<close>

lemma fold_until_find:
  "fold_until (\<lambda>x _. if P x then Inr (f x) else Inl ()) xs () =
   (case List.find P xs of None \<Rightarrow> Inl () | Some x \<Rightarrow> Inr (f x))"
  by (induction xs) auto

lemma fold_until_in:
  assumes "fold_until body xs s = Inr (Inr c)" "\<And>x s c. body x s = Inr (Inr c) \<Longrightarrow> c = x"
  shows "c \<in> set xs"
  using assms(1)
proof (induction xs arbitrary: s)
  case (Cons x xs)
  then show ?case using assms(2) by (cases "body x s") auto
qed simp

lemma find_filter: "List.find P (filter Q xs) = List.find (\<lambda>x. Q x \<and> P x) xs"
  by (induction xs) auto

lemma find_upt_Min:
  "List.find P [0..<n] = (if {i. i < n \<and> P i} = {} then None else Some (Min {i. i < n \<and> P i}))"
proof (cases "{i. i < n \<and> P i} = {}")
  case True
  then show ?thesis by (auto simp: find_None_iff)
next
  case False
  define S where "S = {i. i < n \<and> P i}"
  have "Min S \<in> S" using False unfolding S_def by (intro Min_in) auto
  then have "Min S < n" "P (Min S)" by (simp_all add: S_def)
  moreover have "\<not> P j" if "j < Min S" for j
  proof
    assume "P j"
    then have "j \<in> S" using that \<open>Min S < n\<close> by (simp add: S_def)
    then have "Min S \<le> j" by (intro Min_le) (simp_all add: S_def)
    then show False using that by simp
  qed
  ultimately have "List.find P [0..<n] = Some (Min S)" by (rule find_upt_eq)
  then show ?thesis using False by (simp add: S_def)
qed

definition sharing :: "nat \<Rightarrow> cache_topology \<Rightarrow> cpu_set \<Rightarrow> nat set" where
  "sharing nprocs cache_top avail = cpus_of (shared_cpu_map cache_top) \<inter> cpus_of avail \<inter> {..<nprocs}"

definition on_node :: "nat \<Rightarrow> cpu_topology list \<Rightarrow> int \<Rightarrow> cpu_set \<Rightarrow> nat set" where
  "on_node nprocs tops node avail =
     {c \<in> cpus_of avail. c < nprocs \<and> (\<exists>t. find_cpu_top tops c = Some t \<and> node_id t = node)}"

lemma same_cache_eq:
  assumes "nprocs \<le> 1024" "wf_cpus avail" "\<forall>c \<in> set caches. wf_cpus (shared_cpu_map c)"
  shows "same_cache nprocs caches avail =
    Some (map_option (\<lambda>c. Min (sharing nprocs c avail)) (List.find (\<lambda>c. sharing nprocs c avail \<noteq> {}) caches))"
  using assms(3)
proof (induction caches)
  case (Cons c caches)
  have sh: "sharing nprocs c avail = {i. i < nprocs \<and> bm_bit (shared_cpu_map c) i \<and> CPU_ISSET i avail}"
    using Cons.prems assms(2) by (auto simp: sharing_def in_cpus_of CPU_ISSET_iff)
  show ?case
  proof (cases "sharing nprocs c avail = {}")
    case True
    then show ?thesis
      using Cons assms(1) by (simp add: for_each_cpu_eq fold_until_find find_filter find_upt_Min sh)
  next
    case False
    then have "{i. i < nprocs \<and> bm_bit (shared_cpu_map c) i \<and> CPU_ISSET i avail} \<noteq> {}" by (simp only: sh not_False_eq_True)
    then show ?thesis
      using Cons assms(1) False by (simp add: for_each_cpu_eq fold_until_find find_filter find_upt_Min sh del: Collect_empty_eq)
  qed
qed simp

lemma fold_until_same_node:
  "covers tops (set xs) \<Longrightarrow>
   fold_until (\<lambda>cpu _. case find_cpu_top tops cpu of None \<Rightarrow> Inr (Inl (- EINVAL))
       | Some t \<Rightarrow> if node = node_id t then Inr (Inr cpu) else Inl ()) xs () =
   (case List.find (\<lambda>c. \<exists>t. find_cpu_top tops c = Some t \<and> node_id t = node) xs of
      None \<Rightarrow> Inl () | Some c \<Rightarrow> Inr (Inr c :: int + nat))"
proof (induction xs)
  case (Cons x xs)
  then obtain t where "find_cpu_top tops x = Some t" using covers_find [of tops "set (x # xs)" x] by auto
  moreover have "covers tops (set xs)" using Cons.prems by (auto simp: covers_def)
  ultimately show ?case using Cons.IH by auto
qed simp

lemma same_node_eq:
  assumes "nprocs \<le> 1024" "wf_cpus avail" "covers tops (cpus_of avail)"
  shows "same_node nprocs tops node avail =
    Some (if on_node nprocs tops node avail = {} then Inl () else Inr (Inr (Min (on_node nprocs tops node avail))))"
proof -
  have cov: "covers tops (set (filter (bm_bit avail) [0..<nprocs]))"
    using assms by (auto simp: covers_def in_cpus_of)
  have on: "on_node nprocs tops node avail =
      {i. i < nprocs \<and> bm_bit avail i \<and> (\<exists>t. find_cpu_top tops i = Some t \<and> node_id t = node)}"
    using assms(2) by (auto simp: on_node_def in_cpus_of)
  show ?thesis
    unfolding same_node_def
    by (simp add: for_each_cpu_eq assms fold_until_same_node [OF cov] find_filter find_upt_Min on)
qed

lemma choose_cpu_eq:
  assumes "nprocs \<le> 1024" "wf_topology tops" "wf_cpus avail" "covers tops (cpus_of avail)"
    and "find_cpu_top tops cpu_prev = Some t"
  shows "choose_cpu nprocs tops cpu_prev avail = Some (Inr
    (case List.find (\<lambda>c. sharing nprocs c avail \<noteq> {}) (cache_topology_list t) of
       Some c \<Rightarrow> Min (sharing nprocs c avail)
     | None \<Rightarrow> if on_node nprocs tops (node_id t) avail \<noteq> {} then Min (on_node nprocs tops (node_id t) avail)
               else if cpus_of avail \<noteq> {} then Min (cpus_of avail) else 1024))"
proof -
  have "\<forall>c \<in> set (cache_topology_list t). wf_cpus (shared_cpu_map c)"
    using assms(2) find_cpu_top_SomeD [OF assms(5)] by (auto simp: wf_topology_def)
  from same_cache_eq [OF assms(1,3) this] show ?thesis
    using same_node_eq [OF assms(1,3,4)] cpuset_first_eq [OF assms(3)] assms(5)
    by (auto simp: choose_cpu_def split: option.split)
qed


lemma choose_cpu_sound:
  assumes "nprocs \<le> 1024" "wf_topology tops" "wf_cpus avail" "choose_cpu nprocs tops cpu_prev avail = Some (Inr c)"
  shows "c \<in> cpus_of avail \<or> cpus_of avail = {} \<and> 1024 \<le> c"
proof -
  obtain t where t: "find_cpu_top tops cpu_prev = Some t"
    using assms(4) by (auto simp: choose_cpu_def split: option.splits)
  have "\<forall>c \<in> set (cache_topology_list t). wf_cpus (shared_cpu_map c)"
    using assms(2) find_cpu_top_SomeD [OF t] by (auto simp: wf_topology_def)
  note cache = same_cache_eq [OF assms(1,3) this]
  show ?thesis
  proof (cases "List.find (\<lambda>c. sharing nprocs c avail \<noteq> {}) (cache_topology_list t)")
    case (Some ct)
    then have ne: "sharing nprocs ct avail \<noteq> {}" by (auto simp: find_Some_iff)
    have "c = Min (sharing nprocs ct avail)" using assms(4) t cache Some by (simp add: choose_cpu_def)
    then have "c \<in> sharing nprocs ct avail" using Min_in [OF _ ne] by (simp add: sharing_def)
    then show ?thesis by (simp add: sharing_def)
  next
    case None
    obtain r where r: "same_node nprocs tops (node_id t) avail = Some r"
      using assms(4) t cache None by (auto simp: choose_cpu_def bind_eq_Some_conv)
    show ?thesis
    proof (cases r)
      case (Inr r')
      then have "r' = Inr c" using assms(4) t cache None r by (simp add: choose_cpu_def)
      then have "fold_until (\<lambda>cpu _. case find_cpu_top tops cpu of None \<Rightarrow> Inr (Inl (- EINVAL))
          | Some t' \<Rightarrow> if node_id t = node_id t' then Inr (Inr cpu) else Inl ())
          (filter (bm_bit avail) [0..<nprocs]) () = Inr (Inr c)"
        using r Inr assms by (simp add: same_node_def for_each_cpu_eq)
      then have "c \<in> set (filter (bm_bit avail) [0..<nprocs])"
        by (rule fold_until_in) (auto split: option.splits if_splits)
      then show ?thesis using assms(3) by (simp add: in_cpus_of)
    next
      case (Inl u)
      then have "cpuset_first avail = Some c" using assms(4) t cache None r by (simp add: choose_cpu_def bind_eq_Some_conv)
      then show ?thesis using cs.least_sound [OF assms(3)] by auto
    qed
  qed
qed

lemma choose_cpu_defined:
  assumes "nprocs \<le> 1024" "wf_topology tops" "wf_cpus avail"
  shows "choose_cpu nprocs tops cpu_prev avail \<noteq> None"
proof (cases "find_cpu_top tops cpu_prev")
  case (Some t)
  have "\<forall>c \<in> set (cache_topology_list t). wf_cpus (shared_cpu_map c)"
    using assms(2) find_cpu_top_SomeD [OF Some] by (auto simp: wf_topology_def)
  from same_cache_eq [OF assms(1,3) this] show ?thesis
    using Some assms cpuset_first_eq [OF assms(3)]
    by (auto simp: choose_cpu_def same_node_def for_each_cpu_eq split: option.split sum.split)
qed (simp add: choose_cpu_def)

interpretation ch: cpu_chooser wf_cpus cpus_of 1024 CPU_SET CPU_CLR cpuset_first
  "\<lambda>(nprocs, tops). choose_cpu nprocs tops" "\<lambda>(nprocs, tops). assign_cpus nprocs tops"
  "\<lambda>(nprocs, tops). nprocs \<le> 1024 \<and> wf_topology tops" "\<lambda>(nprocs, tops). cpu_id ` set tops"
proof (unfold_locales, goal_cases)
  case (1 env a prev c)
  then show ?case by (cases env) (auto dest: choose_cpu_sound)
next
  case (2 env a prev)
  obtain nprocs tops where [simp]: "env = (nprocs, tops)" by (cases env)
  have "covers tops (cpus_of a)" using 2 by (auto simp: covers_def subset_iff image_iff)
  moreover obtain t where "find_cpu_top tops prev = Some t"
    using 2 find_cpu_top_None [of tops prev] by fastforce
  ultimately show ?case using 2 choose_cpu_eq [of nprocs tops a prev t] by auto
next
  case (3 env a prev)
  then show ?case by (cases env) (auto dest: choose_cpu_defined)
next
  case (4 env prev a u)
  then show ?case by (cases env) simp
next
  case (5 env n prev a u)
  then show ?case by (cases env) (simp split: option.split sum.split)
qed

section \<open>One rank\<close>

lemma assign_rank_sound:
  assumes "nprocs \<le> 1024" "wf_topology tops" "wf_cpus avail"
    and "assign_rank nprocs tops k avail = Some (Inr (a', u'))"
  shows "wf_cpus a' \<and> wf_cpus u' \<and> cpus_of a' \<union> cpus_of u' = cpus_of avail \<and> cpus_of a' \<inter> cpus_of u' = {} \<and>
    card (cpus_of u') = min (nat (max 1 k)) (card (cpus_of avail))"
proof -
  obtain c where c: "cpuset_first avail = Some c" "c \<in> cpus_of avail \<or> cpus_of avail = {} \<and> 1024 \<le> c"
    using cs.least_sound [OF assms(3)] by auto
  have run: "assign_cpus nprocs tops (nat (k - 1)) c (CPU_CLR c avail) (CPU_SET c CPU_ZERO) = Some (Inr (a', u'))"
    using assms(4) c(1) by (simp add: assign_rank_def)
  have z: "cpus_of avail \<inter> cpus_of CPU_ZERO = {}" by simp
  note mv = cs.move [OF assms(3) wf_CPU_ZERO c(2) z]
  have *: "wf_cpus a'" "wf_cpus u'" "cpus_of a' \<union> cpus_of u' = cpus_of avail" "cpus_of a' \<inter> cpus_of u' = {}"
      "card (cpus_of u') = (if cpus_of avail = {} then 0 else 1) + min (nat (k - 1)) (card (cpus_of avail) - 1)"
    using ch.run_sound [of "(nprocs, tops)" "CPU_CLR c avail" "CPU_SET c CPU_ZERO" "nat (k - 1)" c a' u'] run assms mv
    by simp_all
  have "card (cpus_of u') = min (nat (max 1 k)) (card (cpus_of avail))"
  proof (cases "cpus_of avail = {}")
    case False
    then have "card (cpus_of avail) > 0" by (simp add: card_gt_0_iff)
    moreover have "nat (max 1 k) = Suc (nat (k - 1))" by simp
    ultimately show ?thesis using *(5) False by (simp add: min_def) linarith
  qed (use * in simp)
  with * show ?thesis by blast
qed

lemma assign_rank_total:
  assumes "nprocs \<le> 1024" "wf_topology tops" "wf_cpus avail"
    and "covers tops (cpus_of avail)" "nat (max 1 k) \<le> card (cpus_of avail)"
  shows "\<exists>a' u'. assign_rank nprocs tops k avail = Some (Inr (a', u'))"
proof -
  have "cpus_of avail \<noteq> {}" using assms(5) by auto
  then obtain c where c: "cpuset_first avail = Some c" "c \<in> cpus_of avail"
    using cs.least_sound [OF assms(3)] by auto
  have "nat (k - 1) \<le> card (cpus_of (CPU_CLR c avail))"
    using assms(3,5) c(2) by (simp add: cpus_of_CLR)
  moreover have "cpus_of avail \<subseteq> cpu_id ` set tops" using assms(4) by (auto simp: covers_def)
  ultimately show ?thesis
    using ch.run_total [of "(nprocs, tops)" "CPU_CLR c avail" "CPU_SET c CPU_ZERO" c "nat (k - 1)"] assms c
    by (auto simp: assign_rank_def cpus_of_CLR)
qed

lemma assign_rank_defined:
  assumes "nprocs \<le> 1024" "wf_topology tops" "wf_cpus avail"
  shows "assign_rank nprocs tops k avail \<noteq> None"
  using ch.run_defined [of "(nprocs, tops)"] assms cpuset_first_eq [OF assms(3)]
  by (simp add: assign_rank_def)

text \<open>With a single CPU per rank there is no search, hence no error.\<close>

lemma assign_rank_one:
  assumes "k \<le> 1" "wf_cpus avail"
  shows "\<exists>a' u'. assign_rank nprocs tops k avail = Some (Inr (a', u'))"
  using assms cpuset_first_eq [OF assms(2)] by (simp add: assign_rank_def)

section \<open>All ranks\<close>

text \<open>
  \<open>committed\<close> relates the memory before the loop over the ranks \<open>lo..<hi\<close> to the memory after it:
  the new affinities are disjoint parts of the available CPUs and nothing else is written.
\<close>

definition committed :: "int \<Rightarrow> nat \<Rightarrow> nat \<Rightarrow> cpu_set \<Rightarrow> cpu_set list \<Rightarrow> cpu_set \<Rightarrow> cpu_set list \<Rightarrow> bool" where
  "committed k lo hi avail affs avail' affs' \<longleftrightarrow>
     lo \<le> hi \<and> length affs' = length affs \<and> wf_cpus avail' \<and>
     (\<forall>r < length affs. r < lo \<or> hi \<le> r \<longrightarrow> affs' ! r = affs ! r) \<and>
     (\<forall>r. lo \<le> r \<and> r < hi \<longrightarrow> r < length affs \<and> wf_cpus (affs' ! r)) \<and>
     (\<forall>r s. lo \<le> r \<and> r < s \<and> s < hi \<longrightarrow> cpus_of (affs' ! r) \<inter> cpus_of (affs' ! s) = {}) \<and>
     cpus_of avail = cpus_of avail' \<union> (\<Union>r \<in> {lo..<hi}. cpus_of (affs' ! r)) \<and>
     (\<forall>r. lo \<le> r \<and> r < hi \<longrightarrow> cpus_of avail' \<inter> cpus_of (affs' ! r) = {} \<and>
        card (cpus_of (affs' ! r)) = min (nat (max 1 k)) (card (cpus_of avail) - (r - lo) * nat (max 1 k)))"

lemma committedD:
  assumes "committed k lo hi avail affs avail' affs'"
  shows "lo \<le> hi" "length affs' = length affs" "wf_cpus avail'"
    and "r < length affs \<Longrightarrow> r < lo \<or> hi \<le> r \<Longrightarrow> affs' ! r = affs ! r"
    and "lo \<le> r \<Longrightarrow> r < hi \<Longrightarrow> r < length affs \<and> wf_cpus (affs' ! r)"
    and "lo \<le> r \<Longrightarrow> r < s \<Longrightarrow> s < hi \<Longrightarrow> cpus_of (affs' ! r) \<inter> cpus_of (affs' ! s) = {}"
    and "cpus_of avail = cpus_of avail' \<union> (\<Union>r \<in> {lo..<hi}. cpus_of (affs' ! r))"
    and "lo \<le> r \<Longrightarrow> r < hi \<Longrightarrow> cpus_of avail' \<inter> cpus_of (affs' ! r) = {}"
    and "lo \<le> r \<Longrightarrow> r < hi \<Longrightarrow>
      card (cpus_of (affs' ! r)) = min (nat (max 1 k)) (card (cpus_of avail) - (r - lo) * nat (max 1 k))"
  using assms by (simp_all only: committed_def)

lemma committed_nil: "wf_cpus avail \<Longrightarrow> committed k lo lo avail affs avail affs"
  by (auto simp: committed_def)

lemma committed_cons:
  assumes "wf_cpus a1" "wf_cpus u" "lo < length affs"
    and "cpus_of a1 \<union> cpus_of u = cpus_of avail" "cpus_of a1 \<inter> cpus_of u = {}"
    and "card (cpus_of u) = min (nat (max 1 k)) (card (cpus_of avail))"
    and rest: "committed k (Suc lo) hi a1 (affs[lo := u]) avail' affs'"
  shows "committed k lo hi avail affs avail' affs'"
proof -
  let ?m = "nat (max 1 k)"
  have lo: "affs' ! lo = u" using rest assms(3) by (simp add: committed_def)
  have hi: "Suc lo \<le> hi" using rest by (simp add: committed_def)
  then have ivl: "{lo..<hi} = insert lo {Suc lo..<hi}" by auto
  have sub: "cpus_of (affs' ! r) \<subseteq> cpus_of a1" if "Suc lo \<le> r" "r < hi" for r
    using rest that unfolding committed_def by (metis UN_I UnI2 atLeastLessThan_iff subsetI)
  have a1: "card (cpus_of a1) = card (cpus_of avail) - min ?m (card (cpus_of avail))"
  proof -
    have "card (cpus_of avail) = card (cpus_of a1) + card (cpus_of u)"
      unfolding assms(4) [symmetric] using assms(5) by (intro card_Un_disjoint) auto
    then show ?thesis using assms(6) by linarith
  qed
  have cards: "card (cpus_of (affs' ! r)) = min ?m (card (cpus_of avail) - (r - lo) * ?m)" if "lo \<le> r" "r < hi" for r
  proof (cases "r = lo")
    case True
    then show ?thesis using lo assms(6) by simp
  next
    case False
    then have r: "Suc lo \<le> r" "r - lo = Suc (r - Suc lo)" using that by simp_all
    then have "card (cpus_of (affs' ! r)) = min ?m (card (cpus_of a1) - (r - Suc lo) * ?m)"
      using rest that(2) unfolding committed_def by blast
    also have "card (cpus_of a1) - (r - Suc lo) * ?m = card (cpus_of avail) - (r - lo) * ?m"
      unfolding r(2) a1 by (simp add: min_def)
    finally show ?thesis .
  qed
  have disj: "cpus_of (affs' ! r) \<inter> cpus_of (affs' ! s) = {}" if "lo \<le> r" "r < s" "s < hi" for r s
  proof (cases "r = lo")
    case True
    then show ?thesis using sub [of s] that lo assms(5) by auto
  next
    case False
    then show ?thesis using rest that by (simp add: committed_def)
  qed
  have un: "cpus_of avail = cpus_of avail' \<union> (\<Union>r \<in> {lo..<hi}. cpus_of (affs' ! r))"
  proof -
    have "cpus_of a1 = cpus_of avail' \<union> (\<Union>r \<in> {Suc lo..<hi}. cpus_of (affs' ! r))"
      using rest by (simp add: committed_def)
    then show ?thesis unfolding ivl using assms(4) lo by auto
  qed
  have "cpus_of avail' \<subseteq> cpus_of a1" using rest by (auto simp: committed_def)
  then have out: "cpus_of avail' \<inter> cpus_of (affs' ! r) = {}" if "lo \<le> r" "r < hi" for r
    using rest that lo assms(5) unfolding committed_def by (cases "r = lo") (auto simp: Suc_le_eq)
  have frame: "affs' ! r = affs ! r" if "r < length affs" "r < lo \<or> hi \<le> r" for r
  proof -
    have "r < Suc lo \<or> hi \<le> r" "r \<noteq> lo" using that hi by linarith+
    then have "affs' ! r = affs[lo := u] ! r"
      using committedD(4) [OF rest, of r] that(1) by simp
    then show ?thesis using \<open>r \<noteq> lo\<close> by simp
  qed
  have wf: "r < length affs \<and> wf_cpus (affs' ! r)" if "lo \<le> r" "r < hi" for r
  proof (cases "r = lo")
    case True
    then show ?thesis using lo assms(2,3) by simp
  next
    case False
    then show ?thesis using rest that by (simp add: committed_def)
  qed
  have base: "lo \<le> hi" "length affs' = length affs" "wf_cpus avail'"
    using rest by (simp_all add: committed_def)
  show ?thesis
    unfolding committed_def
    by (intro conjI allI impI) (use base frame wf disj un out cards in \<open>simp_all\<close>)
qed

lemma assign_ranks_sound:
  assumes "nprocs \<le> 1024" "wf_topology tops" "wf_cpus avail"
    and "assign_ranks nprocs tops k nr (int lo) avail affs = Some (err, hi, avail', affs')"
  shows "\<exists>h. hi = int h \<and> committed k lo h avail affs avail' affs' \<and> (err = None \<longrightarrow> nr \<le> hi) \<and> (hi \<le> max nr (int lo))"
  using assms(3-)
proof (induction "nat (nr - int lo)" arbitrary: lo avail affs rule: less_induct)
  case less
  show ?case
  proof (cases "int lo < nr")
    case False
    then show ?thesis using less.prems committed_nil [of avail] by (auto simp: assign_ranks.simps)
  next
    case True
    obtain r where r: "assign_rank nprocs tops k avail = Some r"
      using assign_rank_defined [OF assms(1,2) less.prems(1)] by auto
    show ?thesis
    proof (cases r)
      case (Inl e)
      then show ?thesis using less.prems r True committed_nil [of avail] by (auto simp: assign_ranks.simps [of _ _ _ _ "int lo"])
    next
      case (Inr p)
      then obtain a1 u where p: "r = Inr (a1, u)" by (cases p) auto
      note s = assign_rank_sound [OF assms(1,2) less.prems(1) r [unfolded p]]
      have lo: "lo < length affs"
        and rest: "assign_ranks nprocs tops k nr (int (Suc lo)) a1 (affs[lo := u]) = Some (err, hi, avail', affs')"
        using less.prems(2) r p True
        by (auto simp: assign_ranks.simps [of _ _ _ _ "int lo"] bind_eq_Some_conv add.commute)
      from less.hyps [OF _ _ rest] True s
      obtain h where "hi = int h" "committed k (Suc lo) h a1 (affs[lo := u]) avail' affs'" "err = None \<longrightarrow> nr \<le> hi"
          "hi \<le> max nr (int (Suc lo))" by force
      moreover have "committed k lo h avail affs avail' affs'"
        using committed_cons [of a1 u lo affs avail k] s lo calculation(2) by blast
      ultimately show ?thesis using True by auto
    qed
  qed
qed


lemma assign_ranks_total:
  assumes "nprocs \<le> 1024" "wf_topology tops" "wf_cpus avail"
    and "covers tops (cpus_of avail)" "(n - lo) * nat (max 1 k) \<le> card (cpus_of avail)"
    and "lo \<le> n" "n \<le> length affs"
  shows "\<exists>avail' affs'. assign_ranks nprocs tops k (int n) (int lo) avail affs = Some (None, int n, avail', affs')"
  using assms(3-)
proof (induction "n - lo" arbitrary: lo avail affs)
  case 0
  then show ?case by (simp add: assign_ranks.simps)
next
  case (Suc d)
  have lo: "lo < n" "lo < length affs" "d = n - Suc lo" using Suc by linarith+
  have n: "n - lo = Suc (n - Suc lo)" using lo by simp
  then have "nat (max 1 k) \<le> card (cpus_of avail)" using Suc.prems(3) by (simp only: mult_Suc)
  then obtain a1 u where r: "assign_rank nprocs tops k avail = Some (Inr (a1, u))"
    using assign_rank_total [OF assms(1,2) Suc.prems(1,2)] by blast
  note s = assign_rank_sound [OF assms(1,2) Suc.prems(1) r]
  have "card (cpus_of avail) = card (cpus_of a1) + card (cpus_of u)"
    using s by (metis card_Un_disjoint finite_cpus_of)
  then have "(n - Suc lo) * nat (max 1 k) \<le> card (cpus_of a1)"
    using s Suc.prems(3) \<open>nat (max 1 k) \<le> card (cpus_of avail)\<close> n by simp
  moreover have "covers tops (cpus_of a1)" using Suc.prems(2) s by (auto intro: covers_mono)
  ultimately obtain a2 f2 where "assign_ranks nprocs tops k (int n) (int (Suc lo)) a1 (affs[lo := u]) = Some (None, int n, a2, f2)"
    using Suc.hyps(1) [OF lo(3), of a1 "affs[lo := u]"] Suc.prems(5) lo s by auto
  then show ?case
    using r lo by (simp add: assign_ranks.simps [of _ _ _ _ "int lo"] wr_in add.commute del: wr_eq_Some)
qed

text \<open>
  With at most one CPU per rank the topology is never consulted: the loop succeeds even when there
  are fewer CPUs than ranks, and the ranks that are left over get an empty set.
\<close>

lemma assign_ranks_one:
  assumes "nprocs \<le> 1024" "wf_topology tops" "wf_cpus avail" "k \<le> 1" "lo \<le> n" "n \<le> length affs"
  shows "\<exists>avail' affs'. assign_ranks nprocs tops k (int n) (int lo) avail affs = Some (None, int n, avail', affs')"
  using assms(3-)
proof (induction "n - lo" arbitrary: lo avail affs)
  case 0
  then show ?case by (simp add: assign_ranks.simps)
next
  case (Suc d)
  have lo: "lo < n" "lo < length affs" "d = n - Suc lo" using Suc by linarith+
  obtain a1 u where r: "assign_rank nprocs tops k avail = Some (Inr (a1, u))"
    using assign_rank_one [OF assms(4) Suc.prems(1)] by blast
  note s = assign_rank_sound [OF assms(1,2) Suc.prems(1) r]
  then obtain a2 f2 where "assign_ranks nprocs tops k (int n) (int (Suc lo)) a1 (affs[lo := u]) = Some (None, int n, a2, f2)"
    using Suc.hyps(1) [OF lo(3), of a1 "affs[lo := u]"] Suc.prems lo by auto
  then show ?case
    using r lo by (simp add: assign_ranks.simps [of _ _ _ _ "int lo"] wr_in add.commute del: wr_eq_Some)
qed

section \<open>Properties of the partitioning\<close>

lemma assign_ranks_committed:
  assumes "nprocs \<le> 1024" "wf_topology tops" "wf_cpus avail"
    and "assign_ranks nprocs tops k nr 0 avail affs = Some (err, hi, avail', affs')"
  shows "0 \<le> hi" "committed k 0 (nat hi) avail affs avail' affs'"
  using assign_ranks_sound [OF assms(1-3), of k nr 0 affs err hi avail' affs'] assms(4) by auto

text \<open>
  C8. The next CPU of a process: the lowest available CPU that shares the innermost possible cache
  with the last one; if no cache has one, the lowest available CPU of the same NUMA node; if there
  is none either, the lowest available CPU.
\<close>

theorem choose_cpu_locality:
  assumes "nprocs \<le> 1024" "wf_topology tops" "wf_cpus avail" "covers tops (cpus_of avail)"
    and "find_cpu_top tops cpu_prev = Some t" "cpus_of avail \<noteq> {}"
  shows "choose_cpu nprocs tops cpu_prev avail = Some (Inr
    (case List.find (\<lambda>c. sharing nprocs c avail \<noteq> {}) (cache_topology_list t) of
       Some c \<Rightarrow> Min (sharing nprocs c avail)
     | None \<Rightarrow> if on_node nprocs tops (node_id t) avail \<noteq> {} then Min (on_node nprocs tops (node_id t) avail)
               else Min (cpus_of avail)))"
  using choose_cpu_eq [OF assms(1-5)] assms(6) by (simp split: option.split)

text \<open>
  C4. Whenever the partitioning loop ends, with or without an error, the affinities of the ranks it
  has committed are pairwise disjoint, are disjoint from the CPUs that are still available, and
  together with them are exactly the CPUs that were available before; no other affinity is written.
\<close>

theorem partition_disjoint:
  assumes "nprocs \<le> 1024" "wf_topology tops" "wf_cpus avail"
    and "assign_ranks nprocs tops k nr 0 avail affs = Some (err, hi, avail', affs')"
  shows "(\<forall>r s. r < s \<and> int s < hi \<longrightarrow> cpus_of (affs' ! r) \<inter> cpus_of (affs' ! s) = {}) \<and>
    (\<forall>r. int r < hi \<longrightarrow> cpus_of avail' \<inter> cpus_of (affs' ! r) = {}) \<and>
    cpus_of avail = cpus_of avail' \<union> (\<Union>r \<in> {..<nat hi}. cpus_of (affs' ! r)) \<and>
    (\<forall>r < length affs. hi \<le> int r \<longrightarrow> affs' ! r = affs ! r)"
proof -
  note h = assign_ranks_committed [OF assms]
  note c = committedD [OF h(2)]
  show ?thesis using c(4,6,7,8) h(1) by (auto simp: atLeast0LessThan zless_nat_eq_int_zless nat_le_iff)
qed

text \<open>
  C5. If the topology covers the available CPUs and there are enough of them, the loop succeeds and
  gives every rank exactly \<open>max 1 k\<close> available CPUs.
\<close>

theorem partition_complete:
  assumes "nprocs \<le> 1024" "wf_topology tops" "wf_cpus avail" "covers tops (cpus_of avail)"
    and "n * nat (max 1 k) \<le> card (cpus_of avail)" "n \<le> length affs"
  shows "\<exists>avail' affs'. assign_ranks nprocs tops k (int n) 0 avail affs = Some (None, int n, avail', affs') \<and>
    (\<forall>r < n. cpus_of (affs' ! r) \<subseteq> cpus_of avail \<and> card (cpus_of (affs' ! r)) = nat (max 1 k))"
proof -
  obtain avail' affs' where as: "assign_ranks nprocs tops k (int n) 0 avail affs = Some (None, int n, avail', affs')"
    using assign_ranks_total [OF assms(1-4), of n 0 k affs] assms(5,6) by auto
  then have c: "committed k 0 n avail affs avail' affs'"
    using assign_ranks_committed(2) [OF assms(1-3)] by fastforce
  have "nat (max 1 k) \<le> card (cpus_of avail) - r * nat (max 1 k)" if "r < n" for r
  proof -
    have "Suc r * nat (max 1 k) \<le> n * nat (max 1 k)" using that by (intro mult_le_mono1) simp
    also have "\<dots> \<le> card (cpus_of avail)" by (rule assms(5))
    finally show ?thesis by simp
  qed
  then show ?thesis using as committedD(7,9) [OF c] by auto
qed

text \<open>
  C40. Fewer available CPUs than ranks (\<^verbatim>\<open>cpus_to_assign\<close> is then 0): no error is raised, the first ranks
  get one CPU each and every later rank gets the empty set.
\<close>

theorem partition_shortage:
  assumes "nprocs \<le> 1024" "wf_topology tops" "wf_cpus avail" "k \<le> 1" "card (cpus_of avail) < n" "n \<le> length affs"
  shows "\<exists>avail' affs'. assign_ranks nprocs tops k (int n) 0 avail affs = Some (None, int n, avail', affs') \<and>
    (\<forall>r < n. if r < card (cpus_of avail) then card (cpus_of (affs' ! r)) = 1 else cpus_of (affs' ! r) = {})"
proof -
  obtain avail' affs' where as: "assign_ranks nprocs tops k (int n) 0 avail affs = Some (None, int n, avail', affs')"
    using assign_ranks_one [OF assms(1-4), of 0 n affs] assms(6) by auto
  then have c: "committed k 0 n avail affs avail' affs'"
    using assign_ranks_committed(2) [OF assms(1-3)] by fastforce
  have "nat (max 1 k) = 1" using assms(4) by simp
  then have "card (cpus_of (affs' ! r)) = min 1 (card (cpus_of avail) - r)" if "r < n" for r
    using committedD(9) [OF c, of r] that by simp
  then have "if r < card (cpus_of avail) then card (cpus_of (affs' ! r)) = 1 else cpus_of (affs' ! r) = {}" if "r < n" for r
    using that card_0_eq [OF finite_cpus_of, of "affs' ! r"] by (cases "r < card (cpus_of avail)") simp_all
  then show ?thesis using as by blast
qed

section \<open>A concrete topology\<close>

text \<open>Four CPUs on one NUMA node, the pairs 0, 1 and 2, 3 sharing a cache.\<close>

definition example_cpus :: "nat list \<Rightarrow> cpu_set" where
  "example_cpus cpus = fold CPU_SET cpus CPU_ZERO"

definition example_cache :: "cpu_set \<Rightarrow> cache_topology" where
  "example_cache cpus = \<lparr>cache_index = 0, cache_padding = 0, level = 1, cache_type = ''Data'', cache_size = 32768,
     size_str = ''32K'', coherency_line_size = 64, number_of_sets = 64, physical_line_partition = 1,
     ways_of_associativity = 8, shared_cpu_map = cpus\<rparr>"

definition example_cpu :: "nat \<Rightarrow> cpu_set \<Rightarrow> cpu_topology" where
  "example_cpu cpu cpus = \<lparr>cpu_id = cpu, node_id = 0, hw_id = 0, physical_package_id = 0, core_id = int cpu,
     core_siblings = cpus, thread_siblings = cpus, cache_topology_list = [example_cache cpus]\<rparr>"

definition example_tops :: "cpu_topology list" where
  "example_tops = [example_cpu 0 (example_cpus [0, 1]), example_cpu 1 (example_cpus [0, 1]),
     example_cpu 2 (example_cpus [2, 3]), example_cpu 3 (example_cpus [2, 3])]"

lemma example_cpus_facts:
  "wf_cpus (example_cpus [a, b])" "a < 1024 \<Longrightarrow> b < 1024 \<Longrightarrow> cpus_of (example_cpus [a, b]) = {a, b}"
  "wf_cpus (example_cpus [a, b, d, e])"
  "a < 1024 \<Longrightarrow> b < 1024 \<Longrightarrow> d < 1024 \<Longrightarrow> e < 1024 \<Longrightarrow> cpus_of (example_cpus [a, b, d, e]) = {a, b, d, e}"
  by (auto simp: example_cpus_def cpus_of_SET)

lemma example_topology:
  "wf_topology example_tops" "covers example_tops (cpus_of (example_cpus [0, 1, 2, 3]))"
proof -
  show "wf_topology example_tops"
    by (auto simp: wf_topology_def example_tops_def example_cpu_def example_cache_def example_cpus_facts)
  show "covers example_tops (cpus_of (example_cpus [0, 1, 2, 3]))"
    by (auto simp: covers_def example_tops_def example_cpu_def example_cpus_facts)
qed

theorem choose_cpu_locality_witness:
  "choose_cpu 4 example_tops 2 (example_cpus [0, 1, 3]) = Some (Inr 3)"
proof -
  have av: "cpus_of (example_cpus [0, 1, 3]) = {0, 1, 3}" "wf_cpus (example_cpus [0, 1, 3])"
    by (auto simp: example_cpus_def cpus_of_SET)
  have t: "find_cpu_top example_tops 2 = Some (example_cpu 2 (example_cpus [2, 3]))"
    by (simp add: find_cpu_top_def example_tops_def example_cpu_def)
  have "covers example_tops (cpus_of (example_cpus [0, 1, 3]))"
    using example_topology(2) by (rule covers_mono) (simp add: av example_cpus_facts del: One_nat_def)
  from choose_cpu_locality [of 4, OF _ example_topology(1) av(2) this t] show ?thesis
    by (simp add: av example_cpu_def example_cache_def sharing_def example_cpus_facts del: One_nat_def)
qed

lemma example_wf: "wf_cpus (example_cpus [0, 1, 2, 3])" "cpus_of (example_cpus [0, 1, 2, 3]) = {0, 1, 2, 3}"
  by (rule example_cpus_facts(3)) (rule example_cpus_facts(4), simp_all)

theorem partition_disjoint_witness:
  "\<exists>avail' affs'. assign_ranks 4 example_tops 2 2 0 (example_cpus [0, 1, 2, 3]) [CPU_ZERO, CPU_ZERO] = Some (None, 2, avail', affs') \<and>
     cpus_of (affs' ! 0) \<inter> cpus_of (affs' ! 1) = {}"
proof -
  obtain avail' affs' where as:
    "assign_ranks 4 example_tops 2 (int 2) (int 0) (example_cpus [0, 1, 2, 3]) [CPU_ZERO, CPU_ZERO] = Some (None, int 2, avail', affs')"
    using assign_ranks_total [of 4 example_tops "example_cpus [0, 1, 2, 3]" 2 0 2 "[CPU_ZERO, CPU_ZERO]"]
      example_topology example_wf by auto
  then have as: "assign_ranks 4 example_tops 2 2 0 (example_cpus [0, 1, 2, 3]) [CPU_ZERO, CPU_ZERO] = Some (None, 2, avail', affs')"
    by simp
  from partition_disjoint [OF _ example_topology(1) example_wf(1) as] as show ?thesis by auto
qed

theorem partition_complete_witness:
  "\<exists>avail' affs'. assign_ranks 4 example_tops 2 2 0 (example_cpus [0, 1, 2, 3]) [CPU_ZERO, CPU_ZERO] = Some (None, 2, avail', affs') \<and>
     card (cpus_of (affs' ! 1)) = 2"
  using partition_complete [of 4 example_tops "example_cpus [0, 1, 2, 3]" 2 2 "[CPU_ZERO, CPU_ZERO]"]
    example_topology example_wf by force

theorem partition_shortage_witness:
  "\<exists>avail' affs'. assign_ranks 4 example_tops 0 5 0 (example_cpus [0, 1, 2, 3]) (replicate 5 CPU_ZERO) = Some (None, 5, avail', affs') \<and>
     card (cpus_of (affs' ! 3)) = 1 \<and> cpus_of (affs' ! 4) = {}"
proof -
  obtain avail' affs' where *:
    "assign_ranks 4 example_tops 0 (int 5) 0 (example_cpus [0, 1, 2, 3]) (replicate 5 CPU_ZERO) = Some (None, int 5, avail', affs')"
    "\<forall>r < 5. if r < card (cpus_of (example_cpus [0, 1, 2, 3])) then card (cpus_of (affs' ! r)) = 1 else cpus_of (affs' ! r) = {}"
    using partition_shortage [of 4 example_tops "example_cpus [0, 1, 2, 3]" 0 5 "replicate 5 CPU_ZERO"]
      example_topology example_wf by auto
  then show ?thesis using *(2) [rule_format, of 3] *(2) [rule_format, of 4] example_wf by (auto simp del: example_wf)
qed

end
