(* ===== verification/Pin_Process.thy ===== *)
theory Pin_Process
  imports Partition
begin

text \<open>
  The shared state of a partitioned execution (\<^verbatim>\<open>mpipin.c\<close> lines 747 to 776) and
  \<^verbatim>\<open>pin_process()\<close> (lines 778 to 1121).
  Every stretch of \<^verbatim>\<open>pin_process()\<close> between taking and giving up the mutex is one function on
  \<open>part_exec\<close>: \<open>pin_enter\<close> runs from the entry to the wait or past it, \<open>after_wait\<close> from the return of
  \<^verbatim>\<open>pthread_cond_timedwait()\<close> to the end. They give the new shared state, the slots whose
  condition variable was signalled, in order, and what the process does next.
  \<open>None\<close> is an access outside of \<^verbatim>\<open>processes\<close> or \<^verbatim>\<open>affinities\<close>, or a walk of the process
  list that does not end.
  The mutex and condition variables are not data of the model: that stretches are atomic and that
  a signal is remembered by the waiter's slot is what theory \<open>Protocol\<close> builds on.
\<close>

section \<open>The shared state\<close>

record process_list_item =
  ready :: int
  timeout :: int
  pid :: int
  start_ts :: ulong
  next_process_ind :: int

definition MAX_PROCESSES :: nat where "MAX_PROCESSES = 1024"

record part_exec =
  nr_processes :: int
  nr_processes_left :: int
  nr_processes_left_in_init :: int
  process_rank :: int
  cpus_used :: cpu_set
  cpus_available :: cpu_set
  cpus_to_assign :: int
  first_process_ind :: int
  processes :: "process_list_item list"
  affinities :: "cpu_set list"

definition slot :: "part_exec \<Rightarrow> int \<Rightarrow> process_list_item option" where
  "slot pe i = (if 0 \<le> i then rd (processes pe) (nat i) else None)"

definition upd_slot :: "part_exec \<Rightarrow> int \<Rightarrow> (process_list_item \<Rightarrow> process_list_item) \<Rightarrow> part_exec option" where
  "upd_slot pe i f = do {
     it \<leftarrow> slot pe i;
     ps \<leftarrow> wr (processes pe) (nat i) (f it);
     Some (pe\<lparr>processes := ps\<rparr>) }"

text \<open>The effects of the environment that \<^verbatim>\<open>pin_process()\<close> depends on.\<close>

record environment =
  nprocs_conf :: nat
  topology :: "cpu_topology list option"
  malloc_ok :: bool
  setaffinity_ok :: "cpu_set \<Rightarrow> bool"

section \<open>Entering\<close>

definition find_empty_slot :: "part_exec \<Rightarrow> int" where
  "find_empty_slot pe =
     (case List.find (\<lambda>i. pid (processes pe ! i) = 0) [0..<MAX_PROCESSES] of None \<Rightarrow> -1 | Some i \<Rightarrow> int i)"

partial_function (option) find_prev :: "part_exec \<Rightarrow> int \<Rightarrow> int \<Rightarrow> int \<Rightarrow> int option" where
  "find_prev pe mypid i prev_i =
     (if i = -1 then Some prev_i
      else do {
        it \<leftarrow> slot pe i;
        if pid it > mypid then Some prev_i else find_prev pe mypid (next_process_ind it) i })"

definition add_to_list :: "part_exec \<Rightarrow> int \<Rightarrow> int \<Rightarrow> part_exec option" where
  "add_to_list pe mypid my_i =
     (if first_process_ind pe = -1 then Some (pe\<lparr>first_process_ind := my_i\<rparr>)
      else do {
        prev_i \<leftarrow> find_prev pe mypid (first_process_ind pe) (-1);
        if prev_i = -1 then do {
          pe' \<leftarrow> upd_slot pe my_i (\<lambda>it. it\<lparr>next_process_ind := first_process_ind pe\<rparr>);
          Some (pe'\<lparr>first_process_ind := my_i\<rparr>) }
        else do {
          prev \<leftarrow> slot pe prev_i;
          pe' \<leftarrow> upd_slot pe my_i (\<lambda>it. it\<lparr>next_process_ind := next_process_ind prev\<rparr>);
          upd_slot pe' prev_i (\<lambda>it. it\<lparr>next_process_ind := my_i\<rparr>) } })"

definition wake_first :: "part_exec \<Rightarrow> (part_exec \<times> int) option" where
  "wake_first pe = (let next_i = first_process_ind pe in do {
     it \<leftarrow> slot pe next_i;
     pe' \<leftarrow> upd_slot (pe\<lparr>first_process_ind := next_process_ind it\<rparr>) next_i (\<lambda>it. it\<lparr>ready := 1\<rparr>);
     Some (pe', next_i) })"

datatype entered = Refused int | Waits int | Proceeds int

definition pin_enter :: "part_exec \<Rightarrow> int \<Rightarrow> int \<Rightarrow> (part_exec \<times> int list \<times> entered) option" where
  "pin_enter pe mypid ppn =
     (let pe = (if nr_processes pe = -1 then pe\<lparr>nr_processes := ppn, nr_processes_left := ppn\<rparr> else pe) in
      if nr_processes pe \<noteq> ppn then Some (pe, [], Refused (- EINVAL))
      else
        let pe = pe\<lparr>nr_processes_left := nr_processes_left pe - 1\<rparr>; my_i = find_empty_slot pe in do {
          pe \<leftarrow> upd_slot pe my_i (\<lambda>it. it\<lparr>pid := mypid, ready := 0, timeout := 0, next_process_ind := -1\<rparr>);
          pe \<leftarrow> add_to_list pe mypid my_i;
          if nr_processes_left pe = 0 then do {
            (pe, next_i) \<leftarrow> wake_first pe;
            Some (pe\<lparr>nr_processes_left := nr_processes pe, process_rank := 0\<rparr>, [next_i],
                  if next_i \<noteq> my_i then Waits my_i else Proceeds my_i) }
          else Some (pe, [], if -1 \<noteq> my_i then Waits my_i else Proceeds my_i) })"

section \<open>After the wait\<close>

partial_function (option) abort_loop :: "part_exec \<Rightarrow> int \<Rightarrow> int list \<Rightarrow> (part_exec \<times> int list) option" where
  "abort_loop pe mypid signals =
     (if first_process_ind pe \<noteq> -1 then do {
        let i = first_process_ind pe;
        it \<leftarrow> slot pe i;
        let pe = pe\<lparr>first_process_ind := next_process_ind it\<rparr>;
        if pid it = mypid then abort_loop pe mypid signals
        else do {
          pe \<leftarrow> upd_slot pe i (\<lambda>it. it\<lparr>ready := 1, timeout := 1\<rparr>);
          abort_loop pe mypid (signals @ [i]) } }
      else Some (pe, signals))"

definition abort_all :: "part_exec \<Rightarrow> int \<Rightarrow> (part_exec \<times> int list \<times> int) option" where
  "abort_all pe mypid = do {
     (pe, signals) \<leftarrow> abort_loop pe mypid [];
     Some (pe\<lparr>nr_processes := -1\<rparr>, signals, - ETIMEDOUT) }"

definition finish :: "environment \<Rightarrow> part_exec \<Rightarrow> (part_exec \<times> int list \<times> int) option" where
  "finish env pe = do {
     (pe, signals) \<leftarrow>
       (if nr_processes_left pe = 0 then Some (pe\<lparr>nr_processes := -1, cpus_available := CPU_ZERO\<rparr>, [])
        else do { (pe, next_i) \<leftarrow> wake_first pe; Some (pe, [next_i]) });
     affinity \<leftarrow> (if 0 \<le> process_rank pe then rd (affinities pe) (nat (process_rank pe)) else None);
     if \<not> setaffinity_ok env affinity then Some (pe, signals, - EINVAL)
     else Some (pe\<lparr>process_rank := process_rank pe + 1\<rparr>, signals, process_rank pe) }"

definition proceed :: "environment \<Rightarrow> part_exec \<Rightarrow> int \<Rightarrow> (part_exec \<times> int list \<times> int) option" where
  "proceed env pe mypid =
     (let pe = pe\<lparr>nr_processes_left := nr_processes_left pe - 1\<rparr> in
      if process_rank pe = 0 then
        (case topology env of
           None \<Rightarrow> abort_all pe mypid
         | Some cpu_topology_list \<Rightarrow>
             if \<not> malloc_ok env then Some (pe, [], - ENOMEM)
             else do {
               (err, rank, avail, affs) \<leftarrow> assign_ranks (nprocs_conf env) cpu_topology_list (cpus_to_assign pe)
                 (nr_processes pe) 0 (cpus_available pe) (affinities pe);
               let pe = pe\<lparr>process_rank := rank, cpus_available := avail, affinities := affs\<rparr>;
               (case err of
                  Some e \<Rightarrow> Some (pe, [], e)
                | None \<Rightarrow> finish env (pe\<lparr>process_rank := 0\<rparr>)) })
      else finish env pe)"

text \<open>\<^verbatim>\<open>ret\<close> is what \<^verbatim>\<open>pthread_cond_timedwait()\<close> returned.\<close>

definition after_wait :: "environment \<Rightarrow> part_exec \<Rightarrow> int \<Rightarrow> int \<Rightarrow> int \<Rightarrow> (part_exec \<times> int list \<times> int) option" where
  "after_wait env pe mypid my_i ret =
     (if ret = ETIMEDOUT then abort_all pe mypid
      else do {
        pli \<leftarrow> slot pe my_i;
        if timeout pli \<noteq> 0 then Some (pe, [], - ETIMEDOUT)
        else if ready pli = 0 then Some (pe, [], - EINVAL)
        else proceed env pe mypid })"

section \<open>The process list\<close>

text \<open>\<open>lseg ps i xs j\<close>: following \<^verbatim>\<open>next_process_ind\<close> from \<open>i\<close> visits the slots \<open>xs\<close> and then reaches \<open>j\<close>.\<close>

fun lseg :: "process_list_item list \<Rightarrow> int \<Rightarrow> nat list \<Rightarrow> int \<Rightarrow> bool" where
  "lseg ps i [] j \<longleftrightarrow> i = j"
| "lseg ps i (x # xs) j \<longleftrightarrow> i = int x \<and> x < length ps \<and> lseg ps (next_process_ind (ps ! x)) xs j"

lemma lseg_append: "lseg ps i (xs @ ys) j \<longleftrightarrow> (\<exists>k. lseg ps i xs k \<and> lseg ps k ys j)"
  by (induction xs arbitrary: i) auto

lemma lseg_last:
  "xs \<noteq> [] \<Longrightarrow> lseg ps i xs j \<longleftrightarrow> lseg ps i (butlast xs) (int (last xs)) \<and> last xs < length ps \<and> next_process_ind (ps ! last xs) = j"
  by (induction xs arbitrary: i) auto

lemma lseg_cong:
  assumes "length ps' = length ps" "\<And>x. x \<in> set xs \<Longrightarrow> next_process_ind (ps' ! x) = next_process_ind (ps ! x)"
  shows "lseg ps' i xs j = lseg ps i xs j"
  using assms(2) by (induction xs arbitrary: i) (auto simp: assms(1))

lemma lseg_bound: "lseg ps i xs j \<Longrightarrow> x \<in> set xs \<Longrightarrow> x < length ps"
  by (induction xs arbitrary: i) auto

lemma lseg_end [simp]: "lseg ps (-1) xs (-1) \<longleftrightarrow> xs = []"
  by (cases xs) auto

lemma slot_in [mem_simps]: "x < length (processes pe) \<Longrightarrow> slot pe (int x) = Some (processes pe ! x)"
  by (simp add: slot_def rd_in del: rd_eq_Some)

lemma upd_slot_in [mem_simps]:
  "x < length (processes pe) \<Longrightarrow> upd_slot pe (int x) f = Some (pe\<lparr>processes := (processes pe)[x := f (processes pe ! x)]\<rparr>)"
  by (simp add: upd_slot_def slot_in wr_in del: wr_eq_Some)

lemma find_prev_eq:
  "lseg (processes pe) i xs (-1) \<Longrightarrow>
   find_prev pe me i prev =
     Some (if takeWhile (\<lambda>x. pid (processes pe ! x) \<le> me) xs = [] then prev
           else int (last (takeWhile (\<lambda>x. pid (processes pe ! x) \<le> me) xs)))"
proof (induction xs arbitrary: i prev)
  case Nil
  then show ?case by (simp add: find_prev.simps)
next
  case (Cons x xs)
  then have i: "i = int x" "x < length (processes pe)" by auto
  show ?case
  proof (cases "pid (processes pe ! x) \<le> me")
    case True
    have "find_prev pe me i prev = find_prev pe me (next_process_ind (processes pe ! x)) (int x)"
      using True i by (subst find_prev.simps) (simp add: slot_in)
    then show ?thesis using Cons True by simp
  next
    case False
    then show ?thesis using i by (subst find_prev.simps) (simp add: slot_in)
  qed
qed

text \<open>An update that changes only the list links.\<close>

definition same_but_links :: "part_exec \<Rightarrow> part_exec \<Rightarrow> bool" where
  "same_but_links pe pe' \<longleftrightarrow>
     pe' = pe\<lparr>processes := processes pe', first_process_ind := first_process_ind pe'\<rparr> \<and>
     length (processes pe') = length (processes pe) \<and>
     (\<forall>x < length (processes pe). processes pe' ! x = (processes pe ! x)\<lparr>next_process_ind := next_process_ind (processes pe' ! x)\<rparr>)"

lemma add_to_list_eq:
  fixes pe :: part_exec and me :: int
  assumes chain: "lseg (processes pe) (first_process_ind pe) xs (-1)" and "distinct xs"
    and m: "m < length (processes pe)" "m \<notin> set xs" "next_process_ind (processes pe ! m) = -1"
  defines "P \<equiv> \<lambda>x. pid (processes pe ! x) \<le> me"
  shows "\<exists>pe'. add_to_list pe me (int m) = Some pe' \<and> same_but_links pe pe' \<and>
    lseg (processes pe') (first_process_ind pe') (takeWhile P xs @ m # dropWhile P xs) (-1)"
proof (cases "xs = []")
  case True
  then have "first_process_ind pe = -1" using chain by simp
  then show ?thesis using True m by (intro exI) (auto simp: add_to_list_def same_but_links_def)
next
  case ne: False
  then have first: "first_process_ind pe \<noteq> -1" using chain by (cases xs) auto
  let ?t = "takeWhile P xs" and ?d = "dropWhile P xs"
  have xs: "xs = ?t @ ?d" by simp
  have find: "find_prev pe me (first_process_ind pe) (-1) = Some (if ?t = [] then -1 else int (last ?t))"
    unfolding P_def by (rule find_prev_eq [OF chain])
  show ?thesis
  proof (cases "?t = []")
    case True
    let ?ps = "(processes pe)[m := (processes pe ! m)\<lparr>next_process_ind := first_process_ind pe\<rparr>]"
    have d: "?d = xs" using True by (metis takeWhile_eq_Nil_iff dropWhile_eq_Cons_conv list.exhaust_sel dropWhile_eq_Nil_conv xs append_Nil)
    have "lseg ?ps (first_process_ind pe) xs (-1)"
      using chain m(2) by (subst lseg_cong [of _ "processes pe"]) (simp, metis nth_list_update_neq, simp)
    then show ?thesis
      using True first find m by (auto simp: add_to_list_def slot_in upd_slot_in d same_but_links_def nth_list_update)
  next
    case False
    let ?p = "last ?t"
    have p: "?p \<in> set xs" using False by (metis last_in_set set_takeWhileD)
    then have pl: "?p < length (processes pe)" "?p \<noteq> m" using lseg_bound [OF chain] m(2) by auto
    obtain k where seg: "lseg (processes pe) (first_process_ind pe) ?t k" "lseg (processes pe) k ?d (-1)"
      using chain by (subst (asm) xs) (auto simp only: lseg_append)
    then have k: "k = next_process_ind (processes pe ! ?p)"
      and but: "lseg (processes pe) (first_process_ind pe) (butlast ?t) (int ?p)"
      using lseg_last [OF False] by auto
    let ?ps1 = "(processes pe)[m := (processes pe ! m)\<lparr>next_process_ind := k\<rparr>]"
    let ?ps = "?ps1[?p := (?ps1 ! ?p)\<lparr>next_process_ind := int m\<rparr>]"
    have add: "add_to_list pe me (int m) = Some (pe\<lparr>processes := ?ps\<rparr>)"
      using first find False pl m k by (simp add: add_to_list_def slot_in upd_slot_in)
    have disj: "set ?t \<inter> set ?d = {}" and dt: "distinct ?t"
      using assms(2) by (metis xs distinct_append)+
    have "distinct (butlast ?t @ [?p])" using dt False by simp
    then have nb: "?p \<notin> set (butlast ?t)" by simp
    have sub: "set ?t \<subseteq> set xs" "set ?d \<subseteq> set xs" by (auto dest: set_takeWhileD set_dropWhileD)
    have next_m: "next_process_ind (?ps ! m) = k" and next_p: "next_process_ind (?ps ! ?p) = int m"
      using pl m by (simp_all add: nth_list_update)
    have same: "next_process_ind (?ps ! x) = next_process_ind (processes pe ! x)" if "x \<noteq> m" "x \<noteq> ?p" for x
      using that by (simp add: nth_list_update)
    have "lseg ?ps (first_process_ind pe) (butlast ?t) (int ?p)"
    proof (subst lseg_cong [of _ "processes pe"])
      show "next_process_ind (?ps ! x) = next_process_ind (processes pe ! x)" if "x \<in> set (butlast ?t)" for x
        using that nb sub(1) m(2) in_set_butlastD [OF that] by (intro same) auto
    qed (use but in simp_all)
    then have "lseg ?ps (first_process_ind pe) ?t (int m)"
      using pl next_p by (subst lseg_last [OF False]) simp
    moreover have "lseg ?ps k ?d (-1)"
    proof (subst lseg_cong [of _ "processes pe"])
      show "next_process_ind (?ps ! x) = next_process_ind (processes pe ! x)" if "x \<in> set ?d" for x
        using that sub(2) m(2) disj last_in_set [OF False] by (intro same) auto
    qed (use seg(2) in simp_all)
    ultimately have "lseg ?ps (first_process_ind pe) (?t @ m # ?d) (-1)"
      using m(1) next_m by (auto simp: lseg_append intro!: exI [of _ "int m"])
    moreover have "same_but_links pe (pe\<lparr>processes := ?ps\<rparr>)"
      using pl m by (auto simp: same_but_links_def nth_list_update)
    ultimately show ?thesis using add by auto
  qed
qed

end
