(* ===== verification/Protocol.thy ===== *)
theory Protocol
  imports Pin_Process
begin

text \<open>
  The protocol of the processes of a node: every process calls \<^verbatim>\<open>pin_process()\<close> once. A step is one
  critical section of one process; the environment chooses which process runs next, whether
  \<^verbatim>\<open>pthread_cond_timedwait()\<close> returns because of a signal, spuriously, or after the timeout.
  A condition variable is the set \<open>signalled\<close> of the slots with a pending signal.
  The lemmas show that every run without timeouts and spurious wake-ups (\<open>calm\<close>) refines an abstract
  machine that first gathers all processes and then hands out the ranks in PID order.
\<close>

section \<open>The processes of a node\<close>

datatype status = Absent | Not_entered | Waiting int | Returned int

record config =
  shm :: part_exec
  status :: "int \<Rightarrow> status"
  signalled :: "int set"

datatype label = Enter int | Wake int | Spurious int | Timeout int

inductive step :: "environment \<Rightarrow> (int \<Rightarrow> int) \<Rightarrow> config \<Rightarrow> label \<Rightarrow> config \<Rightarrow> bool"
  for env :: environment and ppn :: "int \<Rightarrow> int" where
  enter_refused:
    "status c p = Not_entered \<Longrightarrow> pin_enter (shm c) p (ppn p) = Some (pe, sig, Refused e) \<Longrightarrow>
     step env ppn c (Enter p) (c\<lparr>shm := pe, status := (status c)(p := Returned e)\<rparr>)"
| enter_waits:
    "status c p = Not_entered \<Longrightarrow> pin_enter (shm c) p (ppn p) = Some (pe, sig, Waits i) \<Longrightarrow>
     step env ppn c (Enter p) (c\<lparr>shm := pe, status := (status c)(p := Waiting i), signalled := signalled c \<union> set sig\<rparr>)"
| enter_proceeds:
    "status c p = Not_entered \<Longrightarrow> pin_enter (shm c) p (ppn p) = Some (pe, sig, Proceeds i) \<Longrightarrow>
     proceed env pe p = Some (pe', sig', r) \<Longrightarrow>
     step env ppn c (Enter p)
       (c\<lparr>shm := pe', status := (status c)(p := Returned r), signalled := signalled c \<union> (set sig - {i}) \<union> set sig'\<rparr>)"
| wake:
    "status c p = Waiting i \<Longrightarrow> i \<in> signalled c \<Longrightarrow> after_wait env (shm c) p i 0 = Some (pe, sig, r) \<Longrightarrow>
     step env ppn c (Wake p)
       (c\<lparr>shm := pe, status := (status c)(p := Returned r), signalled := (signalled c - {i}) \<union> set sig\<rparr>)"
| spurious:
    "status c p = Waiting i \<Longrightarrow> i \<notin> signalled c \<Longrightarrow> after_wait env (shm c) p i 0 = Some (pe, sig, r) \<Longrightarrow>
     step env ppn c (Spurious p)
       (c\<lparr>shm := pe, status := (status c)(p := Returned r), signalled := signalled c \<union> set sig\<rparr>)"
| timed_out:
    "status c p = Waiting i \<Longrightarrow> after_wait env (shm c) p i ETIMEDOUT = Some (pe, sig, r) \<Longrightarrow>
     step env ppn c (Timeout p)
       (c\<lparr>shm := pe, status := (status c)(p := Returned r), signalled := (signalled c - {i}) \<union> set sig\<rparr>)"

text \<open>A calm step is one without timeouts and spurious wake-ups.\<close>

fun calm_label :: "label \<Rightarrow> bool" where
  "calm_label (Enter p) = True"
| "calm_label (Wake p) = True"
| "calm_label _ = False"

definition calm :: "environment \<Rightarrow> (int \<Rightarrow> int) \<Rightarrow> config \<Rightarrow> config \<Rightarrow> bool" where
  "calm env ppn c c' \<longleftrightarrow> (\<exists>l. calm_label l \<and> step env ppn c l c')"

text \<open>The shared memory as the first process initialises it, and the processes of one run.\<close>

definition empty_slot :: process_list_item where
  "empty_slot = \<lparr>ready = 0, timeout = 0, pid = 0, start_ts = 0, next_process_ind = -1\<rparr>"

definition initial_pe :: "cpu_set \<Rightarrow> int \<Rightarrow> part_exec" where
  "initial_pe avail k = \<lparr>nr_processes = -1, nr_processes_left = -1, nr_processes_left_in_init = 0,
     process_rank = 0, cpus_used = CPU_ZERO, cpus_available = avail, cpus_to_assign = k, first_process_ind = -1,
     processes = replicate MAX_PROCESSES empty_slot, affinities = replicate MAX_PROCESSES CPU_ZERO\<rparr>"

definition initial :: "int set \<Rightarrow> cpu_set \<Rightarrow> int \<Rightarrow> config" where
  "initial P avail k = \<lparr>shm = initial_pe avail k, status = (\<lambda>p. if p \<in> P then Not_entered else Absent), signalled = {}\<rparr>"

section \<open>A turn of the draining phase\<close>

definition good_env :: "environment \<Rightarrow> nat \<Rightarrow> cpu_set \<Rightarrow> int \<Rightarrow> bool" where
  "good_env env n avail k \<longleftrightarrow>
     nprocs_conf env \<le> 1024 \<and> malloc_ok env \<and> wf_cpus avail \<and> n * nat (max 1 k) \<le> card (cpus_of avail) \<and>
     (\<exists>tops. topology env = Some tops \<and> wf_topology tops \<and> covers tops (cpus_of avail)) \<and>
     (\<forall>s. wf_cpus s \<and> cpus_of s \<noteq> {} \<and> cpus_of s \<subseteq> cpus_of avail \<longrightarrow> setaffinity_ok env s)"

text \<open>The processes \<open>E\<close> own the slots \<open>w\<close>; every other slot is empty.\<close>

definition laid :: "part_exec \<Rightarrow> int set \<Rightarrow> (int \<Rightarrow> nat) \<Rightarrow> bool" where
  "laid pe E w \<longleftrightarrow> length (processes pe) = MAX_PROCESSES \<and> length (affinities pe) = MAX_PROCESSES \<and> inj_on w E \<and>
     (\<forall>p \<in> E. w p < MAX_PROCESSES \<and> pid (processes pe ! w p) = p \<and> timeout (processes pe ! w p) = 0) \<and>
     (\<forall>s < MAX_PROCESSES. s \<notin> w ` E \<longrightarrow> pid (processes pe ! s) = 0)"

text \<open>\<open>turn L w avail k i pe\<close>: the first \<open>i\<close> processes of the order \<open>L\<close> are done and process \<open>L ! i\<close> runs next.\<close>

definition turn :: "int list \<Rightarrow> (int \<Rightarrow> nat) \<Rightarrow> cpu_set \<Rightarrow> int \<Rightarrow> nat \<Rightarrow> part_exec \<Rightarrow> bool" where
  "turn L w avail k i pe \<longleftrightarrow> laid pe (set L) w \<and>
     lseg (processes pe) (first_process_ind pe) (map w (drop (Suc i) L)) (-1) \<and>
     (\<forall>j. i < j \<and> j < length L \<longrightarrow> ready (processes pe ! w (L ! j)) = 0) \<and>
     (i < length L \<longrightarrow> ready (processes pe ! w (L ! i)) = 1) \<and>
     nr_processes_left pe = int (length L) - int i \<and> process_rank pe = int i \<and>
     nr_processes pe = (if i < length L then int (length L) else -1) \<and> cpus_to_assign pe = k \<and>
     (if i = 0 then cpus_available pe = avail
      else \<exists>affs0 avail'. committed k 0 (length L) avail affs0 avail' (affinities pe))"

lemma drop_Suc_map: "Suc i < length L \<Longrightarrow> map w (drop (Suc i) L) = w (L ! Suc i) # map w (drop (Suc (Suc i)) L)"
  by (metis Cons_nth_drop_Suc list.simps(9))

lemma laid_update:
  assumes "laid pe E w" "processes pe' = (processes pe)[x := f (processes pe ! x)]"
    and "length (affinities pe') = length (affinities pe)" "\<And>it. pid (f it) = pid it" "\<And>it. timeout (f it) = timeout it"
  shows "laid pe' E w"
proof -
  have "pid (processes pe' ! s) = pid (processes pe ! s) \<and> timeout (processes pe' ! s) = timeout (processes pe ! s)" for s
    using assms(2,4,5) by (cases "x < length (processes pe)") (auto simp: nth_list_update list_update_beyond not_less)
  then show ?thesis using assms(1,2,3) by (simp add: laid_def)
qed

lemma turn_finish:
  assumes L: "distinct L" "i < length L" and env: "good_env env (length L) avail k"
    and t: "turn L w avail k i pe0"
    and pe: "pe = pe0\<lparr>nr_processes_left := nr_processes_left pe0 - 1, cpus_available := av, affinities := affs\<rparr>"
    and affs: "committed k 0 (length L) avail affs0 avail' affs" "length affs = MAX_PROCESSES"
  shows "\<exists>pe'. finish env pe = Some (pe', if Suc i < length L then [int (w (L ! Suc i))] else [], int i) \<and>
    turn L w avail k (Suc i) pe'"
proof -
  have m: "Suc i * nat (max 1 k) \<le> card (cpus_of avail)"
    using env L(2) mult_le_mono1 [of "Suc i" "length L" "nat (max 1 k)"] by (simp add: good_env_def)
  then have "nat (max 1 k) \<le> card (cpus_of avail) - i * nat (max 1 k)" by simp
  then have "card (cpus_of (affs ! i)) > 0" using committedD(9) [OF affs(1), of i] L(2) by simp
  then have "cpus_of (affs ! i) \<noteq> {}" by auto
  moreover have "cpus_of (affs ! i) \<subseteq> cpus_of avail" "wf_cpus (affs ! i)"
    using committedD(7) [OF affs(1)] committedD(5) [OF affs(1), of i] L(2) by auto
  ultimately have ok: "setaffinity_ok env (affs ! i)" using env by (simp add: good_env_def)
  have laid: "laid pe (set L) w" using t affs(2) by (simp add: turn_def laid_def pe)
  have i: "i < length affs" using committedD(2,5) [OF affs(1)] L(2) by auto
  show ?thesis
  proof (cases "Suc i < length L")
    case False
    then have "nr_processes_left pe = 0" using t L(2) by (simp add: turn_def pe)
    moreover have "first_process_ind pe0 = -1" using t False by (simp add: turn_def)
    ultimately show ?thesis
      using t False laid affs ok i by (auto simp: finish_def turn_def pe laid_def rd_in simp del: rd_eq_Some)
  next
    case True
    let ?x = "w (L ! Suc i)"
    have left: "nr_processes_left pe \<noteq> 0" using t True by (simp add: turn_def pe)
    have seg: "lseg (processes pe) (first_process_ind pe) (?x # map w (drop (Suc (Suc i)) L)) (-1)"
      using t True by (simp add: turn_def pe drop_Suc_map)
    then have x: "first_process_ind pe = int ?x" "?x < length (processes pe)" by simp_all
    let ?f = "\<lambda>it. it\<lparr>ready := 1\<rparr>"
    let ?ps = "(processes pe)[?x := ?f (processes pe ! ?x)]"
    let ?pe = "pe\<lparr>first_process_ind := next_process_ind (processes pe ! ?x), processes := ?ps, process_rank := int (Suc i)\<rparr>"
    have fin: "finish env pe = Some (?pe, [int ?x], int i)"
      using left x t ok i by (simp add: finish_def wake_first_def slot_in upd_slot_in turn_def pe rd_in add.commute del: rd_eq_Some)
    have inj: "w (L ! j) \<noteq> ?x" if "j \<noteq> Suc i" "j < length L" for j
    proof
      assume eq: "w (L ! j) = ?x"
      have "inj_on w (set L)" using t by (simp add: turn_def laid_def)
      from inj_onD [OF this eq] have "L ! j = L ! Suc i" using that True by simp
      then show False using that True L(1) by (simp add: nth_eq_iff_index_eq)
    qed
    have "lseg ?ps (next_process_ind (processes pe ! ?x)) (map w (drop (Suc (Suc i)) L)) (-1)"
    proof (subst lseg_cong [of _ "processes pe"])
      show "next_process_ind (?ps ! y) = next_process_ind (processes pe ! y)" for y
        using x(2) by (cases "y = ?x") (simp_all add: nth_list_update)
    qed (use seg in simp_all)
    moreover have "laid ?pe (set L) w" by (rule laid_update [OF laid, where x = ?x and f = ?f]) simp_all
    moreover have "ready (?ps ! w (L ! j)) = 0" if "Suc i < j" "j < length L" for j
      using t that inj [of j] by (simp add: turn_def pe)
    ultimately have "turn L w avail k (Suc i) ?pe"
      using t True x affs by (auto simp: turn_def pe)
    then show ?thesis using fin True by auto
  qed
qed


lemma proceed_turn:
  assumes L: "distinct L" "i < length L" "length L \<le> MAX_PROCESSES" and env: "good_env env (length L) avail k"
    and t: "turn L w avail k i pe"
  shows "\<exists>pe'. proceed env pe mypid = Some (pe', if Suc i < length L then [int (w (L ! Suc i))] else [], int i) \<and>
    turn L w avail k (Suc i) pe'"
proof (cases "i = 0")
  case False
  then obtain affs0 avail' where "committed k 0 (length L) avail affs0 avail' (affinities pe)"
    using t by (auto simp: turn_def)
  moreover have "length (affinities pe) = MAX_PROCESSES" using t by (simp add: turn_def laid_def)
  ultimately show ?thesis
    using turn_finish [OF L(1,2) env t refl, of affs0 avail' "affinities pe" "cpus_available pe"] t False
    by (simp add: proceed_def turn_def)
next
  case True
  obtain tops where tops: "topology env = Some tops" "wf_topology tops" "covers tops (cpus_of avail)"
    and e: "nprocs_conf env \<le> 1024" "malloc_ok env" "wf_cpus avail" "length L * nat (max 1 k) \<le> card (cpus_of avail)"
    using env by (auto simp: good_env_def)
  have len: "length (affinities pe) = MAX_PROCESSES" using t by (simp add: turn_def laid_def)
  then have "\<exists>av affs. assign_ranks (nprocs_conf env) tops k (int (length L)) (int 0) avail (affinities pe) =
      Some (None, int (length L), av, affs)"
    using e tops L(3) by (intro assign_ranks_total) simp_all
  then obtain av affs where as:
    "assign_ranks (nprocs_conf env) tops k (int (length L)) 0 avail (affinities pe) = Some (None, int (length L), av, affs)"
    by auto
  have comm: "committed k 0 (length L) avail (affinities pe) av affs"
    using assign_ranks_sound [OF e(1) tops(2) e(3), of k "int (length L)" 0 "affinities pe" None "int (length L)" av affs] as
    by auto
  have r: "process_rank pe = 0" "nr_processes pe = int (length L)" "cpus_to_assign pe = k" "cpus_available pe = avail"
    using t True L(2) by (auto simp: turn_def)
  have eq: "pe\<lparr>nr_processes_left := nr_processes_left pe - 1, cpus_available := av,
      affinities := affs, process_rank := 0\<rparr> =
      pe\<lparr>nr_processes_left := nr_processes_left pe - 1, cpus_available := av, affinities := affs\<rparr>"
    using r(1) by simp
  have "proceed env pe mypid = finish env (pe\<lparr>nr_processes_left := nr_processes_left pe - 1, cpus_available := av,
      affinities := affs, process_rank := 0\<rparr>)"
    using as r tops(1) e(2) by (simp add: proceed_def)
  also note eq
  finally show ?thesis
    using turn_finish [OF L(1,2) env t refl comm, of av] committedD(2) [OF comm] len by simp
qed

lemma after_wait_turn:
  assumes L: "distinct L" "i < length L" "length L \<le> MAX_PROCESSES" and env: "good_env env (length L) avail k"
    and t: "turn L w avail k i pe"
  shows "\<exists>pe'. after_wait env pe mypid (int (w (L ! i))) 0 =
      Some (pe', if Suc i < length L then [int (w (L ! Suc i))] else [], int i) \<and> turn L w avail k (Suc i) pe'"
proof -
  have "w (L ! i) < length (processes pe)" "timeout (processes pe ! w (L ! i)) = 0" "ready (processes pe ! w (L ! i)) = 1"
    using t L(2) by (auto simp: turn_def laid_def)
  then have "after_wait env pe mypid (int (w (L ! i))) 0 = proceed env pe mypid"
    by (simp add: after_wait_def ETIMEDOUT_def slot_in)
  then show ?thesis using proceed_turn [OF assms, of mypid] by simp
qed

section \<open>Gathering\<close>

definition gathered :: "nat \<Rightarrow> int set \<Rightarrow> (int \<Rightarrow> nat) \<Rightarrow> cpu_set \<Rightarrow> int \<Rightarrow> part_exec \<Rightarrow> bool" where
  "gathered n E w avail k pe \<longleftrightarrow> laid pe E w \<and>
     lseg (processes pe) (first_process_ind pe) (map w (sorted_list_of_set E)) (-1) \<and>
     (\<forall>p \<in> E. ready (processes pe ! w p) = 0) \<and>
     nr_processes pe = (if E = {} then -1 else int n) \<and> (E \<noteq> {} \<longrightarrow> nr_processes_left pe = int n - int (card E)) \<and>
     cpus_available pe = avail \<and> cpus_to_assign pe = k"

lemma insort_split:
  "sorted L \<Longrightarrow> p \<notin> set L \<Longrightarrow> insort p L = takeWhile (\<lambda>x. x \<le> p) L @ p # dropWhile (\<lambda>x. x \<le> p) L"
  by (induction L) auto

lemma takeWhile_cong_map:
  "(\<And>x. x \<in> set L \<Longrightarrow> P (w x) = Q x) \<Longrightarrow> takeWhile P (map w L) = map w (takeWhile Q L)"
  by (induction L) auto

lemma dropWhile_cong_map:
  "(\<And>x. x \<in> set L \<Longrightarrow> P (w x) = Q x) \<Longrightarrow> dropWhile P (map w L) = map w (dropWhile Q L)"
  by (induction L) auto

lemma find_empty_slot_laid:
  assumes "laid pe E w" "finite E" "card E < MAX_PROCESSES" "0 \<notin> E"
  shows "\<exists>s < MAX_PROCESSES. find_empty_slot pe = int s \<and> s \<notin> w ` E"
proof -
  have "card (w ` E) < card {..<MAX_PROCESSES}" using card_image_le [OF assms(2), of w] assms(3) by simp
  then have "\<not> {..<MAX_PROCESSES} \<subseteq> w ` E"
    using card_mono [of "w ` E" "{..<MAX_PROCESSES}"] assms(2) by fastforce
  then obtain s where "s < MAX_PROCESSES" "s \<notin> w ` E" by blast
  then have "pid (processes pe ! s) = 0" using assms(1) by (simp add: laid_def)
  then obtain i where i: "List.find (\<lambda>i. pid (processes pe ! i) = 0) [0..<MAX_PROCESSES] = Some i"
    using \<open>s < MAX_PROCESSES\<close> by (cases "List.find (\<lambda>i. pid (processes pe ! i) = 0) [0..<MAX_PROCESSES]") (auto simp: find_None_iff)
  then have "i < MAX_PROCESSES" "pid (processes pe ! i) = 0" by (auto simp: find_Some_iff)
  moreover have "i \<notin> w ` E"
    using calculation assms(1,4) by (auto simp: laid_def)
  ultimately show ?thesis using i by (auto simp: find_empty_slot_def)
qed


lemma same_but_linksD:
  assumes "same_but_links pe pe'"
  shows "length (processes pe') = length (processes pe)" "affinities pe' = affinities pe"
    "nr_processes pe' = nr_processes pe" "nr_processes_left pe' = nr_processes_left pe"
    "cpus_available pe' = cpus_available pe" "cpus_to_assign pe' = cpus_to_assign pe" "process_rank pe' = process_rank pe"
    "x < length (processes pe) \<Longrightarrow> pid (processes pe' ! x) = pid (processes pe ! x)"
    "x < length (processes pe) \<Longrightarrow> ready (processes pe' ! x) = ready (processes pe ! x)"
    "x < length (processes pe) \<Longrightarrow> timeout (processes pe' ! x) = timeout (processes pe ! x)"
proof -
  have *: "pe' = pe\<lparr>processes := processes pe', first_process_ind := first_process_ind pe'\<rparr>"
      "length (processes pe') = length (processes pe)"
      "\<forall>x < length (processes pe). processes pe' ! x = (processes pe ! x)\<lparr>next_process_ind := next_process_ind (processes pe' ! x)\<rparr>"
    using assms unfolding same_but_links_def by blast+
  show "length (processes pe') = length (processes pe)" by (rule *(2))
  show "affinities pe' = affinities pe" "nr_processes pe' = nr_processes pe" "nr_processes_left pe' = nr_processes_left pe"
    "cpus_available pe' = cpus_available pe" "cpus_to_assign pe' = cpus_to_assign pe" "process_rank pe' = process_rank pe"
    by (subst *(1), simp)+
  assume x: "x < length (processes pe)"
  show "pid (processes pe' ! x) = pid (processes pe ! x)" "ready (processes pe' ! x) = ready (processes pe ! x)"
    "timeout (processes pe' ! x) = timeout (processes pe ! x)"
    by (subst *(3) [rule_format, OF x], simp)+
qed

lemma insert_gathered:
  assumes g: "gathered n E w avail k pe" and E: "finite E" "p \<notin> E" "card E < n" "n \<le> MAX_PROCESSES" "0 \<notin> E"
    and peA: "peA = pe\<lparr>nr_processes := int n, nr_processes_left := int n - int (card E) - 1\<rparr>"
  shows "\<exists>s peB peC. find_empty_slot peA = int s \<and>
    upd_slot peA (int s) (\<lambda>it. it\<lparr>pid := p, ready := 0, timeout := 0, next_process_ind := -1\<rparr>) = Some peB \<and>
    add_to_list peB p (int s) = Some peC \<and> gathered n (insert p E) (w(p := s)) avail k peC"
proof -
  let ?L = "sorted_list_of_set E"
  have laidA: "laid peA E w" using g by (simp add: gathered_def laid_def peA)
  then obtain s where s: "s < MAX_PROCESSES" "find_empty_slot peA = int s" "s \<notin> w ` E"
    using find_empty_slot_laid [of peA E w] E by auto
  have len: "length (processes peA) = MAX_PROCESSES" using laidA by (simp add: laid_def)
  define it where "it = (processes peA ! s)\<lparr>pid := p, ready := 0, timeout := 0, next_process_ind := -1\<rparr>"
  define peB where "peB = peA\<lparr>processes := (processes peA)[s := it]\<rparr>"
  have updB: "upd_slot peA (int s) (\<lambda>it. it\<lparr>pid := p, ready := 0, timeout := 0, next_process_ind := -1\<rparr>) = Some peB"
    using s(1) len by (simp add: upd_slot_in peB_def it_def)
  have psB: "processes peB ! x = (if x = s then it else processes peA ! x)" if "x < MAX_PROCESSES" for x
    using that len by (simp add: peB_def)
  have w: "w q < MAX_PROCESSES" "w q \<noteq> s" "pid (processes peB ! w q) = q" "ready (processes peB ! w q) = 0"
      "timeout (processes peB ! w q) = 0" if "q \<in> E" for q
    using g s(3) that psB [of "w q"] by (auto simp: gathered_def laid_def peA)
  have "lseg (processes peA) (first_process_ind peA) (map w ?L) (-1)"
    using g by (simp add: gathered_def peA)
  then have chainB: "lseg (processes peB) (first_process_ind peB) (map w ?L) (-1)"
  proof (subst lseg_cong [of _ "processes peA"])
    show "next_process_ind (processes peB ! x) = next_process_ind (processes peA ! x)" if "x \<in> set (map w ?L)" for x
      using that w(1,2) psB E(1) by auto
  qed (simp_all add: peB_def)
  have dist: "distinct (map w ?L)"
    using laidA E(1) by (simp add: distinct_map laid_def)
  have mB: "s < length (processes peB)" "s \<notin> set (map w ?L)" "next_process_ind (processes peB ! s) = -1"
    using s len E(1) psB [OF s(1)] by (simp_all add: peB_def it_def)
  obtain peC where add: "add_to_list peB p (int s) = Some peC" and same: "same_but_links peB peC"
    and chainC: "lseg (processes peC) (first_process_ind peC)
       (takeWhile (\<lambda>x. pid (processes peB ! x) \<le> p) (map w ?L) @ s # dropWhile (\<lambda>x. pid (processes peB ! x) \<le> p) (map w ?L)) (-1)"
    using add_to_list_eq [OF chainB dist mB, of p] by blast
  have "sorted_list_of_set (insert p E) = insort p ?L" using E by (simp add: sorted_list_of_set_insert)
  also have "\<dots> = takeWhile (\<lambda>x. x \<le> p) ?L @ p # dropWhile (\<lambda>x. x \<le> p) ?L" using E by (intro insort_split) auto
  finally have "map (w(p := s)) (sorted_list_of_set (insert p E)) =
      map w (takeWhile (\<lambda>x. x \<le> p) ?L) @ s # map w (dropWhile (\<lambda>x. x \<le> p) ?L)"
    using E by (auto dest: set_takeWhileD set_dropWhileD)
  also have "map w (takeWhile (\<lambda>x. x \<le> p) ?L) = takeWhile (\<lambda>x. pid (processes peB ! x) \<le> p) (map w ?L)"
    using w(3) E(1) by (intro takeWhile_cong_map [symmetric]) auto
  also have "map w (dropWhile (\<lambda>x. x \<le> p) ?L) = dropWhile (\<lambda>x. pid (processes peB ! x) \<le> p) (map w ?L)"
    using w(3) E(1) by (intro dropWhile_cong_map [symmetric]) auto
  finally have chain: "lseg (processes peC) (first_process_ind peC) (map (w(p := s)) (sorted_list_of_set (insert p E))) (-1)"
    using chainC by (simp only:)
  note same = same_but_linksD [OF same]
  have lenB: "length (processes peB) = MAX_PROCESSES" using len by (simp add: peB_def)
  have "inj_on (w(p := s)) (insert p E)"
    using laidA s(3) E(2) by (auto simp: laid_def inj_on_def image_iff)
  moreover have "pid (processes peC ! x) = 0" if "x < MAX_PROCESSES" "x \<notin> (w(p := s)) ` insert p E" for x
  proof -
    have "x \<noteq> s" "x \<notin> w ` E" using that(2) E(2) by auto
    then show ?thesis using that(1) laidA psB [OF that(1)] same(8) [of x] lenB by (simp add: laid_def)
  qed
  moreover have "affinities peB = affinities pe" by (simp add: peB_def peA)
  ultimately have "laid peC (insert p E) (w(p := s))"
    using same lenB w s(1) laidA E(2) psB [OF s(1)] by (auto simp: laid_def it_def peA)
  moreover have "\<forall>q \<in> insert p E. ready (processes peC ! (w(p := s)) q) = 0"
    using same lenB w s(1) E(2) psB [OF s(1)] by (auto simp: it_def)
  ultimately have "gathered n (insert p E) (w(p := s)) avail k peC"
    using chain same g E by (simp add: gathered_def peB_def peA card_insert_if)
  then show ?thesis using s updB add by blast
qed


lemma pin_enter_gathered:
  assumes g: "gathered n E w avail k pe" and E: "finite E" "p \<notin> E" "card E < n" "n \<le> MAX_PROCESSES" "0 \<notin> E"
  defines "L \<equiv> sorted_list_of_set (insert p E)"
  shows "\<exists>s pe'. if Suc (card E) < n
    then pin_enter pe p (int n) = Some (pe', [], Waits (int s)) \<and> gathered n (insert p E) (w(p := s)) avail k pe'
    else pin_enter pe p (int n) = Some (pe', [int ((w(p := s)) (L ! 0))], if L ! 0 = p then Proceeds (int s) else Waits (int s)) \<and>
      turn L (w(p := s)) avail k 0 pe'"
proof -
  let ?peA = "pe\<lparr>nr_processes := int n, nr_processes_left := int n - int (card E) - 1\<rparr>"
  obtain s peB peC where A: "find_empty_slot ?peA = int s"
      "upd_slot ?peA (int s) (\<lambda>it. it\<lparr>pid := p, ready := 0, timeout := 0, next_process_ind := -1\<rparr>) = Some peB"
      "add_to_list peB p (int s) = Some peC" and gC: "gathered n (insert p E) (w(p := s)) avail k peC"
    using insert_gathered [OF g E refl] by blast
  let ?pe1 = "if nr_processes pe = -1 then pe\<lparr>nr_processes := int n, nr_processes_left := int n\<rparr> else pe"
  have e0: "E = {} \<Longrightarrow> nr_processes pe = -1" and e1: "E \<noteq> {} \<Longrightarrow> nr_processes pe = int n \<and> nr_processes_left pe = int n - int (card E)"
    using g by (auto simp: gathered_def)
  have n: "nr_processes ?pe1 = int n" and pe1: "?pe1\<lparr>nr_processes_left := nr_processes_left ?pe1 - 1\<rparr> = ?peA"
    using e0 e1 by (cases "E = {}"; simp)+
  let ?w = "w(p := s)"
  have left: "nr_processes_left peC = int n - int (Suc (card E))" "nr_processes peC = int n"
    using gC E by (simp_all add: gathered_def)
  have enter: "pin_enter pe p (int n) = (if nr_processes_left peC = 0 then do {
        (pe, next_i) \<leftarrow> wake_first peC;
        Some (pe\<lparr>nr_processes_left := nr_processes pe, process_rank := 0\<rparr>, [next_i],
              if next_i \<noteq> int s then Waits (int s) else Proceeds (int s)) }
      else Some (peC, [], Waits (int s)))"
    unfolding pin_enter_def Let_def pe1 by (simp only: n A) (simp add: A(3))
  show ?thesis
  proof (cases "Suc (card E) < n")
    case True
    then show ?thesis using enter left gC by auto
  next
    case False
    then have cn: "card (insert p E) = n" using E by simp
    have fin: "finite (insert p E)" using E(1) by simp
    have L: "set L = insert p E" "distinct L" "length L = n"
      unfolding L_def set_sorted_list_of_set [OF fin] length_sorted_list_of_set cn by (rule refl distinct_sorted_list_of_set)+
    then have L: "set L = insert p E" "distinct L" "length L = n" "L \<noteq> []" by auto
    then have hd: "L = L ! 0 # drop 1 L" by (cases L) simp_all
    let ?x = "?w (L ! 0)"
    have avk: "cpus_available peC = avail" "cpus_to_assign peC = k" using gC by (simp_all add: gathered_def)
    have chain: "lseg (processes peC) (first_process_ind peC) (map ?w L) (-1)" and laidC: "laid peC (set L) ?w"
      using gC L(1) by (simp_all add: gathered_def L_def)
    then have x: "first_process_ind peC = int ?x" "?x < length (processes peC)"
      and rest: "lseg (processes peC) (next_process_ind (processes peC ! ?x)) (map ?w (drop 1 L)) (-1)"
      by (subst (asm) hd, simp)+
    let ?f = "\<lambda>it. it\<lparr>ready := 1\<rparr>"
    let ?ps = "(processes peC)[?x := ?f (processes peC ! ?x)]"
    let ?pe = "peC\<lparr>first_process_ind := next_process_ind (processes peC ! ?x), processes := ?ps,
        nr_processes_left := int n, process_rank := 0\<rparr>"
    have wake: "wake_first peC = Some (peC\<lparr>first_process_ind := next_process_ind (processes peC ! ?x), processes := ?ps\<rparr>, int ?x)"
      using x by (simp add: wake_first_def slot_in upd_slot_in)
    have inj: "?w (L ! j) \<noteq> ?x" if "j \<noteq> 0" "j < length L" for j
    proof
      assume eq: "?w (L ! j) = ?x"
      have "inj_on ?w (set L)" using laidC by (simp add: laid_def)
      from inj_onD [OF this eq] have "L ! j = L ! 0" using that L(4) by simp
      then show False using that L(2) by (metis nth_eq_iff_index_eq length_greater_0_conv L(4))
    qed
    have "lseg ?ps (next_process_ind (processes peC ! ?x)) (map ?w (drop 1 L)) (-1)"
    proof (subst lseg_cong [of _ "processes peC"])
      show "next_process_ind (?ps ! y) = next_process_ind (processes peC ! y)" for y
        using x(2) by (cases "y = ?x") (simp_all add: nth_list_update)
    qed (use rest in simp_all)
    moreover have "laid ?pe (set L) ?w" by (rule laid_update [OF laidC, where x = ?x and f = ?f]) simp_all
    moreover have "ready (?ps ! ?w (L ! j)) = 0" if "0 < j" "j < length L" for j
    proof -
      have "L ! j \<in> insert p E" using that L(1) nth_mem by blast
      then have "ready (processes peC ! ?w (L ! j)) = 0" using gC unfolding gathered_def by blast
      then show ?thesis using inj [of j] that by simp
    qed
    ultimately have "turn L ?w avail k 0 ?pe"
      using avk x(2) left L(3,4) E(3) by (simp add: turn_def del: fun_upd_apply)
    moreover have "pin_enter pe p (int n) = Some (?pe, [int ?x], if L ! 0 = p then Proceeds (int s) else Waits (int s))"
    proof -
      have "int ?x = int s \<longleftrightarrow> L ! 0 = p"
      proof
        assume "int ?x = int s"
        then have "?w (L ! 0) = ?w p" by simp
        moreover have "inj_on ?w (set L)" using laidC by (simp add: laid_def)
        ultimately show "L ! 0 = p" using L(1,4) by (metis inj_onD insertI1 length_greater_0_conv nth_mem)
      qed simp
      moreover have "nr_processes_left peC = 0" using left cn False E(3) by simp
      ultimately show ?thesis using enter wake left by (simp del: fun_upd_apply)
    qed
    ultimately show ?thesis using False by auto
  qed
qed

section \<open>The abstract machine\<close>

text \<open>
  \<open>Gather E\<close>: the processes \<open>E\<close> have entered. \<open>Drain i\<close>: all have entered and the first \<open>i\<close> of them
  in PID order have their rank. The last process to enter goes on at once when it is the first in order.
\<close>

datatype phase = Gather "int set" | Drain nat

inductive phase_step :: "int set \<Rightarrow> phase \<Rightarrow> phase \<Rightarrow> bool" for P :: "int set" where
  join: "p \<in> P \<Longrightarrow> p \<notin> E \<Longrightarrow> insert p E \<noteq> P \<Longrightarrow> phase_step P (Gather E) (Gather (insert p E))"
| join_last: "p \<in> P \<Longrightarrow> p \<notin> E \<Longrightarrow> insert p E = P \<Longrightarrow>
    phase_step P (Gather E) (Drain (if p = Min P then 1 else 0))"
| hand_out: "i < card P \<Longrightarrow> phase_step P (Drain i) (Drain (Suc i))"

inductive_cases phase_step_GatherE: "phase_step P (Gather E) ph"
inductive_cases phase_step_DrainE: "phase_step P (Drain i) ph"
inductive_cases step_EnterE: "step env ppn c (Enter p) c'"
inductive_cases step_WakeE: "step env ppn c (Wake p) c'"

text \<open>What remains to be done in a phase; every step lowers it.\<close>

fun remaining :: "nat \<Rightarrow> phase \<Rightarrow> nat" where
  "remaining n (Gather E) = 2 * n + 1 - card E"
| "remaining n (Drain i) = n - i"

fun represents :: "int set \<Rightarrow> cpu_set \<Rightarrow> int \<Rightarrow> config \<Rightarrow> phase \<Rightarrow> bool" where
  "represents P avail k c (Gather E) \<longleftrightarrow> E \<subseteq> P \<and> E \<noteq> P \<and> signalled c = {} \<and> (\<forall>p. p \<notin> P \<longrightarrow> status c p = Absent) \<and>
     (\<forall>p \<in> P - E. status c p = Not_entered) \<and>
     (\<exists>w. gathered (card P) E w avail k (shm c) \<and> (\<forall>p \<in> E. status c p = Waiting (int (w p))))"
| "represents P avail k c (Drain i) \<longleftrightarrow> i \<le> card P \<and> (\<forall>p. p \<notin> P \<longrightarrow> status c p = Absent) \<and>
     (\<exists>w. turn (sorted_list_of_set P) w avail k i (shm c) \<and>
       (\<forall>j < card P. status c (sorted_list_of_set P ! j) =
          (if j < i then Returned (int j) else Waiting (int (w (sorted_list_of_set P ! j))))) \<and>
       signalled c = (if i < card P then {int (w (sorted_list_of_set P ! i))} else {}))"

definition node_ok :: "int set \<Rightarrow> cpu_set \<Rightarrow> int \<Rightarrow> environment \<Rightarrow> bool" where
  "node_ok P avail k env \<longleftrightarrow> finite P \<and> P \<noteq> {} \<and> card P \<le> MAX_PROCESSES \<and> 0 \<notin> P \<and> good_env env (card P) avail k"

abbreviation pids :: "int set \<Rightarrow> int list" where
  "pids P \<equiv> sorted_list_of_set P"

lemma node_okD:
  assumes "node_ok P avail k env"
  shows "finite P" "P \<noteq> {}" "card P \<le> MAX_PROCESSES" "0 \<notin> P" "good_env env (length (pids P)) avail k" "0 < card P"
  using assms by (simp_all add: node_ok_def card_gt_0_iff)

lemma pids_facts:
  assumes "node_ok P avail k env"
  shows "set (pids P) = P" "distinct (pids P)" "length (pids P) = card P" "pids P \<noteq> []" "pids P ! 0 = Min P"
proof -
  note fin = node_okD(1) [OF assms] and ne = node_okD(2) [OF assms]
  show "set (pids P) = P" "distinct (pids P)" "length (pids P) = card P" using fin by simp_all
  then show "pids P \<noteq> []" using ne by auto
  show "pids P ! 0 = Min P" using fin ne by (simp add: sorted_list_of_set_nonempty)
qed

lemma pids_index: "finite P \<Longrightarrow> p \<in> P \<Longrightarrow> \<exists>j < card P. p = pids P ! j"
  by (metis in_set_conv_nth length_sorted_list_of_set set_sorted_list_of_set)

lemma drain_step:
  assumes ok: "node_ok P avail k env" and r: "represents P avail k c (Drain i)" and i: "i < card P" and w: "turn (pids P) w avail k i (shm c)"
    and c': "shm c' = pe'" "status c' = (status c)(pids P ! i := Returned (int i))"
      "signalled c' = (if Suc i < card P then {int (w (pids P ! Suc i))} else {})"
    and st: "\<forall>j < card P. status c (pids P ! j) = (if j < i then Returned (int j) else Waiting (int (w (pids P ! j))))"
    and t: "turn (pids P) w avail k (Suc i) pe'"
  shows "represents P avail k c' (Drain (Suc i))"
proof -
  note PF = pids_facts [OF ok] and fin = node_okD(1) [OF ok] and small = node_okD(3) [OF ok] and nz = node_okD(4) [OF ok]
    and ENV = node_okD(5) [OF ok] and npos = node_okD(6) [OF ok]
  have "status c' (pids P ! j) = (if j < Suc i then Returned (int j) else Waiting (int (w (pids P ! j))))" if "j < card P" for j
    using that st c'(2) i PF by (auto simp: nth_eq_iff_index_eq)
  moreover have "status c' p = Absent" if "p \<notin> P" for p
  proof -
    have "p \<noteq> pids P ! i" using that i PF by (metis nth_mem)
    then show ?thesis using that r c'(2) by simp
  qed
  ultimately show ?thesis using i c' t by auto
qed

lemma simulate_drain:
  assumes ok: "node_ok P avail k env" and r: "represents P avail k c (Drain i)" and s: "calm env (\<lambda>_. int (card P)) c c'"
  shows "i < card P \<and> represents P avail k c' (Drain (Suc i))"
proof -
  note PF = pids_facts [OF ok] and fin = node_okD(1) [OF ok] and small = node_okD(3) [OF ok] and nz = node_okD(4) [OF ok]
    and ENV = node_okD(5) [OF ok] and npos = node_okD(6) [OF ok]
  obtain l where l: "calm_label l" "step env (\<lambda>_. int (card P)) c l c'" using s by (auto simp: calm_def)
  obtain w where w: "turn (pids P) w avail k i (shm c)"
      "\<forall>j < card P. status c (pids P ! j) = (if j < i then Returned (int j) else Waiting (int (w (pids P ! j))))"
      "signalled c = (if i < card P then {int (w (pids P ! i))} else {})"
    and rest: "i \<le> card P" "\<forall>p. p \<notin> P \<longrightarrow> status c p = Absent"
    using r by auto
  have noenter: "status c p \<noteq> Not_entered" for p
    using w(2) rest(2) pids_index [OF fin, of p] by (cases "p \<in> P") (auto split: if_splits)
  from l show ?thesis
  proof (cases l)
    case (Enter p)
    then show ?thesis using l(2) noenter by (auto elim!: step_EnterE)
  next
    case (Wake p)
    then obtain x pe sig res where st: "status c p = Waiting x" "x \<in> signalled c"
      "after_wait env (shm c) p x 0 = Some (pe, sig, res)"
      "c' = c\<lparr>shm := pe, status := (status c)(p := Returned res), signalled := (signalled c - {x}) \<union> set sig\<rparr>"
      using l(2) by (auto elim!: step_WakeE)
    have i: "i < card P" and x: "x = int (w (pids P ! i))" using st(2) w(3) by (auto split: if_splits)
    have "p \<in> P" using st(1) rest(2) by force
    then obtain j where j: "j < card P" "p = pids P ! j" using pids_index [OF fin] by blast
    then have "w (pids P ! j) = w (pids P ! i)" using st(1) w(2) x by (auto split: if_splits)
    moreover have "inj_on w (set (pids P))" using w(1) by (simp add: turn_def laid_def)
    ultimately have "p = pids P ! i" using j i PF by (metis inj_onD nth_mem)
    then obtain pe' where a: "after_wait env (shm c) p x 0 = Some (pe', if Suc i < card P then [int (w (pids P ! Suc i))] else [], int i)"
        "turn (pids P) w avail k (Suc i) pe'"
      using after_wait_turn [OF PF(2) _ _ ENV w(1), of p] i small PF(3) x by auto
    then have eq: "pe = pe'" "res = int i" "sig = (if Suc i < card P then [int (w (pids P ! Suc i))] else [])" using st(3) by auto
    have "represents P avail k c' (Drain (Suc i))"
      by (rule drain_step [OF ok r i w(1) _ _ _ w(2) a(2)])
        (use st(4) eq w(3) i x \<open>p = pids P ! i\<close> in \<open>auto\<close>)
    then show ?thesis using i by blast
  qed auto
qed

lemma simulate_gather:
  assumes ok: "node_ok P avail k env" and r: "represents P avail k c (Gather E)" and s: "calm env (\<lambda>_. int (card P)) c c'"
  shows "\<exists>ph. phase_step P (Gather E) ph \<and> represents P avail k c' ph"
proof -
  note PF = pids_facts [OF ok] and fin = node_okD(1) [OF ok] and small = node_okD(3) [OF ok] and nz = node_okD(4) [OF ok]
    and ENV = node_okD(5) [OF ok] and npos = node_okD(6) [OF ok]
  obtain l where l: "calm_label l" "step env (\<lambda>_. int (card P)) c l c'" using s by (auto simp: calm_def)
  obtain w where E: "E \<subseteq> P" "E \<noteq> P" and sg: "signalled c = {}" and out: "\<forall>p. p \<notin> P \<longrightarrow> status c p = Absent"
    and "not": "\<forall>p \<in> P - E. status c p = Not_entered"
    and g: "gathered (card P) E w avail k (shm c)" and wt: "\<forall>p \<in> E. status c p = Waiting (int (w p))"
    using r by auto
  have finE: "finite E" using E fin finite_subset by blast
  have cE: "card E < card P" using E fin by (simp add: psubset_card_mono psubsetI)
  from l show ?thesis
  proof (cases l)
    case (Wake p)
    then show ?thesis using l(2) sg by (auto elim!: step_WakeE)
  next
    case (Enter p)
    then have "status c p = Not_entered" using l(2) by (auto elim!: step_EnterE)
    then have p: "p \<in> P" "p \<notin> E" using out wt by force+
    have z: "0 \<notin> E" using E nz by blast
    define L' where "L' = sorted_list_of_set (insert p E)"
    obtain s pe where en: "if Suc (card E) < card P
      then pin_enter (shm c) p (int (card P)) = Some (pe, [], Waits (int s)) \<and> gathered (card P) (insert p E) (w(p := s)) avail k pe
      else pin_enter (shm c) p (int (card P)) = Some (pe, [int ((w(p := s)) (L' ! 0))], if L' ! 0 = p then Proceeds (int s) else Waits (int s)) \<and>
        turn L' (w(p := s)) avail k 0 pe"
      using pin_enter_gathered [OF g finE p(2) cE small z] unfolding L'_def by blast
    show ?thesis
    proof (cases "Suc (card E) < card P")
      case True
      then have *: "pin_enter (shm c) p (int (card P)) = Some (pe, [], Waits (int s))" "gathered (card P) (insert p E) (w(p := s)) avail k pe"
        using en by auto
      have "insert p E \<noteq> P" using True p(2) finE by auto
      moreover have "c' = c\<lparr>shm := pe, status := (status c)(p := Waiting (int s)), signalled := signalled c\<rparr>"
        using l(2) Enter * by (auto elim!: step_EnterE)
      then have "represents P avail k c' (Gather (insert p E))"
        using * E p \<open>insert p E \<noteq> P\<close> sg out "not" wt by (auto intro!: exI [of _ "w(p := s)"])
      ultimately show ?thesis using p phase_step.join by blast
    next
      case False
      have all: "insert p E = P" using False cE E p finE fin by (intro card_subset_eq) auto
      then have L': "L' = pids P" by (simp add: L'_def)
      let ?w = "w(p := s)"
      have *: "pin_enter (shm c) p (int (card P)) = Some (pe, [int (?w (pids P ! 0))], if pids P ! 0 = p then Proceeds (int s) else Waits (int s))"
        and t: "turn (pids P) ?w avail k 0 pe"
        using en False L' by auto
      have wL: "status c (pids P ! j) = Waiting (int (?w (pids P ! j)))" if "j < card P" "pids P ! j \<noteq> p" for j
        using that all wt PF by (metis fun_upd_apply insertE nth_mem)
      show ?thesis
      proof (cases "pids P ! 0 = p")
        case True
        then have min: "p = Min P" by (simp add: PF(5))
        obtain pe' sig r where pr: "proceed env pe p = Some (pe', sig, r)"
          and c': "c' = c\<lparr>shm := pe', status := (status c)(p := Returned r), signalled := signalled c \<union> ({int (?w (pids P ! 0))} - {int s}) \<union> set sig\<rparr>"
          using l(2) Enter * True by (auto elim!: step_EnterE)
        have "sig = (if Suc 0 < card P then [int (?w (pids P ! Suc 0))] else [])" "r = 0" and t': "turn (pids P) ?w avail k (Suc 0) pe'"
          using proceed_turn [OF PF(2) _ _ ENV t, of p] npos small PF(3) pr by auto
        moreover have "status c' (pids P ! j) = (if j < Suc 0 then Returned (int j) else Waiting (int (?w (pids P ! j))))" if "j < card P" for j
          using that wL [OF that] c' True PF(2,3) \<open>r = 0\<close> by (auto simp: nth_eq_iff_index_eq)
        moreover have "p \<in> P" by (rule p)
        ultimately have "represents P avail k c' (Drain (Suc 0))"
          using c' sg out True npos by (auto intro!: exI [of _ ?w])
        moreover have "phase_step P (Gather E) (Drain (Suc 0))" using phase_step.join_last [OF p all] min by simp
        ultimately show ?thesis by blast
      next
        case False
        then have min: "p \<noteq> Min P" by (simp add: PF(5))
        have c': "c' = c\<lparr>shm := pe, status := (status c)(p := Waiting (int s)), signalled := signalled c \<union> {int (?w (pids P ! 0))}\<rparr>"
          using l(2) Enter * False by (auto elim!: step_EnterE)
        have "status c' (pids P ! j) = Waiting (int (?w (pids P ! j)))" if "j < card P" for j
          using wL [OF that] c' by auto
        then have "represents P avail k c' (Drain 0)"
          using c' sg out t p(1) npos by (auto intro!: exI [of _ ?w])
        moreover have "phase_step P (Gather E) (Drain 0)" using phase_step.join_last [OF p all] min by simp
        ultimately show ?thesis by blast
      qed
    qed
  qed auto
qed


lemma calm_enter: "step env ppn c (Enter p) c' \<Longrightarrow> calm env ppn c c'"
  unfolding calm_def by (rule exI [of _ "Enter p"]) simp

lemma calm_wake: "step env ppn c (Wake p) c' \<Longrightarrow> calm env ppn c c'"
  unfolding calm_def by (rule exI [of _ "Wake p"]) simp

lemma progress:
  assumes ok: "node_ok P avail k env" and r: "represents P avail k c ph" and rem: "remaining (card P) ph > 0"
  shows "\<exists>c'. calm env (\<lambda>_. int (card P)) c c'"
proof (cases ph)
  case (Gather E)
  note fin = node_okD(1) [OF ok]
  obtain w where E: "E \<subseteq> P" "E \<noteq> P" and st: "\<forall>p \<in> P - E. status c p = Not_entered"
    and g: "gathered (card P) E w avail k (shm c)"
    using r Gather by auto
  then obtain p where p: "p \<in> P" "p \<notin> E" by blast
  have finE: "finite E" "card E < card P" using E fin by (auto intro: finite_subset psubset_card_mono)
  have "0 \<notin> E" using E node_okD(4) [OF ok] by blast
  note en = pin_enter_gathered [OF g finE(1) p(2) finE(2) node_okD(3) [OF ok] this]
  have st: "status c p = Not_entered" using p st by blast
  define L' where "L' = sorted_list_of_set (insert p E)"
  obtain s pe where "pin_enter (shm c) p (int (card P)) = Some (pe, [], Waits (int s)) \<or>
      (\<exists>x. pin_enter (shm c) p (int (card P)) = Some (pe, x, Waits (int s))) \<or>
      pin_enter (shm c) p (int (card P)) = Some (pe, [int ((w(p := s)) (L' ! 0))], Proceeds (int s)) \<and>
        insert p E = P \<and> turn L' (w(p := s)) avail k 0 pe"
  proof (cases "Suc (card E) < card P")
    case False
    then have "insert p E = P" using finE E p fin by (intro card_subset_eq) auto
    then show ?thesis using en that False unfolding L'_def by (auto split: if_splits)
  qed (use en that in auto)
  then show ?thesis
  proof (elim disjE conjE exE)
    assume a: "pin_enter (shm c) p (int (card P)) = Some (pe, [int ((w(p := s)) (L' ! 0))], Proceeds (int s))"
      "insert p E = P" "turn L' (w(p := s)) avail k 0 pe"
    then have L': "L' = pids P" by (simp add: L'_def)
    from proceed_turn [OF pids_facts(2) [OF ok] _ _ node_okD(5) [OF ok] a(3) [unfolded L'], of p]
    obtain pe' sig where "proceed env pe p = Some (pe', sig, 0)"
      using node_okD(3,6) [OF ok] pids_facts(3) [OF ok] by auto
    then show ?thesis using step.enter_proceeds [where ppn = "\<lambda>_. int (card P)", OF st a(1)] by (meson calm_enter)
  qed (use step.enter_waits [where ppn = "\<lambda>_. int (card P)", OF st] in \<open>meson calm_enter\<close>)+
next
  case (Drain i)
  then have i: "i < card P" using rem by simp
  obtain w where w: "turn (pids P) w avail k i (shm c)" "status c (pids P ! i) = Waiting (int (w (pids P ! i)))"
      "int (w (pids P ! i)) \<in> signalled c"
    using r Drain i by auto
  obtain pe sig res where "after_wait env (shm c) (pids P ! i) (int (w (pids P ! i))) 0 = Some (pe, sig, res)"
    using after_wait_turn [OF pids_facts(2) [OF ok] _ _ node_okD(5) [OF ok] w(1), of "pids P ! i"] i
      node_okD(3) [OF ok] pids_facts(3) [OF ok] by auto
  then show ?thesis using step.wake [OF w(2,3)] by (meson calm_wake)
qed

lemma represents_initial:
  assumes "node_ok P avail k env"
  shows "represents P avail k (initial P avail k) (Gather {})"
  using node_okD(2) [OF assms]
  by (auto simp: initial_def initial_pe_def gathered_def laid_def MAX_PROCESSES_def empty_slot_def)

lemma phase_step_remaining:
  assumes "finite P" "represents P avail k c ph" "phase_step P ph ph'"
  shows "remaining (card P) ph' < remaining (card P) ph"
  using assms(3)
proof cases
  case (join p E)
  then have "card E < card P" "finite E"
    using assms(1,2) by (auto intro: psubset_card_mono finite_subset)
  then show ?thesis using join by simp
next
  case (join_last p E)
  then have "card E < card P"
    using assms(1,2) by (auto intro!: psubset_card_mono)
  then show ?thesis using join_last by simp
qed simp

text \<open>The number of steps up to a phase: one more when the last process to enter had to wait.\<close>

fun steps_to :: "nat \<Rightarrow> phase \<Rightarrow> nat \<Rightarrow> bool" where
  "steps_to n (Gather E) m \<longleftrightarrow> m = card E \<and> finite E"
| "steps_to n (Drain i) m \<longleftrightarrow> i \<le> n \<and> (m = n + i \<or> Suc m = n + i \<and> 0 < i)"

lemma phase_steps:
  assumes "finite P" "(phase_step P ^^ m) (Gather {}) ph"
  shows "steps_to (card P) ph m"
  using assms(2)
proof (induction m arbitrary: ph)
  case (Suc m)
  then obtain ph1 where ph1: "steps_to (card P) ph1 m" "phase_step P ph1 ph" by (meson relpowp_Suc_E)
  from ph1(2) show ?case
  proof cases
    case (join p E)
    then show ?thesis using ph1(1) by simp
  next
    case (join_last p E)
    then have "finite E" "card E = m" using ph1(1) by simp_all
    then have "card (insert p E) = Suc m" using join_last(4) by simp
    then have "card P = Suc m" using join_last(5) by simp
    then show ?thesis using join_last by simp
  next
    case (hand_out i)
    then show ?thesis using ph1(1) by auto
  qed
qed simp

section \<open>Refinement\<close>

locale refinement =
  fixes ok :: "'e \<Rightarrow> bool" and cstep :: "'e \<Rightarrow> 'c \<Rightarrow> 'c \<Rightarrow> bool" and astep :: "'e \<Rightarrow> 'a \<Rightarrow> 'a \<Rightarrow> bool"
    and rel :: "'e \<Rightarrow> 'c \<Rightarrow> 'a \<Rightarrow> bool" and todo :: "'e \<Rightarrow> 'a \<Rightarrow> nat"
  assumes simulate: "ok e \<Longrightarrow> rel e c a \<Longrightarrow> cstep e c c' \<Longrightarrow> \<exists>a'. astep e a a' \<and> rel e c' a'"
    and decreases: "ok e \<Longrightarrow> rel e c a \<Longrightarrow> astep e a a' \<Longrightarrow> todo e a' < todo e a"
    and live: "ok e \<Longrightarrow> rel e c a \<Longrightarrow> 0 < todo e a \<Longrightarrow> \<exists>c'. cstep e c c'"
begin

lemma reachable:
  assumes "ok e" "rel e c a" "(cstep e)\<^sup>*\<^sup>* c c'"
  shows "\<exists>a'. (astep e)\<^sup>*\<^sup>* a a' \<and> rel e c' a'"
  using assms(3)
proof (induction rule: rtranclp_induct)
  case base
  then show ?case using assms(2) by blast
next
  case (step y z)
  then show ?case using simulate [OF assms(1)] by (meson rtranclp.rtrancl_into_rtrancl)
qed

lemma steps: "ok e \<Longrightarrow> rel e c a \<Longrightarrow> (cstep e ^^ m) c c' \<Longrightarrow> \<exists>a'. (astep e ^^ m) a a' \<and> rel e c' a'"
proof (induction m arbitrary: c')
  case (Suc m)
  from Suc.prems(3) obtain c1 where c1: "(cstep e ^^ m) c c1" "cstep e c1 c'" by (rule relpowp_Suc_E)
  obtain a1 where a1: "(astep e ^^ m) a a1" "rel e c1 a1" using Suc.IH [OF Suc.prems(1,2) c1(1)] by blast
  obtain a' where "astep e a1 a'" "rel e c' a'" using simulate [OF Suc.prems(1) a1(2) c1(2)] by blast
  then show ?case using relpowp_Suc_I [OF a1(1)] by blast
qed auto

lemma bounded: "ok e \<Longrightarrow> rel e c a \<Longrightarrow> (cstep e ^^ m) c c' \<Longrightarrow> m \<le> todo e a"
proof (induction m arbitrary: c a)
  case (Suc m)
  then obtain c1 where c1: "cstep e c c1" "(cstep e ^^ m) c1 c'" by (meson relpowp_Suc_E2)
  then obtain a1 where "astep e a a1" "rel e c1 a1" using simulate Suc.prems by blast
  then have "m \<le> todo e a1" using Suc.IH [OF Suc.prems(1) _ c1(2)] by blast
  moreover have "todo e a1 < todo e a" using decreases Suc.prems(1,2) \<open>astep e a a1\<close> by blast
  ultimately show ?case by simp
qed simp

lemma stuck_done:
  assumes "ok e" "rel e c a" "(cstep e)\<^sup>*\<^sup>* c c'" "\<nexists>c''. cstep e c' c''"
  shows "\<exists>a'. (astep e)\<^sup>*\<^sup>* a a' \<and> rel e c' a' \<and> todo e a' = 0"
  using reachable [OF assms(1-3)] live [OF assms(1)] assms(4) by (metis gr_zeroI)

lemma completes:
  assumes "ok e" "rel e c a"
  shows "\<exists>c' a'. (cstep e)\<^sup>*\<^sup>* c c' \<and> rel e c' a' \<and> todo e a' = 0"
  using assms(2)
proof (induction "todo e a" arbitrary: c a rule: less_induct)
  case less
  show ?case
  proof (cases "todo e a = 0")
    case False
    then obtain c1 where c1: "cstep e c c1" using live assms(1) less.prems by blast
    then obtain a1 where a1: "astep e a a1" "rel e c1 a1" using simulate assms(1) less.prems by blast
    then have "todo e a1 < todo e a" using decreases assms(1) less.prems by blast
    from less.hyps [OF this a1(2)] show ?thesis using c1 by (meson converse_rtranclp_into_rtranclp)
  qed (use less.prems in blast)
qed

end

type_synonym run = "int set \<times> cpu_set \<times> int \<times> environment"

interpretation protocol: refinement
  "\<lambda>(P, avail, k, env). node_ok P avail k env"
  "\<lambda>(P, avail, k, env). calm env (\<lambda>_. int (card P))"
  "\<lambda>(P, avail, k, env). phase_step P"
  "\<lambda>(P, avail, k, env). represents P avail k"
  "\<lambda>(P, avail, k, env). remaining (card P)"
proof (unfold_locales, goal_cases)
  case (1 e c a c')
  obtain P avail k env where e: "e = (P, avail, k, env)" by (cases e)
  have ok: "node_ok P avail k env" and r: "represents P avail k c a" and s: "calm env (\<lambda>_. int (card P)) c c'"
    using 1 unfolding e prod.case by blast+
  have "\<exists>a'. phase_step P a a' \<and> represents P avail k c' a'"
  proof (cases a)
    case (Gather E)
    show ?thesis unfolding Gather by (rule simulate_gather [OF ok r [unfolded Gather] s])
  next
    case (Drain i)
    show ?thesis
      using simulate_drain [OF ok r [unfolded Drain] s] phase_step.hand_out unfolding Drain by blast
  qed
  then show ?case unfolding e prod.case .
next
  case (2 e c a a')
  then show ?case using phase_step_remaining by (cases e) (auto dest: node_okD(1))
next
  case (3 e c a)
  then show ?case using progress by (cases e) auto
qed

section \<open>Timeouts\<close>

text \<open>The list is emptied; every process in it but the caller is told about the timeout.\<close>

lemma abort_loop_eq:
  assumes "lseg (processes pe) (first_process_ind pe) xs (-1)" "distinct xs"
  shows "\<exists>pe'. abort_loop pe me sig = Some (pe', sig @ map int (filter (\<lambda>x. pid (processes pe ! x) \<noteq> me) xs)) \<and>
    pe' = pe\<lparr>processes := processes pe', first_process_ind := -1\<rparr> \<and> length (processes pe') = length (processes pe) \<and>
    (\<forall>x < length (processes pe). processes pe' ! x =
       (if x \<in> set xs \<and> pid (processes pe ! x) \<noteq> me then (processes pe ! x)\<lparr>ready := 1, timeout := 1\<rparr> else processes pe ! x))"
  using assms
proof (induction xs arbitrary: pe sig)
  case Nil
  then show ?case by (subst abort_loop.simps) simp
next
  case (Cons x xs)
  then have x: "first_process_ind pe = int x" "x < length (processes pe)"
    and rest: "lseg (processes pe) (next_process_ind (processes pe ! x)) xs (-1)" by simp_all
  let ?pe1 = "pe\<lparr>first_process_ind := next_process_ind (processes pe ! x)\<rparr>"
  show ?case
  proof (cases "pid (processes pe ! x) = me")
    case True
    have "abort_loop pe me sig = abort_loop ?pe1 me sig"
      using x True by (subst abort_loop.simps) (simp add: slot_in Let_def)
    then show ?thesis using Cons.IH [of ?pe1 sig] rest Cons.prems(2) True by auto
  next
    case False
    let ?f = "\<lambda>it. it\<lparr>ready := 1, timeout := 1\<rparr>"
    let ?pe2 = "?pe1\<lparr>processes := (processes pe)[x := ?f (processes pe ! x)]\<rparr>"
    have step: "abort_loop pe me sig = abort_loop ?pe2 me (sig @ [int x])"
      using x False by (subst abort_loop.simps) (simp add: slot_in upd_slot_in Let_def)
    have seg: "lseg (processes ?pe2) (first_process_ind ?pe2) xs (-1)"
    proof (subst lseg_cong [of _ "processes pe"])
      show "next_process_ind (processes ?pe2 ! y) = next_process_ind (processes pe ! y)" for y
        using x(2) by (cases "y = x") simp_all
    qed (use rest in simp_all)
    have same: "filter (\<lambda>y. pid (processes ?pe2 ! y) \<noteq> me) xs = filter (\<lambda>y. pid (processes pe ! y) \<noteq> me) xs"
    proof (rule filter_cong [OF refl])
      fix y assume "y \<in> set xs"
      then have "y \<noteq> x" using Cons.prems(2) by auto
      then show "(pid (processes ?pe2 ! y) \<noteq> me) = (pid (processes pe ! y) \<noteq> me)" by simp
    qed
    obtain pe' where pe': "abort_loop ?pe2 me (sig @ [int x]) =
        Some (pe', (sig @ [int x]) @ map int (filter (\<lambda>y. pid (processes ?pe2 ! y) \<noteq> me) xs))"
      "pe' = ?pe2\<lparr>processes := processes pe', first_process_ind := -1\<rparr>" "length (processes pe') = length (processes ?pe2)"
      "\<forall>y < length (processes ?pe2). processes pe' ! y =
         (if y \<in> set xs \<and> pid (processes ?pe2 ! y) \<noteq> me then (processes ?pe2 ! y)\<lparr>ready := 1, timeout := 1\<rparr> else processes ?pe2 ! y)"
      using Cons.IH [OF seg, of "sig @ [int x]"] Cons.prems(2) by auto
    have "processes pe' ! y =
       (if y \<in> set (x # xs) \<and> pid (processes pe ! y) \<noteq> me then (processes pe ! y)\<lparr>ready := 1, timeout := 1\<rparr> else processes pe ! y)"
      if "y < length (processes pe)" for y
      using pe'(4) that False Cons.prems(2) x(2) by (cases "y = x") auto
    moreover have "pe' = pe\<lparr>processes := processes pe', first_process_ind := -1\<rparr>"
      by (subst pe'(2)) simp
    ultimately show ?thesis using step pe'(1,3) same False by (intro exI [of _ pe']) simp
  qed
qed

lemma abort_all_eq:
  assumes "lseg (processes pe) (first_process_ind pe) xs (-1)" "distinct xs"
  shows "\<exists>pe'. abort_all pe me = Some (pe', map int (filter (\<lambda>x. pid (processes pe ! x) \<noteq> me) xs), - ETIMEDOUT) \<and>
    pe' = pe\<lparr>processes := processes pe', first_process_ind := -1, nr_processes := -1\<rparr> \<and> length (processes pe') = length (processes pe) \<and>
    (\<forall>x < length (processes pe). processes pe' ! x =
       (if x \<in> set xs \<and> pid (processes pe ! x) \<noteq> me then (processes pe ! x)\<lparr>ready := 1, timeout := 1\<rparr> else processes pe ! x))"
proof -
  obtain pe' where pe': "abort_loop pe me [] = Some (pe', map int (filter (\<lambda>x. pid (processes pe ! x) \<noteq> me) xs))"
    "pe' = pe\<lparr>processes := processes pe', first_process_ind := -1\<rparr>" "length (processes pe') = length (processes pe)"
    "\<forall>x < length (processes pe). processes pe' ! x =
       (if x \<in> set xs \<and> pid (processes pe ! x) \<noteq> me then (processes pe ! x)\<lparr>ready := 1, timeout := 1\<rparr> else processes pe ! x)"
    using abort_loop_eq [OF assms, of me "[]"] by auto
  have "pe'\<lparr>nr_processes := -1\<rparr> = pe\<lparr>processes := processes pe', first_process_ind := -1, nr_processes := -1\<rparr>"
    by (subst pe'(2)) simp
  then show ?thesis using pe' by (intro exI [of _ "pe'\<lparr>nr_processes := -1\<rparr>"]) (simp add: abort_all_def)
qed

lemma gathered_timeout:
  assumes g: "gathered n E w avail k pe" and E: "finite E" "p \<in> E"
  shows "\<exists>pe' sig. after_wait env pe p (int (w p)) ETIMEDOUT = Some (pe', sig, - ETIMEDOUT) \<and>
    set sig = (\<lambda>q. int (w q)) ` (E - {p}) \<and> nr_processes pe' = -1 \<and> first_process_ind pe' = -1 \<and>
    (\<forall>q \<in> E - {p}. after_wait env pe' q (int (w q)) 0 = Some (pe', [], - ETIMEDOUT))"
proof -
  let ?xs = "map w (sorted_list_of_set E)"
  have chain: "lseg (processes pe) (first_process_ind pe) ?xs (-1)" and "laid": "laid pe E w"
    using g by (simp_all add: gathered_def)
  have "distinct ?xs" using "laid" E(1) by (simp add: laid_def distinct_map)
  from abort_all_eq [OF chain this, of p] obtain pe' where
    a: "abort_all pe p = Some (pe', map int (filter (\<lambda>x. pid (processes pe ! x) \<noteq> p) ?xs), - ETIMEDOUT)"
    and pe': "pe' = pe\<lparr>processes := processes pe', first_process_ind := -1, nr_processes := -1\<rparr>"
      "length (processes pe') = length (processes pe)"
    and ps: "\<forall>x < length (processes pe). processes pe' ! x =
       (if x \<in> set ?xs \<and> pid (processes pe ! x) \<noteq> p then (processes pe ! x)\<lparr>ready := 1, timeout := 1\<rparr> else processes pe ! x)"
    by blast
  have w: "w q < length (processes pe)" "pid (processes pe ! w q) = q" if "q \<in> E" for q
    using "laid" that by (simp_all add: laid_def)
  have "set (map int (filter (\<lambda>x. pid (processes pe ! x) \<noteq> p) ?xs)) = (\<lambda>q. int (w q)) ` (E - {p})"
    using w(2) E(1) by (auto simp: image_iff)
  moreover have "timeout (processes pe' ! w q) = 1" if "q \<in> E - {p}" for q
    using ps w [of q] that E(1) by auto
  then have "after_wait env pe' q (int (w q)) 0 = Some (pe', [], - ETIMEDOUT)" if "q \<in> E - {p}" for q
    using that w(1) [of q] pe'(2) by (simp add: after_wait_def ETIMEDOUT_def slot_in)
  moreover have "nr_processes pe' = -1" "first_process_ind pe' = -1" by (subst pe'(1), simp)+
  ultimately show ?thesis using a by (auto simp: after_wait_def)
qed

text \<open>
  A process that was signalled is no longer in the list, so a timeout of another one does not
  reach it: it goes on in a state that was reset.
\<close>

lemma turn_timeout_race:
  assumes L: "distinct L" "i < j" "j < length L" and t: "turn L w avail k i pe" and env: "topology env = Some tops" "malloc_ok env"
  shows "\<exists>pe' sig. after_wait env pe (L ! j) (int (w (L ! j))) ETIMEDOUT = Some (pe', sig, - ETIMEDOUT) \<and>
    after_wait env pe' (L ! i) (int (w (L ! i))) 0 = None"
proof -
  let ?xs = "map w (drop (Suc i) L)"
  have chain: "lseg (processes pe) (first_process_ind pe) ?xs (-1)" and "laid": "laid pe (set L) w"
    using t by (simp_all add: turn_def)
  have inj: "inj_on w (set L)" using "laid" by (simp add: laid_def)
  have "set (drop (Suc i) L) \<subseteq> set L" by (rule set_drop_subset)
  then have "distinct ?xs" using inj L(1) by (auto simp: distinct_map intro: inj_on_subset)
  from abort_all_eq [OF chain this, of "L ! j"] obtain pe' sig where
    a: "abort_all pe (L ! j) = Some (pe', sig, - ETIMEDOUT)"
    and pe': "pe' = pe\<lparr>processes := processes pe', first_process_ind := -1, nr_processes := -1\<rparr>"
      "length (processes pe') = length (processes pe)"
    and ps: "\<forall>x < length (processes pe). processes pe' ! x =
       (if x \<in> set ?xs \<and> pid (processes pe ! x) \<noteq> L ! j then (processes pe ! x)\<lparr>ready := 1, timeout := 1\<rparr> else processes pe ! x)"
    by blast
  let ?x = "w (L ! i)"
  have x: "?x < length (processes pe)" "timeout (processes pe ! ?x) = 0" "ready (processes pe ! ?x) = 1"
    using t L by (auto simp: turn_def laid_def)
  have "L ! i \<notin> set (drop (Suc i) L)"
    using L by (metis Cons_nth_drop_Suc distinct.simps(2) distinct_drop order_less_trans)
  moreover have "L ! i \<in> set L" using L by simp
  ultimately have "?x \<notin> set ?xs" using inj \<open>set (drop (Suc i) L) \<subseteq> set L\<close> by (auto dest: inj_onD)
  then have "processes pe' ! ?x = processes pe ! ?x" using ps x(1) by simp
  moreover have left: "nr_processes_left pe' = int (length L) - int i" "process_rank pe' = int i"
      "nr_processes pe' = -1" "first_process_ind pe' = -1"
    using t by (subst pe'(1), simp add: turn_def)+
  moreover have fin: "finish env pe'' = None" if "nr_processes_left pe'' \<noteq> 0" "first_process_ind pe'' = -1" for pe''
    using that by (simp add: finish_def wake_first_def slot_def)
  moreover have "proceed env pe' (L ! i) = None"
  proof -
    have "int (length L) - int i - 1 \<noteq> 0" using L by linarith
    then show ?thesis using left env fin by (simp add: proceed_def assign_ranks.simps Let_def)
  qed
  ultimately have "after_wait env pe' (L ! i) (int ?x) 0 = None"
    using x pe'(2) by (simp add: after_wait_def ETIMEDOUT_def slot_in)
  then show ?thesis using a by (auto simp: after_wait_def)
qed

lemma pin_enter_full:
  assumes "\<forall>s < MAX_PROCESSES. pid (processes pe ! s) \<noteq> 0" "nr_processes pe \<in> {-1, ppn}"
  shows "pin_enter pe me ppn = None"
proof -
  have "List.find (\<lambda>i. pid (processes pe' ! i) = 0) [0..<MAX_PROCESSES] = None" if "processes pe' = processes pe" for pe' :: part_exec
    using assms(1) that by (simp add: find_None_iff)
  then have "find_empty_slot pe' = -1" if "processes pe' = processes pe" for pe' :: part_exec
    using that by (simp add: find_empty_slot_def)
  then show ?thesis using assms(2) by (auto simp: pin_enter_def Let_def upd_slot_def slot_def)
qed

section \<open>Properties of the protocol\<close>

lemma calm_reach:
  assumes "node_ok P avail k env" "(calm env (\<lambda>_. int (card P)))\<^sup>*\<^sup>* (initial P avail k) c"
  shows "\<exists>ph. represents P avail k c ph"
  using protocol.reachable [of "(P, avail, k, env)" "initial P avail k" "Gather {}" c]
    represents_initial [OF assms(1)] assms by auto

lemma gather_status:
  assumes "represents P avail k c (Gather E)"
  shows "p \<in> E \<Longrightarrow> \<exists>i. status c p = Waiting i" "p \<in> P - E \<Longrightarrow> status c p = Not_entered" "p \<notin> P \<Longrightarrow> status c p = Absent"
    "status c p = Waiting i \<Longrightarrow> p \<in> E" "status c p \<noteq> Returned r"
proof -
  have *: "\<forall>p. p \<notin> P \<longrightarrow> status c p = Absent" "\<forall>p \<in> P - E. status c p = Not_entered" "\<forall>p \<in> E. \<exists>i. status c p = Waiting i"
    using assms by auto
  show "p \<in> E \<Longrightarrow> \<exists>i. status c p = Waiting i" "p \<in> P - E \<Longrightarrow> status c p = Not_entered" "p \<notin> P \<Longrightarrow> status c p = Absent"
    using * by blast+
  have cases: "p \<in> E \<or> status c p = Not_entered \<or> status c p = Absent" using * by blast
  then show "status c p = Waiting i \<Longrightarrow> p \<in> E" by auto
  show "status c p \<noteq> Returned r" using cases *(3) by (metis status.distinct(5,9,11))
qed

lemma drain_status:
  assumes "represents P avail k c (Drain i)" "finite P"
  shows "status c p \<noteq> Not_entered" "j < i \<Longrightarrow> status c (pids P ! j) = Returned (int j)"
    "status c p = Returned r \<Longrightarrow> \<exists>j < i. p = pids P ! j \<and> r = int j"
proof -
  obtain w where *: "i \<le> card P" "\<forall>p. p \<notin> P \<longrightarrow> status c p = Absent"
      "\<forall>j < card P. status c (pids P ! j) = (if j < i then Returned (int j) else Waiting (w j))"
    using assms(1) by fastforce
  have cases: "status c p = Absent \<or> (\<exists>j < card P. p = pids P ! j)"
    using *(2) pids_index [OF assms(2), of p] by blast
  then show "status c p \<noteq> Not_entered" using *(3) by (metis status.distinct(1,7,9))
  show "j < i \<Longrightarrow> status c (pids P ! j) = Returned (int j)" using * by simp
  show "\<exists>j < i. p = pids P ! j \<and> r = int j" if "status c p = Returned r"
    using cases *(3) that by (metis status.distinct(5,11) status.inject(2))
qed

lemma remaining_0: "represents P avail k c ph \<Longrightarrow> finite P \<Longrightarrow> remaining (card P) ph = 0 \<Longrightarrow> ph = Drain (card P)"
  using card_mono [of P] by (cases ph) fastforce+

lemma calm_stuck:
  assumes "node_ok P avail k env" "(calm env (\<lambda>_. int (card P)))\<^sup>*\<^sup>* (initial P avail k) c"
    and "\<nexists>c'. calm env (\<lambda>_. int (card P)) c c'"
  shows "represents P avail k c (Drain (card P))"
proof -
  obtain ph where ph: "represents P avail k c ph" using calm_reach [OF assms(1,2)] by blast
  then have "remaining (card P) ph = 0" using progress [OF assms(1)] assms(3) by blast
  then show ?thesis using remaining_0 ph node_okD(1) [OF assms(1)] by blast
qed

lemma calm_completes:
  assumes "node_ok P avail k env"
  shows "\<exists>c. (calm env (\<lambda>_. int (card P)))\<^sup>*\<^sup>* (initial P avail k) c \<and> (\<nexists>c'. calm env (\<lambda>_. int (card P)) c c')"
proof -
  obtain c ph where c: "(calm env (\<lambda>_. int (card P)))\<^sup>*\<^sup>* (initial P avail k) c" "represents P avail k c ph" "remaining (card P) ph = 0"
    using protocol.completes [of "(P, avail, k, env)" "initial P avail k" "Gather {}"] represents_initial [OF assms] assms by auto
  then have "ph = Drain (card P)" using remaining_0 node_okD(1) [OF assms] by blast
  then have "\<not> calm env (\<lambda>_. int (card P)) c c'" for c' using simulate_drain [OF assms] c(2) by blast
  then show ?thesis using c(1) by blast
qed

lemma all_returned_stuck:
  assumes ok: "node_ok P avail k env" and run: "(calm env (\<lambda>_. int (card P)))\<^sup>*\<^sup>* (initial P avail k) c"
    and r: "\<forall>r < card P. status c (pids P ! r) = Returned (int r)"
  shows "\<not> calm env (\<lambda>_. int (card P)) c c'"
proof
  assume s: "calm env (\<lambda>_. int (card P)) c c'"
  obtain ph where ph: "represents P avail k c ph" using calm_reach [OF ok run] by blast
  show False
  proof (cases ph)
    case (Gather E)
    then obtain p where p: "p \<in> P" "p \<notin> E" using ph by auto
    then obtain j where "j < card P" "p = pids P ! j" using pids_index [OF node_okD(1) [OF ok]] by blast
    moreover have "status c p = Not_entered" using ph Gather p by simp
    ultimately show False using r by force
  next
    case (Drain i)
    then have i: "i < card P" using simulate_drain [OF ok _ s] ph by blast
    then have "status c (pids P ! i) \<noteq> Returned (int i)" using ph Drain by auto
    then show False using r i by blast
  qed
qed

lemma calm_counts:
  assumes ok: "node_ok P avail k env" and run: "(calm env (\<lambda>_. int (card P)) ^^ m) (initial P avail k) c"
  shows "m \<le> 2 * card P"
    and "(\<nexists>c'. calm env (\<lambda>_. int (card P)) c c') \<Longrightarrow> 2 * card P \<le> m + 1"
proof -
  obtain ph where ph: "(phase_step P ^^ m) (Gather {}) ph" "represents P avail k c ph"
    using protocol.steps [of "(P, avail, k, env)" "initial P avail k" "Gather {}" m c] represents_initial [OF ok] ok run by auto
  note st = phase_steps [OF node_okD(1) [OF ok] ph(1)]
  show "m \<le> 2 * card P"
  proof (cases ph)
    case (Gather E)
    then show ?thesis using st ph(2) card_mono [OF node_okD(1) [OF ok], of E] by simp
  qed (use st in auto)
  assume "\<nexists>c'. calm env (\<lambda>_. int (card P)) c c'"
  then have "remaining (card P) ph = 0" using progress [OF ok ph(2)] by blast
  then have "ph = Drain (card P)" using remaining_0 ph(2) node_okD(1) [OF ok] by blast
  then show "2 * card P \<le> m + 1" using st by auto
qed

lemma calm_continues:
  assumes ok: "node_ok P avail k env" and "(calm env (\<lambda>_. int (card P)))\<^sup>*\<^sup>* (initial P avail k) c"
  shows "\<exists>j c'. (calm env (\<lambda>_. int (card P)) ^^ j) c c' \<and> (\<nexists>c''. calm env (\<lambda>_. int (card P)) c' c'')"
proof -
  obtain ph where "represents P avail k c ph" using calm_reach [OF assms] by blast
  then obtain c' ph' where c': "(calm env (\<lambda>_. int (card P)))\<^sup>*\<^sup>* c c'" "represents P avail k c' ph'" "remaining (card P) ph' = 0"
    using protocol.completes [of "(P, avail, k, env)" c ph] ok by auto
  then have "ph' = Drain (card P)" using remaining_0 node_okD(1) [OF ok] by blast
  then have "\<not> calm env (\<lambda>_. int (card P)) c' c''" for c'' using simulate_drain [OF ok] c'(2) by blast
  then show ?thesis using c'(1) by (meson rtranclp_imp_relpowp)
qed

lemma drained_affinities:
  assumes ok: "node_ok P avail k env" and t: "turn (pids P) w avail k (card P) pe"
  shows "\<forall>r s. r < s \<and> s < card P \<longrightarrow> cpus_of (affinities pe ! r) \<inter> cpus_of (affinities pe ! s) = {}"
    and "\<forall>r < card P. cpus_of (affinities pe ! r) \<subseteq> cpus_of avail \<and> card (cpus_of (affinities pe ! r)) = nat (max 1 k)"
proof -
  let ?n = "card P" and ?m = "nat (max 1 k)"
  obtain affs0 avail' where c: "committed k 0 ?n avail affs0 avail' (affinities pe)"
    using t node_okD(6) [OF ok] pids_facts(3) [OF ok] by (auto simp: turn_def)
  show "\<forall>r s. r < s \<and> s < ?n \<longrightarrow> cpus_of (affinities pe ! r) \<inter> cpus_of (affinities pe ! s) = {}"
    using committedD(6) [OF c] by simp
  have "?m \<le> card (cpus_of avail) - r * ?m" if "r < ?n" for r
  proof -
    have "Suc r * ?m \<le> ?n * ?m" using that by (intro mult_le_mono1) simp
    also have "\<dots> \<le> card (cpus_of avail)" using ok by (simp add: node_ok_def good_env_def)
    finally show ?thesis by simp
  qed
  then show "\<forall>r < ?n. cpus_of (affinities pe ! r) \<subseteq> cpus_of avail \<and> card (cpus_of (affinities pe ! r)) = ?m"
    using committedD(7,9) [OF c] by auto
qed

lemma calm_final:
  assumes "node_ok P avail k env"
    and "(calm env (\<lambda>_. int (card P)))\<^sup>*\<^sup>* (initial P avail k) c" "\<nexists>c'. calm env (\<lambda>_. int (card P)) c c'"
  shows "(\<forall>r < card P. status c (sorted_list_of_set P ! r) = Returned (int r)) \<and>
    nr_processes (shm c) = -1 \<and> first_process_ind (shm c) = -1 \<and>
    (\<forall>r s. r < s \<and> s < card P \<longrightarrow> cpus_of (affinities (shm c) ! r) \<inter> cpus_of (affinities (shm c) ! s) = {}) \<and>
    (\<forall>r < card P. cpus_of (affinities (shm c) ! r) \<subseteq> cpus_of avail \<and> card (cpus_of (affinities (shm c) ! r)) = nat (max 1 k))"
proof -
  obtain w where st: "\<forall>j < card P. status c (pids P ! j) = Returned (int j)" and t: "turn (pids P) w avail k (card P) (shm c)"
    using calm_stuck [OF assms] by auto
  moreover have "nr_processes (shm c) = -1 \<and> first_process_ind (shm c) = -1"
    using t pids_facts(3) [OF assms(1)] by (simp add: turn_def)
  ultimately show ?thesis using drained_affinities [OF assms(1) t] by blast
qed

text \<open>
  C3. When a run without timeouts and spurious wake-ups can go no further, every process has
  returned its position in PID order as its rank, the shared state is reset, and the affinities
  of the ranks are pairwise disjoint sets of \<open>max 1 k\<close> available CPUs.
\<close>

theorem pin_process_ranks:
  assumes "node_ok P avail k env"
    and "(calm env (\<lambda>_. int (card P)))\<^sup>*\<^sup>* (initial P avail k) c" "\<nexists>c'. calm env (\<lambda>_. int (card P)) c c'"
  shows "(\<forall>r < card P. status c (sorted_list_of_set P ! r) = Returned (int r)) \<and>
    nr_processes (shm c) = -1 \<and> first_process_ind (shm c) = -1 \<and>
    (\<forall>r s. r < s \<and> s < card P \<longrightarrow> cpus_of (affinities (shm c) ! r) \<inter> cpus_of (affinities (shm c) ! s) = {}) \<and>
    (\<forall>r < card P. cpus_of (affinities (shm c) ! r) \<subseteq> cpus_of avail \<and> card (cpus_of (affinities (shm c) ! r)) = nat (max 1 k))"
  by (rule calm_final [OF assms])

text \<open>
  C7. Every run without timeouts and spurious wake-ups ends, and takes the same number of critical sections up to one, for \<open>n\<close>
  processes: it never has more than \<open>2n\<close>, it can always be continued to one where the process at every position in PID order has
  returned that position, and it has then \<open>2n - 1\<close> or \<open>2n\<close> of them (one to enter and one to go on for each, save for the last process
  to enter when it need not wait). It can go no further only then, so that no run stops early.
\<close>

theorem pin_process_terminates:
  assumes "node_ok P avail k env" "((calm env (\<lambda>_. int (card P))) ^^ m) (initial P avail k) c"
  shows "m \<le> 2 * card P \<and>
    (\<exists>j c'. ((calm env (\<lambda>_. int (card P))) ^^ j) c c' \<and> m + j \<in> {2 * card P - 1, 2 * card P} \<and>
       (\<forall>r < card P. status c' (sorted_list_of_set P ! r) = Returned (int r))) \<and>
    ((\<nexists>c'. calm env (\<lambda>_. int (card P)) c c') \<longleftrightarrow> (\<forall>r < card P. status c (sorted_list_of_set P ! r) = Returned (int r))) \<and>
    ((\<nexists>c'. calm env (\<lambda>_. int (card P)) c c') \<longrightarrow> m \<in> {2 * card P - 1, 2 * card P})"
proof -
  let ?step = "calm env (\<lambda>_. int (card P))"
  have pow: "?step\<^sup>*\<^sup>* (initial P avail k) c'" if "(?step ^^ j) (initial P avail k) c'" for j c'
    using that by (rule relpowp_imp_rtranclp)
  obtain j c' where c': "(?step ^^ j) c c'" "\<nexists>c''. ?step c' c''" using calm_continues [OF assms(1) pow [OF assms(2)]] by blast
  then have run: "(?step ^^ (m + j)) (initial P avail k) c'" using assms(2) by (auto simp: relpowp_add)
  have "m + j \<in> {2 * card P - 1, 2 * card P}" using calm_counts [OF assms(1) run] c'(2) by force
  moreover have "\<forall>r < card P. status c' (pids P ! r) = Returned (int r)" using calm_final [OF assms(1) pow [OF run] c'(2)] by blast
  moreover have "m \<in> {2 * card P - 1, 2 * card P}" if "\<nexists>c''. ?step c c''" using calm_counts [OF assms(1,2)] that by force
  moreover have "(\<nexists>c'. ?step c c') \<longleftrightarrow> (\<forall>r < card P. status c (pids P ! r) = Returned (int r))"
    using calm_final [OF assms(1) pow [OF assms(2)]] all_returned_stuck [OF assms(1) pow [OF assms(2)]] by blast
  ultimately show ?thesis using calm_counts(1) [OF assms] c'(1) by blast
qed


text \<open>
  Without timeouts no process ever returns an error: whatever a process has returned is its
  position in PID order.
\<close>

theorem pin_process_no_error:
  assumes "node_ok P avail k env" "(calm env (\<lambda>_. int (card P)))\<^sup>*\<^sup>* (initial P avail k) c"
    and "status c p = Returned r"
  shows "0 \<le> r \<and> r < int (card P) \<and> p = sorted_list_of_set P ! nat r"
proof -
  obtain ph where ph: "represents P avail k c ph" using calm_reach [OF assms(1,2)] by blast
  show ?thesis
  proof (cases ph)
    case (Gather E)
    then show ?thesis using gather_status(5) [of P avail k c E] ph assms(3) by blast
  next
    case (Drain i)
    obtain j where "j < i" "p = pids P ! j" "r = int j"
      using drain_status(3) [of P avail k c i p r] ph Drain assms(1,3) node_okD(1) by blast
    moreover have "i \<le> card P" using ph Drain by simp
    ultimately show ?thesis by simp
  qed
qed

text \<open>
  C13. A timeout while processes are still missing: the process that timed out empties the list and
  returns \<^verbatim>\<open>-ETIMEDOUT\<close>, every other waiting process is signalled, and each of them returns
  \<^verbatim>\<open>-ETIMEDOUT\<close> when it runs.
\<close>

theorem pin_process_timeout:
  assumes "node_ok P avail k env" "(calm env (\<lambda>_. int (card P)))\<^sup>*\<^sup>* (initial P avail k) c"
    and "q0 \<in> P" "status c q0 = Not_entered" "status c p = Waiting i"
  shows "\<exists>pe' sig. after_wait env (shm c) p i ETIMEDOUT = Some (pe', sig, - ETIMEDOUT) \<and>
    nr_processes pe' = -1 \<and> first_process_ind pe' = -1 \<and>
    (\<forall>q j. q \<noteq> p \<and> status c q = Waiting j \<longrightarrow> j \<in> set sig \<and> after_wait env pe' q j 0 = Some (pe', [], - ETIMEDOUT))"
proof -
  obtain ph where ph: "represents P avail k c ph" using calm_reach [OF assms(1,2)] by blast
  have "\<exists>E. ph = Gather E"
  proof (cases ph)
    case (Drain i)
    then show ?thesis using drain_status(1) ph assms(4) node_okD(1) [OF assms(1)] by blast
  qed blast
  then obtain E where rep: "represents P avail k c (Gather E)" using ph by blast
  then obtain w where g: "gathered (card P) E w avail k (shm c)" and st: "\<forall>p \<in> E. status c p = Waiting (int (w p))" and "E \<subseteq> P"
    by auto
  have "finite E" using \<open>E \<subseteq> P\<close> node_okD(1) [OF assms(1)] finite_subset by blast
  have inE: "q \<in> E \<and> j = int (w q)" if "status c q = Waiting j" for q j
    using gather_status(4) [OF rep that] that st by simp
  obtain pe' sig where *: "after_wait env (shm c) p (int (w p)) ETIMEDOUT = Some (pe', sig, - ETIMEDOUT)"
      "set sig = (\<lambda>q. int (w q)) ` (E - {p})" "nr_processes pe' = -1" "first_process_ind pe' = -1"
      "\<forall>q \<in> E - {p}. after_wait env pe' q (int (w q)) 0 = Some (pe', [], - ETIMEDOUT)"
    using gathered_timeout [OF g \<open>finite E\<close>, of p env] inE [OF assms(5)] by blast
  have "j \<in> set sig \<and> after_wait env pe' q j 0 = Some (pe', [], - ETIMEDOUT)" if "q \<noteq> p" "status c q = Waiting j" for q j
    using inE [OF that(2)] *(2,5) that(1) by auto
  then show ?thesis using * inE [OF assms(5)] by auto
qed


lemma drain_waiting:
  assumes "turn (pids P) w avail k i pe" "finite P"
    and st: "\<forall>j < card P. status c (pids P ! j) = (if j < i then Returned (int j) else Waiting (int (w (pids P ! j))))"
    and "\<forall>p. p \<notin> P \<longrightarrow> status c p = Absent" "status c p = Waiting x"
  shows "\<exists>j < card P. i \<le> j \<and> p = pids P ! j \<and> x = int (w (pids P ! j))"
proof -
  have "p \<in> P" using assms(4,5) by force
  then obtain j where "j < card P" "p = pids P ! j" using pids_index [OF assms(2)] by blast
  then show ?thesis using st assms(5) by (auto split: if_splits)
qed

text \<open>
  C14. The timeout race: once all processes have entered, a process that has been signalled but has
  not run yet is not in the list any more. When another waiting process times out first, the
  signalled one goes on in the reset state and reads \<^verbatim>\<open>processes[-1]\<close>.
\<close>

theorem pin_process_timeout_race:
  assumes "node_ok P avail k env" "(calm env (\<lambda>_. int (card P)))\<^sup>*\<^sup>* (initial P avail k) c"
    and "\<forall>q \<in> P. status c q \<noteq> Not_entered"
    and "status c p = Waiting i" "i \<in> signalled c" "status c q = Waiting j" "q \<noteq> p"
  shows "\<exists>pe' sig. after_wait env (shm c) q j ETIMEDOUT = Some (pe', sig, - ETIMEDOUT) \<and> after_wait env pe' p i 0 = None"
proof -
  note fin = node_okD(1) [OF assms(1)] and PF = pids_facts [OF assms(1)]
  obtain ph where ph: "represents P avail k c ph" using calm_reach [OF assms(1,2)] by blast
  show ?thesis
  proof (cases ph)
    case (Gather E)
    then show ?thesis using gather_status(2) [of P avail k c E] ph assms(3) by auto
  next
    case (Drain m)
    obtain w where w: "turn (pids P) w avail k m (shm c)"
      "\<forall>j < card P. status c (pids P ! j) = (if j < m then Returned (int j) else Waiting (int (w (pids P ! j))))"
      "signalled c = (if m < card P then {int (w (pids P ! m))} else {})" "\<forall>p. p \<notin> P \<longrightarrow> status c p = Absent"
      using ph Drain by auto
    obtain a where a: "a < card P" "m \<le> a" "p = pids P ! a" "i = int (w (pids P ! a))"
      using drain_waiting [OF w(1) fin w(2,4) assms(4)] by blast
    obtain b where b: "b < card P" "m \<le> b" "q = pids P ! b" "j = int (w (pids P ! b))"
      using drain_waiting [OF w(1) fin w(2,4) assms(6)] by blast
    have m: "m < card P" "w (pids P ! a) = w (pids P ! m)" using assms(5) w(3) a(4) by (auto split: if_splits)
    moreover have "inj_on w P" using w(1) PF(1) by (simp add: turn_def laid_def)
    ultimately have "pids P ! a = pids P ! m" using a(1) PF(1,3) by (metis inj_onD nth_mem)
    then have am: "a = m" using a(1) m(1) PF(2,3) by (simp add: nth_eq_iff_index_eq)
    then have "m < b" using a(3) b(2,3) assms(7) by (cases "b = m") auto
    moreover obtain tops where "topology env = Some tops" "malloc_ok env"
      using assms(1) by (auto simp: node_ok_def good_env_def)
    ultimately show ?thesis
      using turn_timeout_race [OF PF(2) _ _ w(1), of b env tops] b PF(3) a(3,4) am by simp
  qed
qed

lemma pin_enter_mismatch:
  assumes "nr_processes pe \<noteq> -1" "nr_processes pe \<noteq> n"
  shows "pin_enter pe mypid n = Some (pe, [], Refused (- EINVAL))"
  using assms by (simp add: pin_enter_def)

lemma waiting_nr_processes:
  assumes "node_ok P avail k env" "(calm env (\<lambda>_. int (card P)))\<^sup>*\<^sup>* (initial P avail k) c" "status c p = Waiting i"
  shows "nr_processes (shm c) = int (card P)"
proof -
  note fin = node_okD(1) [OF assms(1)] and len = pids_facts(3) [OF assms(1)]
  obtain ph where ph: "represents P avail k c ph" using calm_reach [OF assms(1,2)] by blast
  show ?thesis
  proof (cases ph)
    case (Gather E)
    then have "p \<in> E" using gather_status(4) [of P avail k c E p i] ph assms(3) by blast
    moreover obtain w where "gathered (card P) E w avail k (shm c)" using ph Gather by auto
    ultimately show ?thesis by (auto simp: gathered_def)
  next
    case (Drain m)
    obtain w where w: "turn (pids P) w avail k m (shm c)"
        "\<forall>j < card P. status c (pids P ! j) = (if j < m then Returned (int j) else Waiting (int (w (pids P ! j))))"
        "\<forall>p. p \<notin> P \<longrightarrow> status c p = Absent"
      using ph Drain by auto
    obtain j where "j < card P" "m \<le> j" using drain_waiting [OF w(1) fin w(2,3) assms(3)] by blast
    then show ?thesis using w(1) len by (simp add: turn_def)
  qed
qed

text \<open>
  While some process of the node still waits, a process that asks for a different number of
  processes per node is refused with \<^verbatim>\<open>-EINVAL\<close>; the shared state does not change and nobody is woken.
\<close>

theorem pin_process_mismatch:
  assumes "node_ok P avail k env" "(calm env (\<lambda>_. int (card P)))\<^sup>*\<^sup>* (initial P avail k) c"
    and "status c p = Waiting i" "n \<noteq> int (card P)"
  shows "pin_enter (shm c) q n = Some (shm c, [], Refused (- EINVAL))"
  using pin_enter_mismatch [of "shm c" n q] waiting_nr_processes [OF assms(1-3)] assms(4) by simp

lemma all_slots_used:
  assumes "laid pe E w" "finite E" "card E = MAX_PROCESSES" "0 \<notin> E" "s < MAX_PROCESSES"
  shows "pid (processes pe ! s) \<noteq> 0"
proof -
  have "w ` E \<subseteq> {..<MAX_PROCESSES}" "card (w ` E) = card {..<MAX_PROCESSES}"
    using assms(1,3) by (auto simp: laid_def card_image)
  then have "w ` E = {..<MAX_PROCESSES}" by (intro card_subset_eq) auto
  then obtain p where "p \<in> E" "s = w p" using assms(5) by (metis imageE lessThan_iff)
  then show ?thesis using assms(1,4) by (auto simp: laid_def)
qed

text \<open>
  Slots are never given back: after a complete run with 1024 processes, the next process that calls
  \<^verbatim>\<open>pin_process()\<close> on the same shared memory finds no empty slot and writes to \<^verbatim>\<open>processes[-1]\<close>.
\<close>

theorem pin_process_no_slot:
  assumes "node_ok P avail k env" "card P = MAX_PROCESSES"
    and "(calm env (\<lambda>_. int (card P)))\<^sup>*\<^sup>* (initial P avail k) c" "\<nexists>c'. calm env (\<lambda>_. int (card P)) c c'"
  shows "nr_processes (shm c) = -1 \<and> find_empty_slot (shm c) = -1 \<and> pin_enter (shm c) q n = None"
proof -
  obtain w where t: "turn (pids P) w avail k (card P) (shm c)" using calm_stuck [OF assms(1,3,4)] by auto
  have "laid (shm c) P w" "nr_processes (shm c) = -1"
    using t pids_facts(1,3) [OF assms(1)] by (simp_all add: turn_def)
  moreover from all_slots_used [OF this(1) node_okD(1) [OF assms(1)] assms(2) node_okD(4) [OF assms(1)]]
  have "\<forall>s < MAX_PROCESSES. pid (processes (shm c) ! s) \<noteq> 0" by blast
  moreover from this have "find_empty_slot (shm c) = -1"
    by (auto simp: find_empty_slot_def find_Some_iff split: option.split)
  ultimately show ?thesis using pin_enter_full [of "shm c" n q] by simp
qed

section \<open>A concrete node\<close>

text \<open>Three processes on the node with the four CPUs of theory \<open>Partition\<close>.\<close>

definition example_env :: environment where
  "example_env = \<lparr>nprocs_conf = 4, topology = Some example_tops, malloc_ok = True, setaffinity_ok = (\<lambda>s. CPU_COUNT s \<noteq> 0)\<rparr>"

definition example_pids :: "int set" where
  "example_pids = {101, 102, 103}"

lemma example_ok: "node_ok example_pids (example_cpus [0, 1, 2, 3]) 1 example_env"
proof -
  have "setaffinity_ok example_env s" if "wf_cpus s" "cpus_of s \<noteq> {}" for s
    using that by (simp add: example_env_def CPU_COUNT_eq card_gt_0_iff)
  moreover note example_topology
  moreover have "nprocs_conf example_env = 4" "malloc_ok example_env" "topology example_env = Some example_tops"
    by (simp_all add: example_env_def)
  ultimately show ?thesis
    by (simp add: node_ok_def good_env_def example_pids_def MAX_PROCESSES_def example_cpus_facts)
qed

lemma example_sorted: "sorted_list_of_set example_pids = [101, 102, 103]"
proof -
  have "sorted_list_of_set {101, 102, 103 :: int} = [101, 102, 103]" by (rule sorted_list_of_set_unique [THEN iffD1]) auto
  then show ?thesis by (simp add: example_pids_def)
qed

lemma example_card: "card example_pids = 3"
  by (simp add: example_pids_def)

abbreviation example_step :: "config \<Rightarrow> config \<Rightarrow> bool" where
  "example_step \<equiv> calm example_env (\<lambda>_. int (card example_pids))"

abbreviation example_initial :: config where
  "example_initial \<equiv> initial example_pids (example_cpus [0, 1, 2, 3]) 1"

theorem pin_process_ranks_witness:
  "\<exists>c. example_step\<^sup>*\<^sup>* example_initial c \<and> status c 101 = Returned 0 \<and> status c 102 = Returned 1 \<and> status c 103 = Returned 2 \<and>
     cpus_of (affinities (shm c) ! 0) \<inter> cpus_of (affinities (shm c) ! 1) = {}"
proof -
  obtain c where c: "example_step\<^sup>*\<^sup>* example_initial c" "\<nexists>c'. example_step c c'"
    using calm_completes [OF example_ok] by blast
  from pin_process_ranks [OF example_ok c]
  have r: "\<forall>r < 3. status c ([101, 102, 103] ! r) = Returned (int r)"
      "\<forall>r s. r < s \<and> s < 3 \<longrightarrow> cpus_of (affinities (shm c) ! r) \<inter> cpus_of (affinities (shm c) ! s) = {}"
    by (simp_all only: example_sorted example_card) auto
  have "status c 101 = Returned 0" "status c 102 = Returned 1" "status c 103 = Returned 2"
    using r(1) [rule_format, of 0] r(1) [rule_format, of 1] r(1) [rule_format, of 2] by simp_all
  then show ?thesis using r(2) [rule_format, of 0 1] c(1) by auto
qed

lemma example_first_step:
  "\<exists>c p i. example_step example_initial c \<and> p \<in> example_pids \<and> status c p = Waiting i \<and>
     (\<exists>q \<in> example_pids. status c q = Not_entered)"
proof -
  note ok = example_ok and r = represents_initial [OF example_ok]
  obtain c where c: "example_step example_initial c"
    using progress [OF ok r] example_card by auto
  obtain ph where ph: "phase_step example_pids (Gather {}) ph" "represents example_pids (example_cpus [0, 1, 2, 3]) 1 c ph"
    using simulate_gather [OF ok r c] by blast
  from ph(1) show ?thesis
  proof cases
    case (join p)
    have "(101 :: int) \<noteq> p \<or> 102 \<noteq> p" by linarith
    then obtain q where "q \<in> example_pids" "q \<noteq> p" unfolding example_pids_def by blast
    note st = gather_status(1,2) [OF ph(2) [unfolded join(1)]]
    obtain i where "status c p = Waiting i" using st(1) [of p] by blast
    moreover have "status c q = Not_entered" using st(2) [of q] \<open>q \<in> example_pids\<close> \<open>q \<noteq> p\<close> by simp
    ultimately show ?thesis using c join(2) \<open>q \<in> example_pids\<close> by blast
  next
    case (join_last p)
    then have "card example_pids = card {p}" by simp
    then show ?thesis by (simp add: example_card)
  qed
qed

theorem pin_process_terminates_witness:
  "\<exists>c j c'. (example_step ^^ 1) example_initial c \<and> (example_step ^^ j) c c' \<and> 1 + j \<in> {5, 6} \<and>
     (\<forall>r < 3. status c' ([101, 102, 103] ! r) = Returned (int r))"
proof -
  obtain c where c: "(example_step ^^ 1) example_initial c" using example_first_step by auto
  have n: "2 * card example_pids = 6" "(6 :: nat) - 1 = 5" by (simp_all add: example_card)
  from pin_process_terminates [OF example_ok c, unfolded n example_sorted]
  obtain j c' where "(example_step ^^ j) c c'" "1 + j \<in> {5, 6}" "\<forall>r < card example_pids. status c' ([101, 102, 103] ! r) = Returned (int r)"
    by blast
  then show ?thesis using c by (metis example_card)
qed


theorem pin_process_no_error_witness:
  "\<exists>c. example_step\<^sup>*\<^sup>* example_initial c \<and> status c 101 = Returned 0 \<and>
     (0 :: int) < int (card example_pids) \<and> 101 = sorted_list_of_set example_pids ! 0"
proof -
  obtain c where c: "example_step\<^sup>*\<^sup>* example_initial c" "\<nexists>c'. example_step c c'"
    using calm_completes [OF example_ok] by blast
  have "status c (pids example_pids ! 0) = Returned (int 0)"
    using drain_status(2) [OF calm_stuck [OF example_ok c], of 0] by (simp add: example_pids_def)
  then have s: "status c 101 = Returned 0" by (simp add: example_sorted)
  from pin_process_no_error [OF example_ok c(1) s] s c(1) show ?thesis by auto
qed

theorem pin_process_timeout_witness:
  "\<exists>c p i pe' sig. example_step\<^sup>*\<^sup>* example_initial c \<and> status c p = Waiting i \<and>
     after_wait example_env (shm c) p i ETIMEDOUT = Some (pe', sig, - ETIMEDOUT) \<and> first_process_ind pe' = -1"
proof -
  obtain c p i q where c: "example_step example_initial c" "status c p = Waiting i" "q \<in> example_pids" "status c q = Not_entered"
    using example_first_step by blast
  have r: "example_step\<^sup>*\<^sup>* example_initial c" using c(1) by blast
  from pin_process_timeout [OF example_ok r c(3,4,2)] show ?thesis using r c(2) by blast
qed

lemma reaches_drain:
  assumes ok: "node_ok P avail k env" and "represents P avail k c (Gather E)"
  shows "\<exists>c' i. (calm env (\<lambda>_. int (card P)))\<^sup>*\<^sup>* c c' \<and> i \<le> 1 \<and> represents P avail k c' (Drain i)"
  using assms(2)
proof (induction "card P - card E" arbitrary: E c rule: less_induct)
  case less
  have E: "E \<subseteq> P" "E \<noteq> P" using less.prems by auto
  then have cE: "card E < card P" "finite E" using node_okD(1) [OF ok] by (auto intro: psubset_card_mono finite_subset)
  then have "0 < remaining (card P) (Gather E)" by simp
  then obtain c1 where c1: "calm env (\<lambda>_. int (card P)) c c1" using progress [OF ok less.prems] by blast
  then obtain ph where ph: "phase_step P (Gather E) ph" "represents P avail k c1 ph" using simulate_gather [OF ok less.prems] by blast
  from ph(1) show ?case
  proof cases
    case (join p)
    then have "card P - card (insert p E) < card P - card E" using cE by simp
    from less.hyps [OF this ph(2) [unfolded join(1)]] show ?thesis using c1 by (meson converse_rtranclp_into_rtranclp)
  next
    case (join_last p)
    then show ?thesis using c1 ph(2) by (intro exI [of _ c1] exI [of _ "if p = Min P then 1 else 0"]) auto
  qed
qed

theorem pin_process_timeout_race_witness:
  "\<exists>c p q i j pe' sig. example_step\<^sup>*\<^sup>* example_initial c \<and> status c p = Waiting i \<and> status c q = Waiting j \<and>
     after_wait example_env (shm c) q j ETIMEDOUT = Some (pe', sig, - ETIMEDOUT) \<and> after_wait example_env pe' p i 0 = None"
proof -
  obtain c m where c: "example_step\<^sup>*\<^sup>* example_initial c" "m \<le> 1" "represents example_pids (example_cpus [0, 1, 2, 3]) 1 c (Drain m)"
    using reaches_drain [OF example_ok represents_initial [OF example_ok]] by blast
  obtain w where st: "\<forall>j < 3. status c ([101, 102, 103 :: int] ! j) = (if j < m then Returned (int j) else Waiting (int (w ([101, 102, 103 :: int] ! j))))"
      and sg: "signalled c = {int (w ([101, 102, 103 :: int] ! m))}"
    using c(2) c(3) [unfolded represents.simps example_sorted example_card] by auto
  let ?p = "[101, 102, 103 :: int] ! m" and ?q = "[101, 102, 103 :: int] ! Suc m"
  have ne: "?q \<noteq> ?p" using c(2) by (cases m) auto
  have s: "status c ?p = Waiting (int (w ?p))" "status c ?q = Waiting (int (w ?q))" using st [rule_format, of m] st [rule_format, of "Suc m"] c(2) by simp_all
  have "\<forall>q \<in> example_pids. status c q \<noteq> Not_entered"
    using drain_status(1) [OF c(3)] by (simp add: example_pids_def)
  from pin_process_timeout_race [OF example_ok c(1) this s(1) _ s(2) ne] sg s c(1) show ?thesis by blast
qed

theorem pin_process_mismatch_witness:
  "\<exists>c. example_step example_initial c \<and> pin_enter (shm c) 104 8 = Some (shm c, [], Refused (- EINVAL))"
proof -
  obtain c p i where c: "example_step example_initial c" "status c p = Waiting i" using example_first_step by blast
  have "example_step\<^sup>*\<^sup>* example_initial c" "(8 :: int) \<noteq> int (card example_pids)" using c(1) by (blast, simp add: example_card)
  from pin_process_mismatch [OF example_ok this(1) c(2) this(2)] c(1) show ?thesis by blast
qed

text \<open>A node with 1024 CPUs and as many processes.\<close>

definition full_env :: environment where
  "full_env = \<lparr>nprocs_conf = 1024,
     topology = Some (map (\<lambda>cpu. \<lparr>cpu_id = cpu, node_id = 0, hw_id = 0, physical_package_id = 0, core_id = 0,
       core_siblings = CPU_ZERO, thread_siblings = CPU_ZERO, cache_topology_list = []\<rparr>) [0..<1024]),
     malloc_ok = True, setaffinity_ok = (\<lambda>_. True)\<rparr>"

lemma full_ok: "node_ok {1..1024} (replicate 16 (-1)) 1 full_env" "card {1..1024 :: int} = MAX_PROCESSES"
proof -
  have c: "cpus_of (replicate 16 (-1)) = {..<1024}"
    by (auto simp: cpus_of_def bm_set_def bm_bit_def)
  have "covers (map (\<lambda>cpu. \<lparr>cpu_id = cpu, node_id = 0, hw_id = 0, physical_package_id = 0, core_id = 0,
       core_siblings = CPU_ZERO, thread_siblings = CPU_ZERO, cache_topology_list = []\<rparr>) [0..<1024]) {..<1024}"
    unfolding covers_def set_map set_upt by auto
  moreover have "wf_topology (map (\<lambda>cpu. \<lparr>cpu_id = cpu, node_id = 0, hw_id = 0, physical_package_id = 0, core_id = 0,
       core_siblings = CPU_ZERO, thread_siblings = CPU_ZERO, cache_topology_list = []\<rparr>) [0..<1024])"
    unfolding wf_topology_def set_map set_upt by auto
  ultimately show "node_ok {1..1024} (replicate 16 (-1)) 1 full_env"
    by (simp add: node_ok_def good_env_def full_env_def c MAX_PROCESSES_def wf_cpus_def del: upt_rec_numeral)
  show "card {1..1024 :: int} = MAX_PROCESSES" by (simp add: MAX_PROCESSES_def)
qed

theorem pin_process_no_slot_witness:
  "\<exists>c. (calm full_env (\<lambda>_. 1024))\<^sup>*\<^sup>* (initial {1..1024} (replicate 16 (-1)) 1) c \<and> pin_enter (shm c) 2000 8 = None"
proof -
  have n: "int (card {1..1024 :: int}) = 1024" by simp
  obtain c where c: "(calm full_env (\<lambda>_. int (card {1..1024 :: int})))\<^sup>*\<^sup>* (initial {1..1024} (replicate 16 (-1)) 1) c"
      "\<nexists>c'. calm full_env (\<lambda>_. int (card {1..1024 :: int})) c c'"
    using calm_completes [OF full_ok(1)] by blast
  from pin_process_no_slot [OF full_ok c] c(1) show ?thesis unfolding n by blast
qed

end
