(* ===== verification/Bitmap_Shift.thy ===== *)
theory Bitmap_Shift
  imports Bitmap_Core
begin

text \<open>
  \<^verbatim>\<open>__bitmap_shift_right()\<close> and \<^verbatim>\<open>__bitmap_shift_left()\<close> of \<^verbatim>\<open>bitmap.c\<close> (lines 122 to 203), with the
  source possibly the destination itself (\<^verbatim>\<open>__bitmap_parse()\<close> shifts in place).
  When the shift is a multiple of 64 the code shifts the value 0 by 64 places; C leaves that
  undefined, on both supported targets the result is 0, which is also what \<open>push_bit\<close> and \<open>drop_bit\<close> give.
  The lemmas give the bits of the result, and show that the words behind the bitmap are kept.
\<close>

section \<open>The operations\<close>

definition memset0 :: "ulong list \<Rightarrow> nat \<Rightarrow> nat \<Rightarrow> ulong list option" where
  "memset0 dst from n = fold_opt (\<lambda>k d. wr d k 0) [from..<from + n] dst"

definition shift_right_word :: "operand \<Rightarrow> nat \<Rightarrow> nat \<Rightarrow> nat \<Rightarrow> nat \<Rightarrow> nat \<Rightarrow> ulong list \<Rightarrow> ulong list option" where
  "shift_right_word src lim left off rem k dst = (let mask = push_bit left 1 - 1 in do {
     upper \<leftarrow> (if rem = 0 \<or> off + k + 1 \<ge> lim then Some 0
              else do {
                upper \<leftarrow> rd_op src dst (off + k + 1);
                Some (if off + k + 1 = lim - 1 \<and> left \<noteq> 0 then upper AND mask else upper) });
     lower \<leftarrow> rd_op src dst (off + k);
     let lower = (if left \<noteq> 0 \<and> off + k = lim - 1 then lower AND mask else lower);
     let w = push_bit (64 - rem) upper OR drop_bit rem lower;
     wr dst k (if left \<noteq> 0 \<and> k = lim - 1 then w AND mask else w) })"

definition bitmap_shift_right' :: "ulong list \<Rightarrow> operand \<Rightarrow> nat \<Rightarrow> nat \<Rightarrow> ulong list option" where
  "bitmap_shift_right' dst src shift bits =
     (let lim = BITS_TO_LONGS bits; left = bits mod 64; off = shift div 64; rem = shift mod 64 in do {
        dst \<leftarrow> fold_opt (shift_right_word src lim left off rem) [0..<lim - off] dst;
        if off \<noteq> 0 then (if off \<le> lim then memset0 dst (lim - off) off else None) else Some dst })"

definition shift_left_word :: "operand \<Rightarrow> nat \<Rightarrow> nat \<Rightarrow> nat \<Rightarrow> nat \<Rightarrow> nat \<Rightarrow> ulong list \<Rightarrow> ulong list option" where
  "shift_left_word src lim left off rem k dst = do {
     lower \<leftarrow> (if rem \<noteq> 0 \<and> k > 0 then rd_op src dst (k - 1) else Some 0);
     upper \<leftarrow> rd_op src dst k;
     let upper = (if left \<noteq> 0 \<and> k = lim - 1 then upper AND (push_bit left 1 - 1) else upper);
     let w = drop_bit (64 - rem) lower OR push_bit rem upper;
     wr dst (k + off) (if left \<noteq> 0 \<and> k + off = lim - 1 then w AND (push_bit left 1 - 1) else w) }"

definition bitmap_shift_left' :: "ulong list \<Rightarrow> operand \<Rightarrow> nat \<Rightarrow> nat \<Rightarrow> ulong list option" where
  "bitmap_shift_left' dst src shift bits =
     (let lim = BITS_TO_LONGS bits; left = bits mod 64; off = shift div 64; rem = shift mod 64 in do {
        dst \<leftarrow> fold_opt (shift_left_word src lim left off rem) (rev [0..<lim - off]) dst;
        if off \<noteq> 0 then memset0 dst 0 off else Some dst })"

section \<open>Loops that write one word at a time\<close>

lemma fold_up:
  assumes "\<And>k d'. k < n \<Longrightarrow> length d' = length d \<Longrightarrow> (\<forall>j \<ge> k. d' ! j = d ! j) \<Longrightarrow> body k d' = Some (d'[k := f k])"
    and "n \<le> length d"
  shows "\<exists>d'. fold_opt body [0..<n] d = Some d' \<and> length d' = length d \<and> (\<forall>j. d' ! j = (if j < n then f j else d ! j))"
  using assms
proof (induction n)
  case (Suc n)
  then obtain d' where d': "fold_opt body [0..<n] d = Some d'" "length d' = length d" "\<forall>j. d' ! j = (if j < n then f j else d ! j)"
    by force
  then have "body n d' = Some (d'[n := f n])" using Suc.prems by simp
  then show ?case using d' Suc.prems(2) by (auto simp: fold_opt_append nth_list_update)
qed simp

lemma fold_down:
  assumes "\<And>k d'. k < n \<Longrightarrow> length d' = length d \<Longrightarrow> (\<forall>j \<le> k + off. d' ! j = d ! j) \<Longrightarrow> body k d' = Some (d'[k + off := f k])"
    and "n + off \<le> length d"
  shows "\<exists>d'. fold_opt body (rev [0..<n]) d = Some d' \<and> length d' = length d \<and>
    (\<forall>j. d' ! j = (if off \<le> j \<and> j < n + off then f (j - off) else d ! j))"
proof -
  have "\<exists>d'. fold_opt body (rev [m..<n]) d = Some d' \<and> length d' = length d \<and>
      (\<forall>j. d' ! j = (if m + off \<le> j \<and> j < n + off then f (j - off) else d ! j))" if "m \<le> n" for m
    using that
  proof (induction "n - m" arbitrary: m)
    case 0
    then show ?case by auto
  next
    case (Suc x)
    then have m: "m < n" "x = n - Suc m" by linarith+
    then obtain d' where d': "fold_opt body (rev [Suc m..<n]) d = Some d'" "length d' = length d"
        "\<forall>j. d' ! j = (if Suc m + off \<le> j \<and> j < n + off then f (j - off) else d ! j)"
      using Suc.hyps(1) [OF m(2)] by force
    have "body m d' = Some (d'[m + off := f m])" using assms(1) [OF m(1) d'(2)] d'(3) by simp
    moreover have "rev [m..<n] = rev [Suc m..<n] @ [m]" using m(1) by (simp add: upt_conv_Cons)
    moreover have "m + off < length d'" using m(1) assms(2) d'(2) by linarith
    moreover have "d'[m + off := f m] ! j = (if m + off \<le> j \<and> j < n + off then f (j - off) else d ! j)" for j
      using d'(3) m(1) calculation(3) by (cases "j = m + off") (auto simp: nth_list_update)
    ultimately show ?case using d' by (auto simp: fold_opt_append)
  qed
  from this [of 0] show ?thesis by simp
qed

lemma memset0_eq:
  assumes "from + n \<le> length d"
  shows "\<exists>d'. memset0 d from n = Some d' \<and> length d' = length d \<and>
    (\<forall>j. d' ! j = (if from \<le> j \<and> j < from + n then 0 else d ! j))"
  using assms
proof (induction n)
  case (Suc n)
  then obtain d' where d': "memset0 d from n = Some d'" "length d' = length d"
      "\<forall>j. d' ! j = (if from \<le> j \<and> j < from + n then 0 else d ! j)" by force
  then have "memset0 d from (Suc n) = Some (d'[from + n := 0])"
    using Suc.prems by (simp add: memset0_def fold_opt_append wr_in del: wr_eq_Some)
  then show ?case using d' Suc.prems by (auto simp: nth_list_update)
qed (auto simp: memset0_def)

section \<open>The shifts\<close>

lemma idx_split: "\<exists>t j. i = 64 * t + j \<and> j < 64 \<and> i div 64 = t \<and> i mod 64 = (j :: nat)"
  using mod_less_divisor [of 64 i] by (intro exI [of _ "i div 64"] exI [of _ "i mod 64"]) simp

lemma below_bits:
  assumes "t < BITS_TO_LONGS bits" "j < 64"
  shows "64 * t + j < bits \<longleftrightarrow> (bits mod 64 \<noteq> 0 \<and> t = BITS_TO_LONGS bits - 1 \<longrightarrow> j < bits mod 64)"
proof -
  have b: "bits = 64 * (bits div 64) + bits mod 64" by simp
  show ?thesis
  proof (cases "bits mod 64 = 0")
    case True
    then have "t < bits div 64" using assms by (simp add: BITS_TO_LONGS_eq)
    then have "64 * t + j < bits" using b True assms(2) by linarith
    then show ?thesis using True by simp
  next
    case False
    then have l: "BITS_TO_LONGS bits = bits div 64 + 1" by (simp add: BITS_TO_LONGS_eq)
    then have "64 * t + j < bits \<longleftrightarrow> t < bits div 64 \<or> t = bits div 64 \<and> j < bits mod 64"
      using b assms mod_less_divisor [of 64 bits] by linarith
    then show ?thesis using l False assms(1) by auto
  qed
qed

lemma bit_low_mask: "l < 64 \<Longrightarrow> bit (push_bit l 1 - 1 :: ulong) j \<longleftrightarrow> j < l"
proof -
  assume "l < 64"
  moreover have "push_bit l 1 - 1 = (mask l :: ulong)" by (simp add: mask_eq_exp_minus_1 push_bit_eq_mult)
  ultimately show ?thesis by (auto simp: bit_mask_iff)
qed

lemma rd_op_src:
  assumes "k < length (op_words s d)" "length d' = length d" "k < length d" "d' ! k = d ! k"
  shows "rd_op s d' k = Some (op_words s d ! k)"
  using assms by (intro rd_op_eq) simp_all

definition left_word :: "ulong list \<Rightarrow> nat \<Rightarrow> nat \<Rightarrow> nat \<Rightarrow> nat \<Rightarrow> nat \<Rightarrow> ulong" where
  "left_word S lim left off rem k =
     (let lower = (if rem \<noteq> 0 \<and> k > 0 then S ! (k - 1) else 0);
          upper = (if left \<noteq> 0 \<and> k = lim - 1 then S ! k AND (push_bit left 1 - 1) else S ! k);
          w = drop_bit (64 - rem) lower OR push_bit rem upper
      in if left \<noteq> 0 \<and> k + off = lim - 1 then w AND (push_bit left 1 - 1) else w)"

definition right_word :: "ulong list \<Rightarrow> nat \<Rightarrow> nat \<Rightarrow> nat \<Rightarrow> nat \<Rightarrow> nat \<Rightarrow> ulong" where
  "right_word S lim left off rem k =
     (let m = push_bit left 1 - 1;
          upper = (if rem = 0 \<or> off + k + 1 \<ge> lim then 0
                   else if off + k + 1 = lim - 1 \<and> left \<noteq> 0 then S ! (off + k + 1) AND m else S ! (off + k + 1));
          lower = (if left \<noteq> 0 \<and> off + k = lim - 1 then S ! (off + k) AND m else S ! (off + k));
          w = push_bit (64 - rem) upper OR drop_bit rem lower
      in if left \<noteq> 0 \<and> k = lim - 1 then w AND m else w)"

lemma shift_left_words:
  assumes "backed dst bits" "backed (op_words s dst) bits" "shift div 64 \<le> BITS_TO_LONGS bits"
  defines "lim \<equiv> BITS_TO_LONGS bits" and "off \<equiv> shift div 64"
  shows "\<exists>d'. bitmap_shift_left' dst s shift bits = Some d' \<and> length d' = length dst \<and>
    (\<forall>j. d' ! j = (if j < off then 0
       else if j < lim then left_word (op_words s dst) lim (bits mod 64) off (shift mod 64) (j - off) else dst ! j))"
proof -
  let ?left = "bits mod 64" and ?rem = "shift mod 64" and ?S = "op_words s dst"
  have lim: "lim \<le> length dst" "lim \<le> length ?S" using assms(1,2) backed_longs by (auto simp: lim_def)
  have off: "off \<le> lim" using assms(3) by (simp add: lim_def off_def)
  have "\<exists>d'. fold_opt (shift_left_word s lim ?left off ?rem) (rev [0..<lim - off]) dst = Some d' \<and> length d' = length dst \<and>
      (\<forall>j. d' ! j = (if off \<le> j \<and> j < lim - off + off then left_word ?S lim ?left off ?rem (j - off) else dst ! j))"
  proof (rule fold_down)
    fix k d'
    assume k: "k < lim - off" and d': "length d' = length dst" "\<forall>j \<le> k + off. d' ! j = dst ! j"
    have kl: "k < length dst" "k < length ?S" "k + off < length dst" using k lim off by linarith+
    have "rd_op s d' k = Some (?S ! k)" by (rule rd_op_src) (use kl d' in auto)
    moreover have "k > 0 \<Longrightarrow> rd_op s d' (k - 1) = Some (?S ! (k - 1))" by (rule rd_op_src) (use kl d' in auto)
    ultimately show "shift_left_word s lim ?left off ?rem k d' = Some (d'[k + off := left_word ?S lim ?left off ?rem k])"
      using kl(3) d'(1) by (simp add: shift_left_word_def left_word_def Let_def wr_in del: wr_eq_Some)
  qed (use lim off in simp)
  then obtain d1 where d1: "fold_opt (shift_left_word s lim ?left off ?rem) (rev [0..<lim - off]) dst = Some d1"
    "length d1 = length dst" "\<forall>j. d1 ! j = (if off \<le> j \<and> j < lim then left_word ?S lim ?left off ?rem (j - off) else dst ! j)"
    using off by auto
  show ?thesis
  proof (cases "off = 0")
    case True
    then have "bitmap_shift_left' dst s shift bits = Some d1"
      using d1(1) by (simp add: bitmap_shift_left'_def Let_def flip: lim_def off_def)
    then show ?thesis using d1 True by auto
  next
    case False
    obtain d2 where d2: "memset0 d1 0 off = Some d2" "length d2 = length d1" "\<forall>j. d2 ! j = (if j < off then 0 else d1 ! j)"
      using memset0_eq [of 0 off d1] off lim d1(2) by auto
    then have "bitmap_shift_left' dst s shift bits = Some d2"
      using d1(1) False by (simp add: bitmap_shift_left'_def Let_def flip: lim_def off_def)
    then show ?thesis using d1 d2 by auto
  qed
qed

lemma shift_right_words:
  assumes "backed dst bits" "backed (op_words s dst) bits" "shift div 64 \<le> BITS_TO_LONGS bits"
  defines "lim \<equiv> BITS_TO_LONGS bits" and "off \<equiv> shift div 64"
  shows "\<exists>d'. bitmap_shift_right' dst s shift bits = Some d' \<and> length d' = length dst \<and>
    (\<forall>j. d' ! j = (if j < lim - off then right_word (op_words s dst) lim (bits mod 64) off (shift mod 64) j
       else if j < lim then 0 else dst ! j))"
proof -
  let ?left = "bits mod 64" and ?rem = "shift mod 64" and ?S = "op_words s dst"
  have lim: "lim \<le> length dst" "lim \<le> length ?S" using assms(1,2) backed_longs by (auto simp: lim_def)
  have off: "off \<le> lim" using assms(3) by (simp add: lim_def off_def)
  have "\<exists>d'. fold_opt (shift_right_word s lim ?left off ?rem) [0..<lim - off] dst = Some d' \<and> length d' = length dst \<and>
      (\<forall>j. d' ! j = (if j < lim - off then right_word ?S lim ?left off ?rem j else dst ! j))"
  proof (rule fold_up)
    fix k d'
    assume k: "k < lim - off" and d': "length d' = length dst" "\<forall>j \<ge> k. d' ! j = dst ! j"
    have kl: "off + k < length dst" "off + k < length ?S" "k < length dst" using k lim off by linarith+
    have "rd_op s d' (off + k) = Some (?S ! (off + k))" by (rule rd_op_src) (use kl d' in auto)
    moreover have "off + k + 1 < lim \<Longrightarrow> rd_op s d' (off + k + 1) = Some (?S ! (off + k + 1))"
      by (rule rd_op_src) (use kl d' lim in auto)
    ultimately show "shift_right_word s lim ?left off ?rem k d' = Some (d'[k := right_word ?S lim ?left off ?rem k])"
      using kl(3) d'(1)
      by (cases "?rem = 0 \<or> off + k + 1 \<ge> lim")
        (simp_all only: shift_right_word_def right_word_def Let_def wr_in if_True if_False bind.bind_lunit de_Morgan_disj not_le
          not_False_eq_True simp_thms if_distrib [of Some, symmetric])
  qed (use lim in simp)
  then obtain d1 where d1: "fold_opt (shift_right_word s lim ?left off ?rem) [0..<lim - off] dst = Some d1"
    "length d1 = length dst" "\<forall>j. d1 ! j = (if j < lim - off then right_word ?S lim ?left off ?rem j else dst ! j)"
    by auto
  show ?thesis
  proof (cases "off = 0")
    case True
    then have "bitmap_shift_right' dst s shift bits = Some d1"
      using d1(1) by (simp add: bitmap_shift_right'_def Let_def flip: lim_def off_def)
    then show ?thesis using d1 True by auto
  next
    case False
    obtain d2 where d2: "memset0 d1 (lim - off) off = Some d2" "length d2 = length d1"
      "\<forall>j. d2 ! j = (if lim - off \<le> j \<and> j < lim - off + off then 0 else d1 ! j)"
      using memset0_eq [of "lim - off" off d1] off lim d1(2) by auto
    then have "bitmap_shift_right' dst s shift bits = Some d2"
      using d1(1) False off by (simp add: bitmap_shift_right'_def Let_def flip: lim_def off_def)
    then show ?thesis using d1 d2 off by auto
  qed
qed


lemma bit_masked:
  assumes "left < 64"
  shows "bit (if left \<noteq> 0 \<and> c then w AND (push_bit left 1 - 1) else w :: ulong) j \<longleftrightarrow> bit w j \<and> (left \<noteq> 0 \<and> c \<longrightarrow> j < left)"
  using assms by (auto simp: bit_and_iff bit_low_mask simp del: push_bit_of_1)

lemma bit_left_word:
  assumes S: "backed S bits" and rem: "rem < 64" and t: "k + off < BITS_TO_LONGS bits" and j: "j < 64"
  shows "bit (left_word S (BITS_TO_LONGS bits) (bits mod 64) off rem k) j \<longleftrightarrow>
    64 * (k + off) + j < bits \<and> rem \<le> 64 * k + j \<and> bm_bit S (64 * k + j - rem)"
proof -
  let ?lim = "BITS_TO_LONGS bits" and ?left = "bits mod 64"
  let ?tail = "?left \<noteq> 0 \<and> k + off = ?lim - 1 \<longrightarrow> j < ?left"
  have lf: "?left < 64" by simp
  have lim: "?lim \<le> length S" using S by (rule backed_longs)
  have tail: "64 * (k + off) + j < bits \<longleftrightarrow> ?tail" by (rule below_bits [OF t j])
  let ?lower = "if rem \<noteq> 0 \<and> k > 0 then S ! (k - 1) else 0"
  let ?upper = "if ?left \<noteq> 0 \<and> k = ?lim - 1 then S ! k AND (push_bit ?left 1 - 1) else S ! k"
  have b: "bit (left_word S ?lim ?left off rem k) j \<longleftrightarrow> bit (drop_bit (64 - rem) ?lower OR push_bit rem ?upper) j \<and> ?tail"
    unfolding left_word_def Let_def by (rule bit_masked [OF lf])
  have low: "bit ?lower x \<longleftrightarrow> rem \<noteq> 0 \<and> k > 0 \<and> bm_bit S (64 * (k - 1) + x)" if "x < 64" for x
    using bm_bit_word [of "k - 1" S x] that t lim by auto
  have up: "bit ?upper x \<longleftrightarrow> (?left \<noteq> 0 \<and> k = ?lim - 1 \<longrightarrow> x < ?left) \<and> bm_bit S (64 * k + x)" if "x < 64" for x
    using bit_masked [OF lf, of "k = ?lim - 1" "S ! k" x] bm_bit_word [of k S x] that t lim by auto
  have core: "bit (drop_bit (64 - rem) Lo OR push_bit rem U) j \<and> ?tail \<longleftrightarrow>
      ?tail \<and> rem \<le> 64 * k + j \<and> bm_bit S (64 * k + j - rem)"
    if low: "\<And>x. x < 64 \<Longrightarrow> bit Lo x \<longleftrightarrow> rem \<noteq> 0 \<and> k > 0 \<and> bm_bit S (64 * (k - 1) + x)"
      and up: "\<And>x. x < 64 \<Longrightarrow> bit U x \<longleftrightarrow> (?left \<noteq> 0 \<and> k = ?lim - 1 \<longrightarrow> x < ?left) \<and> bm_bit S (64 * k + x)"
    for U Lo :: ulong
  proof (cases "rem \<le> j")
    case True
    have "\<not> bit Lo (64 - rem + j)" using True by (auto dest: bit_imp_le_length)
    then have "bit (drop_bit (64 - rem) Lo OR push_bit rem U) j \<longleftrightarrow> bit U (j - rem)"
      using True j by (simp add: bit_or_iff bit_drop_bit_eq bit_push_bit_iff)
    also have "\<dots> \<longleftrightarrow> (?left \<noteq> 0 \<and> k = ?lim - 1 \<longrightarrow> j - rem < ?left) \<and> bm_bit S (64 * k + (j - rem))"
      using j by (intro up) simp
    also have "64 * k + (j - rem) = 64 * k + j - rem" using True by simp
    finally show ?thesis using t True by auto
  next
    case False
    then have "bit (drop_bit (64 - rem) Lo OR push_bit rem U) j \<longleftrightarrow> bit Lo (64 - rem + j)"
      by (simp add: bit_or_iff bit_drop_bit_eq bit_push_bit_iff)
    also have "\<dots> \<longleftrightarrow> rem \<noteq> 0 \<and> k > 0 \<and> bm_bit S (64 * (k - 1) + (64 - rem + j))"
      using False rem by (intro low) simp
    also have "\<dots> \<longleftrightarrow> rem \<le> 64 * k + j \<and> bm_bit S (64 * k + j - rem)"
    proof (cases k)
      case (Suc k')
      then have "64 * (k - 1) + (64 - rem + j) = 64 * k + j - rem" using False rem by simp
      then show ?thesis using Suc False rem by simp
    qed (use False in simp)
    finally show ?thesis by auto
  qed
  show ?thesis using b tail core [OF low up] by blast
qed

lemma bitmap_shift_left_eq:
  assumes "backed dst bits" "backed (op_words s dst) bits" "shift div 64 \<le> BITS_TO_LONGS bits"
  shows "\<exists>d. bitmap_shift_left' dst s shift bits = Some d \<and> length d = length dst \<and>
    (\<forall>i < 64 * BITS_TO_LONGS bits. bm_bit d i \<longleftrightarrow> i < bits \<and> shift \<le> i \<and> bm_bit (op_words s dst) (i - shift)) \<and>
    (\<forall>i \<ge> 64 * BITS_TO_LONGS bits. bm_bit d i = bm_bit dst i)"
proof -
  let ?lim = "BITS_TO_LONGS bits" and ?S = "op_words s dst"
  obtain off rem where sh: "shift = 64 * off + rem" "rem < 64" "shift div 64 = off" "shift mod 64 = rem"
    using idx_split [of shift] by blast
  obtain d where d: "bitmap_shift_left' dst s shift bits = Some d" "length d = length dst"
    "\<forall>j. d ! j = (if j < off then 0 else if j < ?lim then left_word ?S ?lim (bits mod 64) off rem (j - off) else dst ! j)"
    using shift_left_words [OF assms] unfolding sh(3,4) by blast
  have lim: "?lim \<le> length d" using assms(1) d(2) backed_longs by simp
  have "bm_bit d i \<longleftrightarrow> i < bits \<and> shift \<le> i \<and> bm_bit ?S (i - shift)" if i: "i < 64 * ?lim" for i
  proof -
    obtain t j where ij: "i = 64 * t + j" "j < 64" "i div 64 = t" "i mod 64 = j" using idx_split [of i] by blast
    have t: "t < ?lim" using i ij(1) by linarith
    have bit: "bm_bit d i = bit (d ! t) j" using t lim ij(3,4) by (simp add: bm_bit_def)
    show ?thesis
    proof (cases "t < off")
      case True
      then have "\<not> shift \<le> i" using ij(1,2) sh(1) by linarith
      then show ?thesis using bit d(3) True by simp
    next
      case False
      then have k: "t - off + off = t" by simp
      have "bm_bit d i = bit (left_word ?S ?lim (bits mod 64) off rem (t - off)) j" using bit d(3) False t by simp
      also have "\<dots> \<longleftrightarrow> 64 * t + j < bits \<and> rem \<le> 64 * (t - off) + j \<and> bm_bit ?S (64 * (t - off) + j - rem)"
        using bit_left_word [OF assms(2), of rem "t - off" off j] t k sh(2) ij(2) by simp
      also have "64 * t + j = i" using ij(1) by simp
      also have "64 * (t - off) + j - rem = i - shift" using ij(1) sh(1) k by linarith
      also have "rem \<le> 64 * (t - off) + j \<longleftrightarrow> shift \<le> i" using ij(1) sh(1) k by linarith
      finally show ?thesis .
    qed
  qed
  moreover have "bm_bit d i = bm_bit dst i" if "64 * ?lim \<le> i" for i
  proof -
    have "?lim \<le> i div 64" using that by linarith
    then show ?thesis using d(2,3) assms(3) sh(3) by (simp add: bm_bit_def)
  qed
  ultimately show ?thesis using d(1,2) by blast
qed

lemma bit_right_word:
  assumes S: "backed S bits" and rem: "rem < 64" and t: "off + k < BITS_TO_LONGS bits" and j: "j < 64"
  shows "bit (right_word S (BITS_TO_LONGS bits) (bits mod 64) off rem k) j \<longleftrightarrow>
    64 * (off + k) + j + rem < bits \<and> bm_bit S (64 * (off + k) + j + rem)"
proof -
  let ?lim = "BITS_TO_LONGS bits" and ?left = "bits mod 64"
  let ?m = "push_bit ?left 1 - 1 :: ulong"
  have lf: "?left < 64" by simp
  have lim: "?lim \<le> length S" using S by (rule backed_longs)
  let ?upper = "if rem = 0 \<or> off + k + 1 \<ge> ?lim then 0
      else if off + k + 1 = ?lim - 1 \<and> ?left \<noteq> 0 then S ! (off + k + 1) AND ?m else S ! (off + k + 1)"
  let ?lower = "if ?left \<noteq> 0 \<and> off + k = ?lim - 1 then S ! (off + k) AND ?m else S ! (off + k)"
  have b: "bit (right_word S ?lim ?left off rem k) j \<longleftrightarrow>
      bit (push_bit (64 - rem) ?upper OR drop_bit rem ?lower) j \<and> (?left \<noteq> 0 \<and> k = ?lim - 1 \<longrightarrow> j < ?left)"
    unfolding right_word_def Let_def by (rule bit_masked [OF lf])
  have low: "bit ?lower x \<longleftrightarrow> 64 * (off + k) + x < bits \<and> bm_bit S (64 * (off + k) + x)" if "x < 64" for x
    using bit_masked [OF lf, of "off + k = ?lim - 1" "S ! (off + k)" x] below_bits [OF t that]
      bm_bit_word [of "off + k" S x] that t lim by auto
  have up: "bit ?upper x \<longleftrightarrow> rem \<noteq> 0 \<and> 64 * (off + k + 1) + x < bits \<and> bm_bit S (64 * (off + k + 1) + x)" if x: "x < 64" for x
  proof (cases "off + k + 1 < ?lim")
    case True
    then show ?thesis
      using bit_masked [OF lf, of "off + k + 1 = ?lim - 1" "S ! (off + k + 1)" x] below_bits [OF True x]
        bm_bit_word [of "off + k + 1" S x] x lim by (auto simp: conj_commute)
  next
    case False
    then have "64 * ?lim \<le> 64 * (off + k + 1)" by (intro mult_le_mono2) simp
    then have "bits \<le> 64 * (off + k + 1)" using longs_le [of bits] by (rule le_trans [rotated])
    then show ?thesis using False by simp
  qed
  have core: "bit (push_bit (64 - rem) U OR drop_bit rem Lo) j \<longleftrightarrow>
      64 * (off + k) + j + rem < bits \<and> bm_bit S (64 * (off + k) + j + rem)"
    if up: "\<And>x. x < 64 \<Longrightarrow> bit U x \<longleftrightarrow> rem \<noteq> 0 \<and> 64 * (off + k + 1) + x < bits \<and> bm_bit S (64 * (off + k + 1) + x)"
      and low: "\<And>x. x < 64 \<Longrightarrow> bit Lo x \<longleftrightarrow> 64 * (off + k) + x < bits \<and> bm_bit S (64 * (off + k) + x)"
    for U Lo :: ulong
  proof (cases "j + rem < 64")
    case True
    then have "bit (push_bit (64 - rem) U OR drop_bit rem Lo) j \<longleftrightarrow> bit Lo (rem + j)"
      by (auto simp: bit_or_iff bit_drop_bit_eq bit_push_bit_iff)
    also have "\<dots> \<longleftrightarrow> 64 * (off + k) + (rem + j) < bits \<and> bm_bit S (64 * (off + k) + (rem + j))"
      using True by (intro low) simp
    also have "64 * (off + k) + (rem + j) = 64 * (off + k) + j + rem" by simp
    finally show ?thesis .
  next
    case False
    have "\<not> bit Lo (rem + j)" using False by (auto dest: bit_imp_le_length)
    moreover have "64 - rem \<le> j" using False by linarith
    ultimately have "bit (push_bit (64 - rem) U OR drop_bit rem Lo) j \<longleftrightarrow> bit U (j - (64 - rem))"
      using j rem by (simp add: bit_or_iff bit_drop_bit_eq bit_push_bit_iff)
    moreover have "64 * (off + k + 1) + (j - (64 - rem)) = 64 * (off + k) + j + rem" "rem \<noteq> 0" "j - (64 - rem) < 64"
    proof -
      obtain x where x: "j + rem = 64 + x" using False by (metis le_Suc_ex not_less)
      then have "j - (64 - rem) = x" using rem by simp
      then show "64 * (off + k + 1) + (j - (64 - rem)) = 64 * (off + k) + j + rem" "j - (64 - rem) < 64"
        using x j by simp_all
      show "rem \<noteq> 0" using False j by simp
    qed
    ultimately show ?thesis using up [of "j - (64 - rem)"] by metis
  qed
  note core = core [OF up low]
  have "64 * (off + k) + j + rem < bits \<Longrightarrow> ?left \<noteq> 0 \<and> k = ?lim - 1 \<longrightarrow> j < ?left"
    using below_bits [of k bits j] t j by auto
  then show ?thesis using b core by blast
qed

lemma bitmap_shift_right_eq:
  assumes "backed dst bits" "backed (op_words s dst) bits" "shift div 64 \<le> BITS_TO_LONGS bits"
  shows "\<exists>d. bitmap_shift_right' dst s shift bits = Some d \<and> length d = length dst \<and>
    (\<forall>i < 64 * BITS_TO_LONGS bits. bm_bit d i \<longleftrightarrow> i + shift < bits \<and> bm_bit (op_words s dst) (i + shift)) \<and>
    (\<forall>i \<ge> 64 * BITS_TO_LONGS bits. bm_bit d i = bm_bit dst i)"
proof -
  let ?lim = "BITS_TO_LONGS bits" and ?S = "op_words s dst"
  obtain off rem where sh: "shift = 64 * off + rem" "rem < 64" "shift div 64 = off" "shift mod 64 = rem"
    using idx_split [of shift] by blast
  obtain d where d: "bitmap_shift_right' dst s shift bits = Some d" "length d = length dst"
    "\<forall>j. d ! j = (if j < ?lim - off then right_word ?S ?lim (bits mod 64) off rem j else if j < ?lim then 0 else dst ! j)"
    using shift_right_words [OF assms] unfolding sh(3,4) by blast
  have lim: "?lim \<le> length d" using assms(1) d(2) backed_longs by simp
  have "bm_bit d i \<longleftrightarrow> i + shift < bits \<and> bm_bit ?S (i + shift)" if i: "i < 64 * ?lim" for i
  proof -
    obtain t j where ij: "i = 64 * t + j" "j < 64" "i div 64 = t" "i mod 64 = j" using idx_split [of i] by blast
    have t: "t < ?lim" using i ij(1) by linarith
    have bit: "bm_bit d i = bit (d ! t) j" using t lim ij(3,4) by (simp add: bm_bit_def)
    show ?thesis
    proof (cases "t < ?lim - off")
      case False
      then have "bits \<le> i + shift" using ij(1) sh(1) longs_le [of bits] mult_le_mono2 [of ?lim "off + t" 64] by linarith
      then show ?thesis using bit d(3) False t by simp
    next
      case True
      have "bm_bit d i = bit (right_word ?S ?lim (bits mod 64) off rem t) j" using bit d(3) True by simp
      also have "\<dots> \<longleftrightarrow> 64 * (off + t) + j + rem < bits \<and> bm_bit ?S (64 * (off + t) + j + rem)"
        using bit_right_word [OF assms(2), of rem off t j] True sh(2) ij(2) by simp
      also have "64 * (off + t) + j + rem = i + shift" by (simp add: ij(1) sh(1))
      finally show ?thesis .
    qed
  qed
  moreover have "bm_bit d i = bm_bit dst i" if "64 * ?lim \<le> i" for i
  proof -
    have "?lim \<le> i div 64" using that by linarith
    then have "\<not> i div 64 < ?lim - off" "\<not> i div 64 < ?lim" by simp_all
    then have "d ! (i div 64) = dst ! (i div 64)" using d(3) [rule_format, of "i div 64"] by (simp only: if_False)
    then show ?thesis using d(2) by (simp add: bm_bit_def)
  qed
  ultimately show ?thesis using d(1,2) by blast
qed

end
