(* ===== verification/Bitmap_Inline.thy ===== *)
theory Bitmap_Inline
  imports Bitmap_Shift
begin

text \<open>
  The inline functions of \<^verbatim>\<open>include/bitmap.h\<close> (lines 156 to 299). Their first argument \<open>cst\<close> says
  whether the compiler knows \<^verbatim>\<open>nbits\<close> (\<^verbatim>\<open>__builtin_constant_p(nbits)\<close>): for a constant of at most 64
  they work on the first word, otherwise they call the out-of-line function. \<^verbatim>\<open>memset\<close> and
  \<^verbatim>\<open>memcpy\<close> are word-wise, as the sizes are multiples of the word size.
  The lemmas show that the short cut computes the same as the general code, for \<open>0 < nbits\<close>; only the right shift needs
  a source without unused bits.
\<close>

section \<open>The functions\<close>

definition small_const_nbits :: "bool \<Rightarrow> nat \<Rightarrow> bool" where
  "small_const_nbits cst nbits \<longleftrightarrow> cst \<and> nbits \<le> 64"

definition bitmap_zero :: "bool \<Rightarrow> ulong list \<Rightarrow> nat \<Rightarrow> ulong list option" where
  "bitmap_zero cst dst nbits =
     (if small_const_nbits cst nbits then wr dst 0 0 else memset0 dst 0 (BITS_TO_LONGS nbits))"

definition bitmap_fill :: "bool \<Rightarrow> ulong list \<Rightarrow> nat \<Rightarrow> ulong list option" where
  "bitmap_fill cst dst nbits = (let nlongs = BITS_TO_LONGS nbits in do {
     dst \<leftarrow> (if \<not> small_const_nbits cst nbits
             then fold_opt (\<lambda>k d. wr d k (-1)) [0..<nlongs - 1] dst else Some dst);
     if nlongs = 0 then None else wr dst (nlongs - 1) (BITMAP_LAST_WORD_MASK nbits) })"

definition bitmap_copy :: "bool \<Rightarrow> ulong list \<Rightarrow> operand \<Rightarrow> nat \<Rightarrow> ulong list option" where
  "bitmap_copy cst dst src nbits =
     (if small_const_nbits cst nbits then do { s \<leftarrow> rd_op src dst 0; wr dst 0 s }
      else fold_opt (\<lambda>k d. do { s \<leftarrow> rd_op src d k; wr d k s }) [0..<BITS_TO_LONGS nbits] dst)"

definition bitmap_and :: "bool \<Rightarrow> ulong list \<Rightarrow> operand \<Rightarrow> operand \<Rightarrow> nat \<Rightarrow> (ulong list \<times> bool) option" where
  "bitmap_and cst dst src1 src2 nbits =
     (if small_const_nbits cst nbits then do {
        a \<leftarrow> rd_op src1 dst 0; b \<leftarrow> rd_op src2 dst 0; d \<leftarrow> wr dst 0 (a AND b); Some (d, a AND b \<noteq> 0) }
      else bitmap_and' dst src1 src2 nbits)"

definition bitmap_or :: "bool \<Rightarrow> ulong list \<Rightarrow> operand \<Rightarrow> operand \<Rightarrow> nat \<Rightarrow> ulong list option" where
  "bitmap_or cst dst src1 src2 nbits =
     (if small_const_nbits cst nbits then do { a \<leftarrow> rd_op src1 dst 0; b \<leftarrow> rd_op src2 dst 0; wr dst 0 (a OR b) }
      else bitmap_or' dst src1 src2 nbits)"

definition bitmap_xor :: "bool \<Rightarrow> ulong list \<Rightarrow> operand \<Rightarrow> operand \<Rightarrow> nat \<Rightarrow> ulong list option" where
  "bitmap_xor cst dst src1 src2 nbits =
     (if small_const_nbits cst nbits then do { a \<leftarrow> rd_op src1 dst 0; b \<leftarrow> rd_op src2 dst 0; wr dst 0 (a XOR b) }
      else bitmap_xor' dst src1 src2 nbits)"

definition bitmap_andnot :: "bool \<Rightarrow> ulong list \<Rightarrow> operand \<Rightarrow> operand \<Rightarrow> nat \<Rightarrow> (ulong list \<times> bool) option" where
  "bitmap_andnot cst dst src1 src2 nbits =
     (if small_const_nbits cst nbits then do {
        a \<leftarrow> rd_op src1 dst 0; b \<leftarrow> rd_op src2 dst 0; d \<leftarrow> wr dst 0 (a AND NOT b); Some (d, a AND NOT b \<noteq> 0) }
      else bitmap_andnot' dst src1 src2 nbits)"

definition bitmap_complement :: "bool \<Rightarrow> ulong list \<Rightarrow> operand \<Rightarrow> nat \<Rightarrow> ulong list option" where
  "bitmap_complement cst dst src nbits =
     (if small_const_nbits cst nbits then do { s \<leftarrow> rd_op src dst 0; wr dst 0 (NOT s AND BITMAP_LAST_WORD_MASK nbits) }
      else bitmap_complement' dst src nbits)"

definition bitmap_equal :: "bool \<Rightarrow> ulong list \<Rightarrow> ulong list \<Rightarrow> nat \<Rightarrow> bool option" where
  "bitmap_equal cst src1 src2 nbits =
     (if small_const_nbits cst nbits then do {
        a \<leftarrow> rd src1 0; b \<leftarrow> rd src2 0; Some (\<not> (a XOR b) AND BITMAP_LAST_WORD_MASK nbits \<noteq> 0) }
      else bitmap_equal' src1 src2 nbits)"

definition bitmap_intersects :: "bool \<Rightarrow> ulong list \<Rightarrow> ulong list \<Rightarrow> nat \<Rightarrow> bool option" where
  "bitmap_intersects cst src1 src2 nbits =
     (if small_const_nbits cst nbits then do {
        a \<leftarrow> rd src1 0; b \<leftarrow> rd src2 0; Some ((a AND b) AND BITMAP_LAST_WORD_MASK nbits \<noteq> 0) }
      else bitmap_intersects' src1 src2 nbits)"

definition bitmap_subset :: "bool \<Rightarrow> ulong list \<Rightarrow> ulong list \<Rightarrow> nat \<Rightarrow> bool option" where
  "bitmap_subset cst src1 src2 nbits =
     (if small_const_nbits cst nbits then do {
        a \<leftarrow> rd src1 0; b \<leftarrow> rd src2 0; Some (\<not> (a AND NOT b) AND BITMAP_LAST_WORD_MASK nbits \<noteq> 0) }
      else bitmap_subset' src1 src2 nbits)"

definition bitmap_empty :: "bool \<Rightarrow> ulong list \<Rightarrow> nat \<Rightarrow> bool option" where
  "bitmap_empty cst src nbits =
     (if small_const_nbits cst nbits then do { a \<leftarrow> rd src 0; Some (\<not> a AND BITMAP_LAST_WORD_MASK nbits \<noteq> 0) }
      else bitmap_empty' src nbits)"

definition bitmap_full :: "bool \<Rightarrow> ulong list \<Rightarrow> nat \<Rightarrow> bool option" where
  "bitmap_full cst src nbits =
     (if small_const_nbits cst nbits then do { a \<leftarrow> rd src 0; Some (\<not> NOT a AND BITMAP_LAST_WORD_MASK nbits \<noteq> 0) }
      else bitmap_full' src nbits)"

definition bitmap_weight :: "bool \<Rightarrow> ulong list \<Rightarrow> nat \<Rightarrow> nat option" where
  "bitmap_weight cst src nbits =
     (if small_const_nbits cst nbits then do { a \<leftarrow> rd src 0; Some (unat (hweight_long (a AND BITMAP_LAST_WORD_MASK nbits))) }
      else bitmap_weight' src nbits)"

definition bitmap_shift_right :: "bool \<Rightarrow> ulong list \<Rightarrow> operand \<Rightarrow> nat \<Rightarrow> nat \<Rightarrow> ulong list option" where
  "bitmap_shift_right cst dst src n nbits =
     (if small_const_nbits cst nbits then do { s \<leftarrow> rd_op src dst 0; wr dst 0 (drop_bit n s) }
      else bitmap_shift_right' dst src n nbits)"

definition bitmap_shift_left :: "bool \<Rightarrow> ulong list \<Rightarrow> operand \<Rightarrow> nat \<Rightarrow> nat \<Rightarrow> ulong list option" where
  "bitmap_shift_left cst dst src n nbits =
     (if small_const_nbits cst nbits then do { s \<leftarrow> rd_op src dst 0; wr dst 0 (push_bit n s AND BITMAP_LAST_WORD_MASK nbits) }
      else bitmap_shift_left' dst src n nbits)"

lemma fold_opt_Nil [simp]: "fold_opt f [] = Some"
  by (rule ext) simp

section \<open>The short cut agrees with the general code\<close>

lemma small_longs: "0 < nbits \<Longrightarrow> nbits \<le> 64 \<Longrightarrow> BITS_TO_LONGS nbits = 1"
  by (simp add: BITS_TO_LONGS_def)

lemma small_backed: "nbits \<le> 64 \<Longrightarrow> 0 < length m \<Longrightarrow> backed m nbits"
  by (cases m) auto

lemma masked_any:
  assumes "0 < nbits" "nbits \<le> 64"
  shows "(w :: ulong) AND BITMAP_LAST_WORD_MASK nbits \<noteq> 0 \<longleftrightarrow> (\<exists>i < nbits. bit w i)"
proof -
  have m: "bit (BITMAP_LAST_WORD_MASK nbits) j \<longleftrightarrow> j < nbits" for j
    using assms by (cases "nbits = 64") (auto simp: bit_last_word_mask)
  show ?thesis using assms(2) by (auto simp: word_nonzero_iff bit_and_iff m intro: less_le_trans)
qed

lemma small_bit: "nbits \<le> 64 \<Longrightarrow> 0 < length m \<Longrightarrow> i < nbits \<Longrightarrow> bit (m ! 0) i = bm_bit m i"
  by (simp add: bm_bit_def)

lemma inline_predicates:
  assumes "0 < nbits" "nbits \<le> 64" "0 < length a" "0 < length b"
  shows "bitmap_empty True a nbits = bitmap_empty' a nbits"
    and "bitmap_full True a nbits = bitmap_full' a nbits"
    and "bitmap_equal True a b nbits = bitmap_equal' a b nbits"
    and "bitmap_intersects True a b nbits = bitmap_intersects' a b nbits"
    and "bitmap_subset True a b nbits = bitmap_subset' a b nbits"
proof -
  have ba: "backed a nbits" and bb: "backed b nbits" using assms(2) small_backed assms(3,4) by blast+
  note m = masked_any [OF assms(1,2)] and sb = small_bit [OF assms(2)]
  have lt: "i < nbits \<Longrightarrow> i < 64" for i using assms(2) by linarith
  show "bitmap_empty True a nbits = bitmap_empty' a nbits"
    using assms unfolding bitmap_empty_eq [OF ba]
    by (simp add: bitmap_empty_def small_const_nbits_def rd_in m sb del: rd_eq_Some cong: conj_cong)
  show "bitmap_full True a nbits = bitmap_full' a nbits"
    using assms unfolding bitmap_full_eq [OF ba]
    by (simp add: bitmap_full_def small_const_nbits_def rd_in m sb bit_not_iff lt del: rd_eq_Some cong: conj_cong)
  show "bitmap_equal True a b nbits = bitmap_equal' a b nbits"
    using assms unfolding bitmap_equal_eq [OF ba bb]
    by (simp add: bitmap_equal_def small_const_nbits_def rd_in m sb bit_xor_iff del: rd_eq_Some cong: conj_cong)
  show "bitmap_intersects True a b nbits = bitmap_intersects' a b nbits"
    using assms unfolding bitmap_intersects_eq [OF ba bb]
    by (simp add: bitmap_intersects_def small_const_nbits_def rd_in m sb bit_and_iff del: rd_eq_Some cong: conj_cong)
  show "bitmap_subset True a b nbits = bitmap_subset' a b nbits"
    using assms unfolding bitmap_subset_eq [OF ba bb]
    by (simp add: bitmap_subset_def small_const_nbits_def rd_in m sb bit_and_iff bit_not_iff lt del: rd_eq_Some cong: conj_cong)
      (use sb [OF assms(3)] in blast)
qed

lemma inline_weight:
  assumes "0 < nbits" "nbits \<le> 64" "0 < length a"
  shows "bitmap_weight True a nbits = bitmap_weight' a nbits"
proof -
  have ba: "backed a nbits" using assms(2,3) by (rule small_backed)
  have mk: "bit (BITMAP_LAST_WORD_MASK nbits) j \<longleftrightarrow> j < nbits" for j
    using assms by (cases "nbits = 64") (auto simp: bit_last_word_mask)
  have "{j. bit (a ! 0 AND BITMAP_LAST_WORD_MASK nbits) j} = bm_set a nbits"
    using assms small_bit [OF assms(2,3)] by (auto simp: bit_and_iff mk)
  then show ?thesis
    using assms unfolding bitmap_weight_eq [OF ba]
    by (simp add: bitmap_weight_def small_const_nbits_def rd_in hweight_long_count del: rd_eq_Some)
qed


lemma inline_updates:
  assumes "0 < nbits" "nbits \<le> 64"
  shows "bitmap_and True dst s1 s2 nbits = bitmap_and' dst s1 s2 nbits"
    and "bitmap_or True dst s1 s2 nbits = bitmap_or' dst s1 s2 nbits"
    and "bitmap_xor True dst s1 s2 nbits = bitmap_xor' dst s1 s2 nbits"
    and "bitmap_andnot True dst s1 s2 nbits = bitmap_andnot' dst s1 s2 nbits"
    and "bitmap_complement True dst s1 nbits = bitmap_complement' dst s1 nbits"
proof -
  note L = small_longs [OF assms]
  show "bitmap_and True dst s1 s2 nbits = bitmap_and' dst s1 s2 nbits"
    using assms by (simp add: bitmap_and_def bitmap_and'_def small_const_nbits_def L)
  show "bitmap_or True dst s1 s2 nbits = bitmap_or' dst s1 s2 nbits"
    using assms by (simp add: bitmap_or_def bitmap_or'_def small_const_nbits_def L)
  show "bitmap_xor True dst s1 s2 nbits = bitmap_xor' dst s1 s2 nbits"
    using assms by (simp add: bitmap_xor_def bitmap_xor'_def small_const_nbits_def L)
  show "bitmap_andnot True dst s1 s2 nbits = bitmap_andnot' dst s1 s2 nbits"
    using assms by (simp add: bitmap_andnot_def bitmap_andnot'_def small_const_nbits_def L)
  show "bitmap_complement True dst s1 nbits = bitmap_complement' dst s1 nbits"
  proof (cases "nbits = 64")
    case True
    then show ?thesis
      by (simp add: bitmap_complement_def bitmap_complement'_def small_const_nbits_def BITMAP_LAST_WORD_MASK_def Let_def)
  next
    case False
    then have "nbits < 64" using assms(2) by simp
    then show ?thesis using assms(1)
      by (simp add: bitmap_complement_def bitmap_complement'_def small_const_nbits_def Let_def)
  qed
qed

section \<open>The short cuts of the shifts\<close>

lemma bm_bit_first: "0 < length d \<Longrightarrow> bm_bit (d[0 := w]) i \<longleftrightarrow> (if i < 64 then bit w i else bm_bit d i)"
proof (cases "i < 64")
  case False
  then have "i div 64 \<noteq> 0" by simp
  then show ?thesis using False by (simp add: bm_bit_def)
qed (simp add: bm_bit_def)

lemma inline_shift_left:
  assumes "0 < nbits" "nbits \<le> 64" "0 < length dst" "0 < length (op_words s dst)" "k < 64"
  shows "bitmap_shift_left True dst s k nbits = bitmap_shift_left' dst s k nbits"
proof -
  note L = small_longs [OF assms(1,2)]
  let ?w = "push_bit k (op_words s dst ! 0) AND BITMAP_LAST_WORD_MASK nbits"
  have mk: "bit (BITMAP_LAST_WORD_MASK nbits) j \<longleftrightarrow> j < nbits" for j
    using assms(1,2) by (cases "nbits = 64") (auto simp: bit_last_word_mask)
  have inl: "bitmap_shift_left True dst s k nbits = Some (dst[0 := ?w])"
    using assms by (simp add: bitmap_shift_left_def small_const_nbits_def rd_op_eq [where d = dst] wr_in del: wr_eq_Some length_greater_0_conv)
  obtain d where d: "bitmap_shift_left' dst s k nbits = Some d" "length d = length dst"
      "\<forall>i < 64. bm_bit d i \<longleftrightarrow> i < nbits \<and> k \<le> i \<and> bm_bit (op_words s dst) (i - k)" "\<forall>i \<ge> 64. bm_bit d i = bm_bit dst i"
    using bitmap_shift_left_eq [OF small_backed [OF assms(2,3)] small_backed [OF assms(2,4)], of k] assms(5) by (auto simp: L)
  have "dst[0 := ?w] = d"
  proof (rule words_eqI)
    show "bm_bit (dst[0 := ?w]) i = bm_bit d i" for i
      using d(3,4) assms(4) unfolding bm_bit_first [OF assms(3)]
      by (auto simp: bit_and_iff bit_push_bit_iff mk bm_bit_def not_less)
  qed (simp add: d(2))
  then show ?thesis using inl d(1) by simp
qed

text \<open>The short cut of the right shift does not mask its source: unused bits that are shifted in make the difference.\<close>

lemma inline_shift_right:
  assumes "0 < nbits" "nbits \<le> 64" "0 < length dst" "0 < length (op_words s dst)" "k < 64"
  shows "bitmap_shift_right True dst s k nbits = bitmap_shift_right' dst s k nbits \<longleftrightarrow>
    (\<forall>i. nbits \<le> i \<and> k \<le> i \<and> i < 64 \<longrightarrow> \<not> bm_bit (op_words s dst) i)"
proof -
  note L = small_longs [OF assms(1,2)]
  let ?S = "op_words s dst"
  let ?w = "drop_bit k (?S ! 0)"
  have inl: "bitmap_shift_right True dst s k nbits = Some (dst[0 := ?w])"
    using assms by (simp add: bitmap_shift_right_def small_const_nbits_def rd_op_eq [where d = dst] wr_in del: wr_eq_Some length_greater_0_conv)
  obtain d where d: "bitmap_shift_right' dst s k nbits = Some d" "length d = length dst"
      "\<forall>i < 64. bm_bit d i \<longleftrightarrow> i + k < nbits \<and> bm_bit ?S (i + k)" "\<forall>i \<ge> 64. bm_bit d i = bm_bit dst i"
    using bitmap_shift_right_eq [OF small_backed [OF assms(2,3)] small_backed [OF assms(2,4)], of k] assms(5) by (auto simp: L)
  have w: "bm_bit (dst[0 := ?w]) i \<longleftrightarrow> (if i < 64 then i + k < 64 \<and> bm_bit ?S (i + k) else bm_bit dst i)" for i
    unfolding bm_bit_first [OF assms(3)] using assms(4) bit_imp_le_length [of "?S ! 0" "i + k"]
    by (cases "i + k < 64") (auto simp: bit_drop_bit_eq bm_bit_def add.commute)
  have "dst[0 := ?w] = d \<longleftrightarrow> (\<forall>i < 64. i + k < 64 \<and> bm_bit ?S (i + k) \<longleftrightarrow> i + k < nbits \<and> bm_bit ?S (i + k))"
  proof
    show "\<forall>i < 64. i + k < 64 \<and> bm_bit ?S (i + k) \<longleftrightarrow> i + k < nbits \<and> bm_bit ?S (i + k)" if "dst[0 := ?w] = d"
      using w d(3) that by simp
    assume "\<forall>i < 64. i + k < 64 \<and> bm_bit ?S (i + k) \<longleftrightarrow> i + k < nbits \<and> bm_bit ?S (i + k)"
    then show "dst[0 := ?w] = d" using w d(2-4) by (intro words_eqI) auto
  qed
  also have "\<dots> \<longleftrightarrow> (\<forall>i. nbits \<le> i \<and> k \<le> i \<and> i < 64 \<longrightarrow> \<not> bm_bit ?S i)"
  proof
    assume a: "\<forall>i < 64. i + k < 64 \<and> bm_bit ?S (i + k) \<longleftrightarrow> i + k < nbits \<and> bm_bit ?S (i + k)"
    show "\<forall>i. nbits \<le> i \<and> k \<le> i \<and> i < 64 \<longrightarrow> \<not> bm_bit ?S i"
    proof (intro allI impI)
      fix i assume i: "nbits \<le> i \<and> k \<le> i \<and> i < 64"
      then have j: "i - k < 64" "i - k + k = i" by linarith+
      have "i < 64 \<and> bm_bit ?S i \<longleftrightarrow> i < nbits \<and> bm_bit ?S i" using a [THEN spec, THEN mp, OF j(1)] unfolding j(2) .
      then show "\<not> bm_bit ?S i" using i by (simp add: not_less)
    qed
  next
    assume a: "\<forall>i. nbits \<le> i \<and> k \<le> i \<and> i < 64 \<longrightarrow> \<not> bm_bit ?S i"
    show "\<forall>i < 64. i + k < 64 \<and> bm_bit ?S (i + k) \<longleftrightarrow> i + k < nbits \<and> bm_bit ?S (i + k)"
      using a assms(2) by (metis le_add2 not_less order_less_le_trans)
  qed
  finally show ?thesis using inl d(1) by simp
qed

section \<open>Zero, fill and copy\<close>

lemma inline_stores:
  assumes "0 < nbits" "nbits \<le> 64"
  shows "bitmap_zero True dst nbits = bitmap_zero False dst nbits"
    and "bitmap_fill True dst nbits = bitmap_fill False dst nbits"
    and "bitmap_copy True dst s nbits = bitmap_copy False dst s nbits"
  using small_longs [OF assms] assms(2)
  by (simp_all add: bitmap_zero_def bitmap_fill_def bitmap_copy_def memset0_def small_const_nbits_def Let_def)

lemma bitmap_zero_eq:
  assumes "backed dst nbits" "\<not> cst \<or> 0 < nbits"
  shows "\<exists>d. bitmap_zero cst dst nbits = Some d \<and> length d = length dst \<and>
    (\<forall>i < 64 * BITS_TO_LONGS nbits. \<not> bm_bit d i) \<and> (\<forall>i \<ge> 64 * BITS_TO_LONGS nbits. bm_bit d i = bm_bit dst i)"
proof -
  let ?lim = "BITS_TO_LONGS nbits"
  have lim: "?lim \<le> length dst" using assms(1) by (rule backed_longs)
  have "small_const_nbits cst nbits \<Longrightarrow> ?lim = 1"
    using assms(2) small_longs by (auto simp: small_const_nbits_def)
  then have "bitmap_zero cst dst nbits = memset0 dst 0 ?lim"
    by (simp add: bitmap_zero_def memset0_def)
  then obtain d where d: "bitmap_zero cst dst nbits = Some d" "length d = length dst"
      "\<forall>j. d ! j = (if 0 \<le> j \<and> j < 0 + ?lim then 0 else dst ! j)"
    using memset0_eq [of 0 ?lim dst] lim by auto
  have "\<not> bm_bit d i" if "i < 64 * ?lim" for i
  proof -
    have "i div 64 < ?lim" using that by linarith
    then show ?thesis using d(3) by (simp add: bm_bit_def)
  qed
  moreover have "bm_bit d i = bm_bit dst i" if "64 * ?lim \<le> i" for i
  proof -
    have "\<not> i div 64 < ?lim" using that by linarith
    then show ?thesis using d(2,3) by (simp add: bm_bit_def)
  qed
  ultimately show ?thesis using d by blast
qed

lemma bitmap_fill_eq:
  assumes "backed dst nbits" "0 < nbits"
  shows "\<exists>d. bitmap_fill cst dst nbits = Some d \<and> length d = length dst \<and>
    (\<forall>i < 64 * BITS_TO_LONGS nbits. bm_bit d i = (i < nbits)) \<and> (\<forall>i \<ge> 64 * BITS_TO_LONGS nbits. bm_bit d i = bm_bit dst i)"
proof -
  let ?lim = "BITS_TO_LONGS nbits"
  have lim: "?lim \<le> length dst" using assms(1) by (rule backed_longs)
  have pos: "0 < ?lim" using assms(2) by (auto simp: BITS_TO_LONGS_eq)
  have "small_const_nbits cst nbits \<Longrightarrow> [0..<?lim - 1] = []"
    using assms(2) small_longs by (auto simp: small_const_nbits_def)
  then have eq: "bitmap_fill cst dst nbits = do {
      dst \<leftarrow> fold_opt (\<lambda>k d. wr d k (-1)) [0..<?lim - 1] dst; wr dst (?lim - 1) (BITMAP_LAST_WORD_MASK nbits) }"
    using pos by (simp add: bitmap_fill_def Let_def)
  have "\<exists>d'. fold_opt (\<lambda>k d. wr d k (-1)) [0..<?lim - 1] dst = Some d' \<and> length d' = length dst \<and>
      (\<forall>j. d' ! j = (if j < ?lim - 1 then -1 else dst ! j))"
    by (rule fold_up) (use lim in \<open>simp_all add: wr_in del: wr_eq_Some\<close>)
  then obtain d1 where d1: "fold_opt (\<lambda>k d. wr d k (-1)) [0..<?lim - 1] dst = Some d1" "length d1 = length dst"
      "\<forall>j. d1 ! j = (if j < ?lim - 1 then -1 else dst ! j)" by blast
  let ?d = "d1[?lim - 1 := BITMAP_LAST_WORD_MASK nbits]"
  have fill: "bitmap_fill cst dst nbits = Some ?d"
    using eq d1(1,2) lim pos by (simp add: wr_in del: wr_eq_Some)
  have word: "?d ! j = (if j < ?lim - 1 then -1 else if j = ?lim - 1 then BITMAP_LAST_WORD_MASK nbits else dst ! j)" for j
    using d1 lim pos by (simp add: nth_list_update)
  have "bm_bit ?d i = (i < nbits)" if "i < 64 * ?lim" for i
  proof -
    obtain t j where ij: "i = 64 * t + j" "j < 64" "i div 64 = t" "i mod 64 = j" using idx_split [of i] by blast
    have t: "t < ?lim" using that ij(1) by linarith
    have "bm_bit ?d i = bit (?d ! t) j" using t lim d1(2) ij(3,4) by (simp add: bm_bit_def)
    also have "\<dots> \<longleftrightarrow> (nbits mod 64 \<noteq> 0 \<and> t = ?lim - 1 \<longrightarrow> j < nbits mod 64)"
      unfolding word using t ij(2) by (auto simp: bit_last_word_mask)
    also have "\<dots> \<longleftrightarrow> i < nbits" using below_bits [OF t ij(2)] ij(1) by simp
    finally show ?thesis .
  qed
  moreover have "bm_bit ?d i = bm_bit dst i" if "64 * ?lim \<le> i" for i
  proof -
    have "\<not> i div 64 < ?lim - 1" "i div 64 \<noteq> ?lim - 1" using that pos by linarith+
    then have "?d ! (i div 64) = dst ! (i div 64)" unfolding word by simp
    then show ?thesis using d1(2) by (simp add: bm_bit_def)
  qed
  ultimately show ?thesis using fill d1(2) by (metis length_list_update)
qed

lemma bitmap_copy_eq:
  assumes "backed dst nbits" "backed (op_words s dst) nbits" "0 < nbits"
  shows "\<exists>d. bitmap_copy cst dst s nbits = Some d \<and> frame_bits dst d nbits (bm_bit (op_words s dst))"
proof -
  let ?lim = "BITS_TO_LONGS nbits"
  have "small_const_nbits cst nbits \<Longrightarrow> ?lim = 1"
    using assms(3) small_longs by (auto simp: small_const_nbits_def)
  then have eq: "bitmap_copy cst dst s nbits = fold_opt (\<lambda>k d. do { x \<leftarrow> rd_op s d k; wr d k x }) [0..<?lim] dst"
    by (simp add: bitmap_copy_def)
  have "fold_opt (\<lambda>k d. do { x \<leftarrow> rd_op s d k; wr d k x }) [0..<?lim] dst =
      Some (map (\<lambda>k. op_words s dst ! k) [0..<?lim] @ drop ?lim dst)"
    by (rule fold_words)
      (use assms longs_index [OF assms(1)] longs_index [OF assms(2)] in \<open>simp_all add: rd_op_eq [where d = dst] wr_in backed_longs del: wr_eq_Some\<close>)
  moreover have "frame_bits dst (map (\<lambda>k. op_words s dst ! k) [0..<?lim] @ drop ?lim dst) nbits (bm_bit (op_words s dst))"
    by (rule frame_words [OF assms(1)]) (simp add: word_index [OF assms(2)])
  ultimately show ?thesis using eq by auto
qed

end
