(* ===== verification/Parselist.thy ===== *)
theory Parselist
  imports Bitmap_Inline "HOL-Library.Char_ord"
begin

text \<open>
  The list format for bitmaps, e.g. \<^verbatim>\<open>0-4,7\<close>: \<^verbatim>\<open>__bitmap_parselist()\<close>, \<^verbatim>\<open>bitmap_parselist()\<close>,
  \<^verbatim>\<open>bscnl_emit()\<close> and \<^verbatim>\<open>bitmap_scnlistprintf()\<close> of \<^verbatim>\<open>bitmap.c\<close> (lines 536 to 722).
  A buffer is a character list; a read or write outside of it is \<open>None\<close>. The accumulators
  \<^verbatim>\<open>a\<close> and \<^verbatim>\<open>b\<close> are \<^verbatim>\<open>unsigned\<close>, hence 32-bit words that wrap around. The character tests are those of
  the C locale; \<open>snprintf\<close> with the formats the code uses is modelled by what it writes.
  Results are 0 or a negative error number.
\<close>

section \<open>Characters\<close>

definition NUL :: char where "NUL = char_of (0 :: nat)"
definition NEWLINE :: char where "NEWLINE = char_of (10 :: nat)"

definition code :: "char \<Rightarrow> nat" where
  "code c = of_char c"

definition isspace :: "char \<Rightarrow> bool" where
  "isspace c \<longleftrightarrow> code c = 32 \<or> 9 \<le> code c \<and> code c \<le> 13"

definition isdigit :: "char \<Rightarrow> bool" where
  "isdigit c \<longleftrightarrow> 48 \<le> code c \<and> code c \<le> 57"


section \<open>Parsing\<close>

text \<open>
  One number or range: the loop over the characters up to a comma or the end. Its state is the
  rest of the buffer, \<^verbatim>\<open>buflen\<close>, the last character, \<^verbatim>\<open>totaldigits\<close>, \<^verbatim>\<open>a\<close>, \<^verbatim>\<open>b\<close>,
  \<^verbatim>\<open>exp_digit\<close> and \<^verbatim>\<open>in_range\<close>.
\<close>

fun parselist_item ::
  "string \<Rightarrow> nat \<Rightarrow> char \<Rightarrow> nat \<Rightarrow> u32 \<Rightarrow> u32 \<Rightarrow> bool \<Rightarrow> bool \<Rightarrow>
   (int + string \<times> nat \<times> char \<times> nat \<times> u32 \<times> u32) option" where
  "parselist_item buf 0 c totaldigits a b exp_digit in_range = Some (Inr (buf, 0, c, totaldigits, a, b))"
| "parselist_item [] (Suc buflen) c totaldigits a b exp_digit in_range = None"
| "parselist_item (ch # buf) (Suc buflen) old_c totaldigits a b exp_digit in_range =
     (if isspace ch then parselist_item buf buflen ch totaldigits a b exp_digit in_range
      else if totaldigits \<noteq> 0 \<and> ch \<noteq> NUL \<and> isspace old_c then Some (Inl (- EINVAL))
      else if ch = NUL \<or> ch = CHR '','' then Some (Inr (buf, buflen, ch, totaldigits, a, b))
      else if ch = CHR ''-'' then
        (if exp_digit \<or> in_range then Some (Inl (- EINVAL))
         else parselist_item buf buflen ch totaldigits a 0 True True)
      else if \<not> isdigit ch then Some (Inl (- EINVAL))
      else let b = b * 10 + word_of_nat (code ch - 48); a = (if \<not> in_range then b else a)
           in parselist_item buf buflen ch (totaldigits + 1) a b False in_range)"

lemma parselist_item_buflen:
  "parselist_item buf n c td a b ed ir = Some (Inr (buf', n', c', td', a', b')) \<Longrightarrow> n' \<le> n \<and> (n \<noteq> 0 \<longrightarrow> n' < n)"
proof (induction buf n c td a b ed ir rule: parselist_item.induct)
  case (3 ch buf n old_c td a b ed ir)
  show ?case
    using "3.prems" "3.IH" by (simp only: parselist_item.simps Let_def split: if_split_asm) (simp_all, (meson le_imp_less_Suc less_imp_le le_SucI)+)?
qed simp_all

text \<open>The loop \<^verbatim>\<open>while (a <= b) set_bit(a++)\<close> runs through the indices from \<open>a\<close> to \<open>b\<close>.\<close>

function parselist_loop :: "string \<Rightarrow> nat \<Rightarrow> char \<Rightarrow> nat \<Rightarrow> ulong list \<Rightarrow> nat \<Rightarrow> (int \<times> ulong list) option" where
  "parselist_loop buf buflen c totaldigits maskp nmaskbits = do {
     r \<leftarrow> parselist_item buf buflen c totaldigits 0 0 True False;
     (case r of
        Inl e \<Rightarrow> Some (e, maskp)
      | Inr (buf', buflen', c', totaldigits', a, b) \<Rightarrow>
          if \<not> a \<le> b then Some (- EINVAL, maskp)
          else if unat b \<ge> nmaskbits then Some (- ERANGE, maskp)
          else do {
            maskp' \<leftarrow> fold_opt set_bit_x86 [unat a..<unat b + 1] maskp;
            if buflen' \<noteq> 0 \<and> c' = CHR '','' then parselist_loop buf' buflen' c' totaldigits' maskp' nmaskbits
            else Some (0, maskp') }) }"
  by pat_completeness auto
termination
  by (relation "measure (\<lambda>(buf, buflen, c, td, m, n). buflen)") (auto dest!: parselist_item_buflen)

declare parselist_loop.simps [simp del]

definition bitmap_parselist' :: "string \<Rightarrow> nat \<Rightarrow> ulong list \<Rightarrow> nat \<Rightarrow> (int \<times> ulong list) option" where
  "bitmap_parselist' buf buflen maskp nmaskbits = do {
     maskp \<leftarrow> bitmap_zero False maskp nmaskbits;
     parselist_loop buf buflen NUL 0 maskp nmaskbits }"

text \<open>\<open>bp\<close> is a C string without its terminating NUL.\<close>

definition bitmap_parselist :: "string \<Rightarrow> ulong list \<Rightarrow> nat \<Rightarrow> (int \<times> ulong list) option" where
  "bitmap_parselist bp maskp nmaskbits =
     bitmap_parselist' (bp @ [NUL]) (length (takeWhile (\<lambda>c. c \<noteq> NEWLINE) bp)) maskp nmaskbits"

section \<open>Printing\<close>

fun dec :: "nat \<Rightarrow> string" where
  "dec n = (if n < 10 then [char_of (48 + n)] else dec (n div 10) @ [char_of (48 + n mod 10)])"

declare dec.simps [simp del]

text \<open>
  \<^verbatim>\<open>snprintf(buf + pos, size, ...)\<close> of \<open>text\<close>: nothing for size 0, else at most \<open>size - 1\<close> characters and a
  NUL. \<open>size\<close> is the \<^verbatim>\<open>int\<close> argument of the call, converted to \<^verbatim>\<open>size_t\<close>: a negative number becomes
  a huge one. The result is the length of the whole text.
\<close>

definition snprintf :: "string \<Rightarrow> nat \<Rightarrow> int \<Rightarrow> string \<Rightarrow> (string \<times> nat) option" where
  "snprintf buf pos sz txt =
     (let sz = nat (sz mod 2 ^ 64); out = take (sz - 1) txt @ [NUL] in
      if sz = 0 then Some (buf, length txt)
      else if pos + length out \<le> length buf
      then Some (take pos buf @ out @ drop (pos + length out) buf, length txt)
      else None)"

text \<open>\<^verbatim>\<open>len += n\<close> on \<^verbatim>\<open>int\<close>; an overflow is undefined.\<close>

definition add_len :: "nat \<Rightarrow> nat \<Rightarrow> nat option" where
  "add_len len n = (if int (len + n) \<le> INT_MAX then Some (len + n) else None)"

definition bscnl_emit :: "string \<Rightarrow> nat \<Rightarrow> nat \<Rightarrow> nat \<Rightarrow> nat \<Rightarrow> (string \<times> nat) option" where
  "bscnl_emit buf buflen rbot rtop len = do {
     (buf, len) \<leftarrow> (if len > 0 then do {
         (buf, n) \<leftarrow> snprintf buf len (int buflen - int len) '','';
         len \<leftarrow> add_len len n;
         Some (buf, len) } else Some (buf, len));
     (buf, n) \<leftarrow> (if rbot = rtop then snprintf buf len (int buflen - int len) (dec rbot)
                  else snprintf buf len (int buflen - int len) (dec rbot @ ''-'' @ dec rtop));
     len \<leftarrow> add_len len n;
     Some (buf, len) }"

function scnlistprintf_loop ::
  "string \<Rightarrow> nat \<Rightarrow> ulong list \<Rightarrow> nat \<Rightarrow> nat \<Rightarrow> nat \<Rightarrow> nat \<Rightarrow> (string \<times> nat) option" where
  "scnlistprintf_loop buf buflen maskp nmaskbits cur rbot len =
     (if cur < nmaskbits then
        let rtop = cur in do {
          cur' \<leftarrow> find_next_bit maskp nmaskbits (cur + 1);
          if cur' \<ge> nmaskbits \<or> cur' > rtop + 1 then do {
            (buf, len) \<leftarrow> bscnl_emit buf buflen rbot rtop len;
            scnlistprintf_loop buf buflen maskp nmaskbits cur' cur' len }
          else scnlistprintf_loop buf buflen maskp nmaskbits cur' rbot len }
      else Some (buf, len))"
  by pat_completeness auto
termination
  by (relation "measure (\<lambda>(buf, bl, m, n, cur, rbot, len). n - cur)") (auto dest!: find_next_bit_progress)

declare scnlistprintf_loop.simps [simp del]

definition bitmap_scnlistprintf :: "string \<Rightarrow> nat \<Rightarrow> ulong list option \<Rightarrow> nat \<Rightarrow> (string \<times> nat) option" where
  "bitmap_scnlistprintf buf buflen maskp nmaskbits =
     (if buflen = 0 then Some (buf, 0)
      else do {
        buf \<leftarrow> wr buf 0 NUL;
        (case maskp of
           None \<Rightarrow> Some (buf, 1)
         | Some maskp \<Rightarrow> do {
             cur \<leftarrow> find_first_bit maskp nmaskbits;
             scnlistprintf_loop buf buflen maskp nmaskbits cur cur 0 }) })"

section \<open>Numbers\<close>

definition digit :: "nat \<Rightarrow> char" where
  "digit d = char_of (48 + d)"

lemma code_digit: "d < 10 \<Longrightarrow> code (digit d) = 48 + d"
  by (simp add: code_def digit_def)

lemma code_eq_iff: "c = d \<longleftrightarrow> code c = code d"
  by (simp add: code_def)

lemma code_consts [simp]: "code NUL = 0" "code CHR '','' = 44" "code CHR ''-'' = 45" "code NEWLINE = 10"
  by (simp_all add: code_def NUL_def NEWLINE_def)

lemma isdigit_not: "isdigit c \<Longrightarrow> \<not> isspace c \<and> c \<noteq> NUL \<and> c \<noteq> CHR '','' \<and> c \<noteq> CHR ''-'' \<and> c \<noteq> NEWLINE"
  by (auto simp: isdigit_def isspace_def code_eq_iff)

lemma dec_digit: "n < 10 \<Longrightarrow> dec n = [digit n]"
  by (simp add: dec.simps [of n] digit_def)

lemma dec_step: "\<not> n < 10 \<Longrightarrow> dec n = dec (n div 10) @ [digit (n mod 10)]"
  by (subst dec.simps) (simp add: digit_def)

lemma dec_facts: "dec n \<noteq> [] \<and> list_all isdigit (dec n)"
proof (induction n rule: less_induct)
  case (less n)
  have d: "isdigit (digit d)" if "d < 10" for d using that by (simp add: isdigit_def code_digit)
  show ?case
  proof (cases "n < 10")
    case True
    then show ?thesis using d by (simp add: dec_digit)
  next
    case False
    then show ?thesis using less.IH [of "n div 10"] d by (simp add: dec_step)
  qed
qed

definition wval :: "u32 \<Rightarrow> string \<Rightarrow> u32" where
  "wval b ds = foldl (\<lambda>b c. b * 10 + word_of_nat (code c - 48)) b ds"

lemma wval_dec: "wval 0 (dec n) = word_of_nat n"
proof (induction n rule: less_induct)
  case (less n)
  show ?case
  proof (cases "n < 10")
    case True
    then show ?thesis by (simp add: dec_digit wval_def code_digit)
  next
    case False
    then have "wval 0 (dec n) = wval 0 (dec (n div 10)) * 10 + word_of_nat (n mod 10)"
      by (simp add: dec_step wval_def code_digit)
    also have "wval 0 (dec (n div 10)) = word_of_nat (n div 10)" using less.IH [of "n div 10"] False by simp
    also have "word_of_nat (n div 10) * 10 + word_of_nat (n mod 10) = (word_of_nat (n div 10 * 10 + n mod 10) :: u32)"
      by (simp only: of_nat_add of_nat_mult of_nat_numeral)
    finally show ?thesis by (simp only: div_mult_mod_eq)
  qed
qed

section \<open>Parsing one item\<close>

lemma item_digit:
  assumes "isdigit ch" "td = 0 \<or> \<not> isspace c"
  shows "parselist_item (ch # buf) (Suc n) c td a b ed ir =
    parselist_item buf n ch (td + 1) (if ir then a else b * 10 + word_of_nat (code ch - 48))
      (b * 10 + word_of_nat (code ch - 48)) False ir"
  using assms isdigit_not [OF assms(1)] by (auto simp: Let_def)

lemma item_digits:
  assumes "list_all isdigit ds" "ds \<noteq> []" "td = 0 \<or> \<not> isspace c"
  shows "parselist_item (ds @ buf) (length ds + n) c td a b ed ir =
    parselist_item buf n (last ds) (td + length ds) (if ir then a else wval b ds) (wval b ds) False ir"
  using assms
proof (induction ds arbitrary: c td a b ed)
  case (Cons ch ds)
  then have ch: "isdigit ch" "\<not> isspace ch" using isdigit_not by auto
  have "parselist_item ((ch # ds) @ buf) (length (ch # ds) + n) c td a b ed ir =
      parselist_item (ds @ buf) (length ds + n) ch (td + 1) (if ir then a else b * 10 + word_of_nat (code ch - 48))
        (b * 10 + word_of_nat (code ch - 48)) False ir"
    using item_digit [OF ch(1) Cons.prems(3), of "ds @ buf" "length ds + n"] by simp
  also have "\<dots> = parselist_item buf n (last (ch # ds)) (td + length (ch # ds))
      (if ir then a else wval b (ch # ds)) (wval b (ch # ds)) False ir"
  proof (cases "ds = []")
    case False
    then show ?thesis using Cons ch(2) by (simp add: wval_def)
  qed (simp add: wval_def)
  finally show ?case .
qed simp

lemma item_minus:
  "parselist_item (CHR ''-'' # buf) (Suc n) c td a b False False = 
    (if td \<noteq> 0 \<and> isspace c then Some (Inl (- EINVAL)) else parselist_item buf n (CHR ''-'') td a 0 True True)"
  by (simp add: isspace_def code_eq_iff)

lemma item_end:
  "parselist_item (CHR '','' # buf) (Suc n) c td a b ed ir =
    (if td \<noteq> 0 \<and> isspace c then Some (Inl (- EINVAL)) else Some (Inr (buf, n, CHR '','', td, a, b)))"
  by (simp add: isspace_def code_eq_iff)

fun range_text :: "nat \<times> nat \<Rightarrow> string" where
  "range_text (l, h) = (if l = h then dec l else dec l @ ''-'' @ dec h)"

lemma item_range:
  assumes "\<not> isspace c" 
  shows "\<exists>c' td' ir. \<not> isspace c' \<and>
    parselist_item (range_text (l, h) @ buf) (length (range_text (l, h)) + n) c td 0 0 True False =
    parselist_item buf n c' td' (word_of_nat l) (word_of_nat h) False ir"
proof -
  have last: "\<not> isspace (last (dec x))" for x
    using dec_facts [of x] isdigit_not by (metis last_in_set list_all_iff)
  have l: "parselist_item (dec l @ buf') (length (dec l) + m) c td 0 0 True False =
      parselist_item buf' m (last (dec l)) (td + length (dec l)) (word_of_nat l) (word_of_nat l) False False" for buf' m
    using item_digits [of "dec l" td c buf' m 0 0 True False] dec_facts assms by (simp add: wval_dec)
  show ?thesis
  proof (cases "l = h")
    case True
    then show ?thesis using l [of buf n] last by auto
  next
    case False
    have "parselist_item (dec l @ CHR ''-'' # dec h @ buf) (length (dec l) + Suc (length (dec h) + n)) c td 0 0 True False =
        parselist_item (dec h @ buf) (length (dec h) + n) (CHR ''-'') (td + length (dec l)) (word_of_nat l) 0 True True"
      unfolding l item_minus using last by simp
    also have "\<dots> = parselist_item buf n (last (dec h)) (td + length (dec l) + length (dec h)) (word_of_nat l) (word_of_nat h) False True"
      using item_digits [of "dec h" _ "CHR ''-''" buf n "word_of_nat l" 0 True True] dec_facts
      by (simp add: wval_dec isspace_def)
    finally show ?thesis using False last by (auto simp: ac_simps)
  qed
qed

section \<open>Parsing a list of ranges\<close>

fun list_text :: "(nat \<times> nat) list \<Rightarrow> string" where
  "list_text [] = []"
| "list_text [r] = range_text r"
| "list_text (r # r' # rs) = range_text r @ '','' @ list_text (r' # rs)"

definition ranges_ok :: "(nat \<times> nat) list \<Rightarrow> nat \<Rightarrow> bool" where
  "ranges_ok rs n \<longleftrightarrow> (\<forall>(l, h) \<in> set rs. l \<le> h \<and> h < n)"

definition ranges_set :: "(nat \<times> nat) list \<Rightarrow> nat set" where
  "ranges_set rs = (\<Union>(l, h) \<in> set rs. {l..h})"

lemma set_range:
  assumes "backed m n" "h < n"
  shows "\<exists>m'. fold_opt set_bit_x86 [l..<h + 1] m = Some m' \<and> length m' = length m \<and> (\<forall>j. bm_bit m' j \<longleftrightarrow> j \<in> {l..h} \<or> bm_bit m j)"
proof -
  have "\<forall>i \<in> set [l..<h + 1]. i < 64 * length m" using assms by auto
  from store_x86.fold_ins [OF this] obtain m' where "fold_opt set_bit_x86 [l..<h + 1] m = Some m'" "length m' = length m"
      "\<forall>j. bm_bit m' j \<longleftrightarrow> j \<in> set [l..<h + 1] \<or> bm_bit m j" by blast
  moreover have "set [l..<h + 1] = {l..h}" by auto
  ultimately show ?thesis by auto
qed

text \<open>
  What the parser makes of a list of ranges: a number is read modulo \<open>2 ^ 32\<close>, and the first range that is reversed or ends
  beyond the bitmap decides the error.
\<close>

fun read_range :: "nat \<times> nat \<Rightarrow> nat \<times> nat" where
  "read_range (l, h) = (l mod 2 ^ 32, h mod 2 ^ 32)"

fun range_error :: "nat \<Rightarrow> nat \<times> nat \<Rightarrow> int" where
  "range_error n (l, h) = (if h < l then - EINVAL else if n \<le> h then - ERANGE else 0)"

fun list_error :: "nat \<Rightarrow> (nat \<times> nat) list \<Rightarrow> int" where
  "list_error n [] = 0"
| "list_error n (r # rs) = (if range_error n r \<noteq> 0 then range_error n r else list_error n rs)"

lemma list_error_first:
  "list_error n rs = (case filter (\<lambda>(l, h). h < l \<or> n \<le> h) rs of [] \<Rightarrow> 0 | (l, h) # _ \<Rightarrow> if h < l then - EINVAL else - ERANGE)"
  by (induction rs) (auto simp: EINVAL_def ERANGE_def)

lemma read_ranges_ok: "ranges_ok rs n \<Longrightarrow> n \<le> 2 ^ 32 \<Longrightarrow> map read_range rs = rs \<and> list_error n rs = 0"
  by (induction rs) (auto simp: ranges_ok_def)

lemma parselist_loop_step:
  assumes "parselist_item buf n c td 0 0 True False = Some (Inr (buf', n', c', td', word_of_nat l, word_of_nat h))" "backed m k"
  shows "range_error k (read_range (l, h)) \<noteq> 0 \<Longrightarrow> parselist_loop buf n c td m k = Some (range_error k (read_range (l, h)), m)"
    and "range_error k (read_range (l, h)) = 0 \<Longrightarrow> \<exists>m'. length m' = length m \<and>
      (\<forall>j. bm_bit m' j \<longleftrightarrow> j \<in> ranges_set [read_range (l, h)] \<or> bm_bit m j) \<and>
      parselist_loop buf n c td m k = (if n' \<noteq> 0 \<and> c' = CHR '','' then parselist_loop buf' n' c' td' m' k else Some (0, m'))"
proof -
  have u: "unat (word_of_nat x :: u32) = x mod 2 ^ 32" for x by (simp add: unat_of_nat)
  show "parselist_loop buf n c td m k = Some (range_error k (read_range (l, h)), m)" if "range_error k (read_range (l, h)) \<noteq> 0"
    using that assms(1) by (subst parselist_loop.simps) (auto simp: word_le_nat_alt u)
  assume ok: "range_error k (read_range (l, h)) = 0"
  then have lh: "l mod 2 ^ 32 \<le> h mod 2 ^ 32" "h mod 2 ^ 32 < k" by (auto simp: EINVAL_def ERANGE_def split: if_splits)
  from set_range [OF assms(2) lh(2), of "l mod 2 ^ 32"] obtain m' where
    m': "fold_opt set_bit_x86 [l mod 2 ^ 32..<h mod 2 ^ 32 + 1] m = Some m'" "length m' = length m"
      "\<forall>j. bm_bit m' j \<longleftrightarrow> j \<in> {l mod 2 ^ 32..h mod 2 ^ 32} \<or> bm_bit m j" by blast
  have "parselist_loop buf n c td m k = (if n' \<noteq> 0 \<and> c' = CHR '','' then parselist_loop buf' n' c' td' m' k else Some (0, m'))"
    using assms(1) lh m'(1) by (subst parselist_loop.simps) (simp add: word_le_nat_alt u)
  then show "\<exists>m'. length m' = length m \<and> (\<forall>j. bm_bit m' j \<longleftrightarrow> j \<in> ranges_set [read_range (l, h)] \<or> bm_bit m j) \<and>
      parselist_loop buf n c td m k = (if n' \<noteq> 0 \<and> c' = CHR '','' then parselist_loop buf' n' c' td' m' k else Some (0, m'))"
    using m'(2,3) by (intro exI [of _ m']) (simp add: ranges_set_def)
qed

lemma parselist_loop_list:
  assumes "rs \<noteq> []" "backed m n" "\<not> isspace c"
  shows "\<exists>m'. parselist_loop (list_text rs @ tail) (length (list_text rs)) c td m n = Some (list_error n (map read_range rs), m') \<and>
    (list_error n (map read_range rs) = 0 \<longrightarrow> length m' = length m \<and> (\<forall>j. bm_bit m' j \<longleftrightarrow> j \<in> ranges_set (map read_range rs) \<or> bm_bit m j))"
  using assms
proof (induction rs arbitrary: m c td rule: list_text.induct)
  case (2 r)
  obtain l h where r: "r = (l, h)" by (cases r)
  obtain c' td' ir where "parselist_item (range_text (l, h) @ tail) (length (range_text (l, h)) + 0) c td 0 0 True False =
      parselist_item tail 0 c' td' (word_of_nat l) (word_of_nat h) False ir"
    using item_range [OF "2.prems"(3), of l h tail 0 td] by blast
  then have it: "parselist_item (list_text [r] @ tail) (length (list_text [r])) c td 0 0 True False =
      Some (Inr (tail, 0, c', td', word_of_nat l, word_of_nat h))" by (simp add: r)
  note step = parselist_loop_step [OF it "2.prems"(2)]
  show ?case
  proof (cases "range_error n (read_range r) = 0")
    case True
    then show ?thesis using step(2) [folded r, OF True] unfolding list.map list_error.simps by auto
  next
    case False
    then show ?thesis using step(1) [folded r, OF False] unfolding list.map list_error.simps by auto
  qed
next
  case (3 r r' rs)
  obtain l h where r: "r = (l, h)" by (cases r)
  let ?rest = "list_text (r' # rs)"
  obtain c' td' ir where c': "\<not> isspace c'" and it: "parselist_item (range_text (l, h) @ '','' @ ?rest @ tail) (length (range_text (l, h)) + Suc (length ?rest)) c td 0 0 True False =
      parselist_item ('','' @ ?rest @ tail) (Suc (length ?rest)) c' td' (word_of_nat l) (word_of_nat h) False ir"
    using item_range [OF "3.prems"(3), of l h "'','' @ ?rest @ tail" "Suc (length ?rest)" td] by blast
  have it: "parselist_item (list_text (r # r' # rs) @ tail) (length (list_text (r # r' # rs))) c td 0 0 True False =
      Some (Inr (?rest @ tail, length ?rest, CHR '','', td', word_of_nat l, word_of_nat h))"
    using it c' by (simp add: item_end r del: parselist_item.simps range_text.simps)
  note step = parselist_loop_step [OF it "3.prems"(2)]
  have ne: "length ?rest \<noteq> 0" using dec_facts by (cases r'; cases rs) auto
  show ?case
  proof (cases "range_error n (read_range r) = 0")
    case True
    obtain m1 where m1: "length m1 = length m" "\<forall>j. bm_bit m1 j \<longleftrightarrow> j \<in> ranges_set [read_range r] \<or> bm_bit m j"
        "parselist_loop (list_text (r # r' # rs) @ tail) (length (list_text (r # r' # rs))) c td m n =
           parselist_loop (?rest @ tail) (length ?rest) (CHR '','') td' m1 n"
      using step(2) [folded r, OF True] ne by auto
    obtain m' where "parselist_loop (?rest @ tail) (length ?rest) (CHR '','') td' m1 n = Some (list_error n (map read_range (r' # rs)), m')"
        "list_error n (map read_range (r' # rs)) = 0 \<longrightarrow>
          length m' = length m1 \<and> (\<forall>j. bm_bit m' j \<longleftrightarrow> j \<in> ranges_set (map read_range (r' # rs)) \<or> bm_bit m1 j)"
      using "3.IH" [of m1 "CHR '',''" td'] "3.prems"(2) m1(1) by (auto simp: isspace_def)
    moreover have "list_error n (map read_range (r # r' # rs)) = list_error n (map read_range (r' # rs))" using True by simp
    moreover have "ranges_set (map read_range (r # r' # rs)) = ranges_set [read_range r] \<union> ranges_set (map read_range (r' # rs))"
      by (simp add: ranges_set_def)
    ultimately show ?thesis using m1 by auto
  next
    case False
    then show ?thesis using step(1) [folded r, OF False] by auto
  qed
qed simp

section \<open>The whole parser\<close>

lemma range_text_chars: "c \<in> set (range_text r) \<Longrightarrow> isdigit c \<or> c = CHR ''-''"
  using dec_facts by (cases r) (auto simp: list_all_iff split: if_splits)

lemma list_text_chars: "c \<in> set (list_text rs) \<Longrightarrow> isdigit c \<or> c = CHR ''-'' \<or> c = CHR '',''"
proof (induction rs rule: list_text.induct)
  case (3 r r' rs)
  then show ?case using range_text_chars [of c r] by auto
qed (use range_text_chars in auto)

lemma list_text_no_newline: "takeWhile (\<lambda>c. c \<noteq> NEWLINE) (list_text rs) = list_text rs"
  unfolding takeWhile_eq_all_conv using list_text_chars by (fastforce simp: code_eq_iff isdigit_def)

lemma bitmap_parselist_start:
  assumes "backed m n"
  shows "\<exists>m0. bitmap_parselist bp m n = parselist_loop (bp @ [NUL]) (length (takeWhile (\<lambda>c. c \<noteq> NEWLINE) bp)) NUL 0 m0 n \<and>
    length m0 = length m \<and> (\<forall>j < n. \<not> bm_bit m0 j)"
proof -
  obtain m0 where "bitmap_zero False m n = Some m0" "length m0 = length m" "\<forall>i < 64 * BITS_TO_LONGS n. \<not> bm_bit m0 i"
    using bitmap_zero_eq [OF assms, of False] by auto
  then show ?thesis using longs_le [of n] by (intro exI [of _ m0]) (simp add: bitmap_parselist_def bitmap_parselist'_def)
qed

lemma isspace_NUL [simp]: "\<not> isspace NUL"
  by (simp add: isspace_def)

text \<open>The text may end with a newline. An empty one is read like \<^verbatim>\<open>0\<close>.\<close>

lemma bitmap_parselist_list:
  assumes "backed m n" "rest = [] \<or> hd rest = NEWLINE" "items = map read_range (if rs = [] then [(0, 0)] else rs)"
  shows "\<exists>m'. bitmap_parselist (list_text rs @ rest) m n = Some (list_error n items, m') \<and>
    (list_error n items = 0 \<longrightarrow> length m' = length m \<and> bm_set m' n = ranges_set items)"
proof -
  let ?t = "list_text rs"
  have "takeWhile (\<lambda>c. c \<noteq> NEWLINE) (?t @ rest) = ?t @ takeWhile (\<lambda>c. c \<noteq> NEWLINE) rest"
    using list_text_no_newline [of rs] by (simp add: takeWhile_append takeWhile_eq_all_conv)
  also have "takeWhile (\<lambda>c. c \<noteq> NEWLINE) rest = []" using assms(2) by (cases rest) auto
  finally have tw: "takeWhile (\<lambda>c. c \<noteq> NEWLINE) (?t @ rest) = ?t" by simp
  obtain m0 where m0: "bitmap_parselist (?t @ rest) m n = parselist_loop (?t @ rest @ [NUL]) (length ?t) NUL 0 m0 n"
      "length m0 = length m" "\<forall>j < n. \<not> bm_bit m0 j"
    using bitmap_parselist_start [OF assms(1), of "?t @ rest"] unfolding tw append_assoc by blast
  have b: "backed m0 n" using assms(1) m0(2) by simp
  obtain m' where m': "parselist_loop (?t @ rest @ [NUL]) (length ?t) NUL 0 m0 n = Some (list_error n items, m')"
      "list_error n items = 0 \<longrightarrow> length m' = length m0 \<and> (\<forall>j. bm_bit m' j \<longleftrightarrow> j \<in> ranges_set items \<or> bm_bit m0 j)"
  proof (cases "rs = []")
    case True
    have it: "parselist_item (?t @ rest @ [NUL]) (length ?t) NUL 0 0 0 True False =
        Some (Inr (rest @ [NUL], 0, NUL, 0, word_of_nat 0, word_of_nat 0))" by (simp add: True)
    note step = parselist_loop_step [OF it b]
    have items: "items = [read_range (0, 0)]" using assms(3) True by simp
    show ?thesis
    proof (cases "range_error n (read_range (0, 0)) = 0")
      case ok: True
      then show ?thesis using step(2) [OF ok] that unfolding items by auto
    next
      case False
      then show ?thesis using step(1) [OF False] that unfolding items by auto
    qed
  next
    case False
    then show ?thesis using parselist_loop_list [OF False b, of NUL "rest @ [NUL]" 0] that assms(3) by auto
  qed
  have "bm_set m' n = ranges_set items" if ok: "list_error n items = 0"
  proof -
    have bounded: "list_error n is = 0 \<Longrightarrow> ranges_set is \<subseteq> {..<n}" for "is"
      by (induction "is") (fastforce simp: ranges_set_def EINVAL_def ERANGE_def split: if_splits)+
    show ?thesis using bounded [OF ok] m'(2) ok m0(3) by (auto simp: bm_set_def)
  qed
  then show ?thesis using m0(1,2) m' by auto
qed

lemma bitmap_parselist_ranges:
  assumes "ranges_ok rs n" "rs \<noteq> []" "n \<le> 2 ^ 32" "backed m n" "rest = [] \<or> hd rest = NEWLINE"
  shows "\<exists>m'. bitmap_parselist (list_text rs @ rest) m n = Some (0, m') \<and> length m' = length m \<and>
    (\<forall>j < n. bm_bit m' j \<longleftrightarrow> j \<in> ranges_set rs)"
proof -
  have "map read_range rs = rs" "list_error n rs = 0" using read_ranges_ok [OF assms(1,3)] by simp_all
  then obtain m' where "bitmap_parselist (list_text rs @ rest) m n = Some (0, m')" "length m' = length m" "bm_set m' n = ranges_set rs"
    using bitmap_parselist_list [OF assms(4,5) refl, of rs] assms(2) by auto
  then show ?thesis by (auto simp: bm_set_def set_eq_iff)
qed

text \<open>What the parser accepts consists of digits, commas, hyphens and white space.\<close>

definition list_char :: "char \<Rightarrow> bool" where
  "list_char c \<longleftrightarrow> isdigit c \<or> isspace c \<or> c = CHR '','' \<or> c = CHR ''-''"

lemma list_charI: "isdigit c \<Longrightarrow> list_char c" "isspace c \<Longrightarrow> list_char c" "list_char CHR ''-''" "list_char CHR '',''"
  by (simp_all add: list_char_def)

lemma parselist_item_chars:
  "parselist_item buf n c td a b ed ir = Some (Inr (buf', n', c', td', a', b')) \<Longrightarrow> NUL \<notin> set (take n buf) \<Longrightarrow>
   \<exists>pre. buf = pre @ buf' \<and> n = length pre + n' \<and> list_all list_char pre \<and> (n' \<noteq> 0 \<longrightarrow> c' = CHR '','')"
proof (induction buf n c td a b ed ir rule: parselist_item.induct)
  case (1 buf c td a b ed ir)
  then show ?case by simp
next
  case (3 ch buf n old_c td a b ed ir)
  have cons: "\<exists>pre. ch # buf = pre @ buf' \<and> Suc n = length pre + n' \<and> list_all list_char pre \<and> (n' \<noteq> 0 \<longrightarrow> c' = CHR '','')"
    if h: "\<exists>pre. buf = pre @ buf' \<and> n = length pre + n' \<and> list_all list_char pre \<and> (n' \<noteq> 0 \<longrightarrow> c' = CHR '','')" "list_char ch"
  proof -
    obtain pre where "buf = pre @ buf'" "n = length pre + n'" "list_all list_char pre" "n' \<noteq> 0 \<longrightarrow> c' = CHR '',''" using h(1) by blast
    then show ?thesis using h(2) by (intro exI [of _ "ch # pre"]) simp
  qed
  have nul: "ch \<noteq> NUL" "NUL \<notin> set (take n buf)" using "3.prems"(2) by auto
  consider "isspace ch" | "\<not> isspace ch" "ch = CHR '',''" | "\<not> isspace ch" "ch = CHR ''-''" | "\<not> isspace ch" "isdigit ch" "ch \<noteq> CHR '',''" "ch \<noteq> CHR ''-''"
    using "3.prems"(1) nul(1) by (auto split: if_splits)
  then show ?case
  proof cases
    case 1
    then have "parselist_item buf n ch td a b ed ir = Some (Inr (buf', n', c', td', a', b'))" using "3.prems"(1) by simp
    from "3.IH"(1) [OF 1 this nul(2)] show ?thesis using cons 1 list_charI by blast
  next
    case 2
    then have "buf' = buf" "n' = n" "c' = ch" using "3.prems"(1) nul(1) by (auto split: if_splits)
    then show ?thesis using 2 by (intro exI [of _ "[ch]"]) (simp add: list_char_def)
  next
    case 3
    then have ns: "\<not> (td \<noteq> 0 \<and> ch \<noteq> NUL \<and> isspace old_c)" "\<not> (ch = NUL \<or> ch = CHR '','')" "\<not> (ed \<or> ir)"
      and "parselist_item buf n ch td a 0 True True = Some (Inr (buf', n', c', td', a', b'))"
      using "3.prems"(1) nul(1) by (auto split: if_splits)
    from "3.IH"(2) [OF 3(1) ns(1,2) 3(2) ns(3) this(4) nul(2)] show ?thesis using cons 3 list_charI by blast
  next
    case 4
    then have ns: "\<not> (td \<noteq> 0 \<and> ch \<noteq> NUL \<and> isspace old_c)" "\<not> (ch = NUL \<or> ch = CHR '','')"
      and "parselist_item buf n ch (td + 1) (if \<not> ir then b * 10 + word_of_nat (code ch - 48) else a) (b * 10 + word_of_nat (code ch - 48)) False ir
        = Some (Inr (buf', n', c', td', a', b'))"
      using "3.prems"(1) nul(1) by (auto simp: Let_def split: if_splits)
    from "3.IH"(3) [OF 4(1) ns(1,2) 4(4) _ refl refl this(3) nul(2)] 4 show ?thesis using cons list_charI by blast
  qed
qed simp

lemma parselist_item_neg: "parselist_item buf n c td a b ed ir = Some (Inl e) \<Longrightarrow> e = - EINVAL"
  by (induction buf n c td a b ed ir rule: parselist_item.induct) (auto simp: Let_def split: if_splits)

lemma parselist_loop_chars:
  "parselist_loop buf n c td m k = Some (0, m') \<Longrightarrow> NUL \<notin> set (take n buf) \<Longrightarrow> list_all list_char (take n buf)"
proof (induction buf n c td m k rule: parselist_loop.induct)
  case (1 buf n c td m k)
  note P = "1.prems"(1) [unfolded parselist_loop.simps [of buf n c td m k]]
  obtain r where r: "parselist_item buf n c td 0 0 True False = Some r" using P by (auto simp: bind_eq_Some_conv)
  show ?case
  proof (cases r)
    case (Inl e)
    then show ?thesis using P r parselist_item_neg [OF r [unfolded Inl]] by (simp add: EINVAL_def)
  next
    case (Inr p)
    obtain buf' n' c' td' a b where p: "p = (buf', n', c', td', a, b)" by (cases p)
    note r = r [unfolded Inr, unfolded p]
    have ab: "a \<le> b" "\<not> unat b \<ge> k" using P by (auto simp: r EINVAL_def ERANGE_def split: if_splits)
    obtain m1 where m1: "fold_opt set_bit_x86 [unat a..<unat b + 1] m = Some m1"
      using P ab by (auto simp: r bind_eq_Some_conv)
    obtain pre where pre: "buf = pre @ buf'" "n = length pre + n'" "list_all list_char pre" "n' \<noteq> 0 \<longrightarrow> c' = CHR '',''"
      using parselist_item_chars [OF r "1.prems"(2)] by blast
    show ?thesis
    proof (cases "n' = 0")
      case True
      then show ?thesis using pre by simp
    next
      case False
      then have c: "n' \<noteq> 0 \<and> c' = CHR '',''" using pre(4) by simp
      then have "parselist_loop buf' n' c' td' m1 k = Some (0, m')" using P ab m1 by (simp add: r)
      moreover have "NUL \<notin> set (take n' buf')" using "1.prems"(2) pre(1,2) by simp
      ultimately have "list_all list_char (take n' buf')"
        using "1.IH" [OF r refl refl refl refl refl refl _ ab(2) m1 c] ab(1) by blast
      then show ?thesis using pre by simp
    qed
  qed
qed

lemma bitmap_parselist_chars:
  assumes "backed m n" "bitmap_parselist bp m n = Some (0, m')" "NUL \<notin> set bp"
  shows "list_all list_char (takeWhile (\<lambda>c. c \<noteq> NEWLINE) bp)"
proof -
  let ?l = "length (takeWhile (\<lambda>c. c \<noteq> NEWLINE) bp)"
  have le: "?l \<le> length bp" by (rule length_takeWhile_le)
  then have "take ?l (bp @ [NUL]) = takeWhile (\<lambda>c. c \<noteq> NEWLINE) bp" by (simp add: takeWhile_eq_take [symmetric])
  moreover obtain m0 where "parselist_loop (bp @ [NUL]) ?l NUL 0 m0 n = Some (0, m')"
    using bitmap_parselist_start [OF assms(1), of bp] assms(2) by metis
  moreover have "NUL \<notin> set (takeWhile (\<lambda>c. c \<noteq> NEWLINE) bp)" using assms(3) set_takeWhileD by fastforce
  ultimately show ?thesis using parselist_loop_chars by metis
qed

end
