(* ===== verification/Scnlistprintf.thy ===== *)
theory Scnlistprintf
  imports Parselist
begin

text \<open>
  What \<^verbatim>\<open>bitmap_scnlistprintf()\<close> prints: the maximal runs of the bitmap (\<open>runs_of\<close>), the text it
  writes when the buffer is long enough, the length of that text, the write outside of the buffer when it
  is too short, and the round trip with \<^verbatim>\<open>bitmap_parselist()\<close>.
\<close>

section \<open>The ranges of a bitmap\<close>

lemma next_from_progress: "cur < n \<Longrightarrow> cur < next_from P n (Suc cur)"
  using next_from_lower [of "Suc cur" n P] by simp

text \<open>The maximal runs of a set below \<open>n\<close>, in the order in which the printing loop finds them.\<close>

function runs :: "(nat \<Rightarrow> bool) \<Rightarrow> nat \<Rightarrow> nat \<Rightarrow> nat \<Rightarrow> (nat \<times> nat) list" where
  "runs P n cur rbot =
     (if cur < n then
        let cur' = next_from P n (Suc cur) in
        if cur' \<ge> n \<or> cur' > Suc cur then (rbot, cur) # runs P n cur' cur' else runs P n cur' rbot
      else [])"
  by pat_completeness auto

termination
  by (relation "measure (\<lambda>(P, n, cur, rbot). n - cur)") (auto intro: diff_less_mono2 next_from_progress)

declare runs.simps [simp del]

definition runs_of :: "ulong list \<Rightarrow> nat \<Rightarrow> (nat \<times> nat) list" where
  "runs_of m n = runs (bm_bit m) n (next_from (bm_bit m) n 0) (next_from (bm_bit m) n 0)"

lemma runs_end: "\<not> cur < n \<Longrightarrow> runs P n cur rbot = []"
  by (simp add: runs.simps)

lemma runs_new:
  "cur < n \<Longrightarrow> c = next_from P n (Suc cur) \<Longrightarrow> c \<ge> n \<or> c > Suc cur \<Longrightarrow> runs P n cur rbot = (rbot, cur) # runs P n c c"
  by (subst runs.simps) (simp add: Let_def)

lemma runs_extend:
  "cur < n \<Longrightarrow> c = next_from P n (Suc cur) \<Longrightarrow> \<not> (c \<ge> n \<or> c > Suc cur) \<Longrightarrow> runs P n cur rbot = runs P n c rbot"
  by (subst runs.simps) (simp add: Let_def)

lemma runs_facts:
  assumes "rbot \<le> cur" "\<forall>i. rbot \<le> i \<and> i \<le> cur \<and> i < n \<longrightarrow> P i"
  shows "ranges_ok (runs P n cur rbot) n \<and> ranges_set (runs P n cur rbot) = {i. rbot \<le> i \<and> i < n \<and> cur < n \<and> P i}"
  using assms
proof (induction P n cur rbot rule: runs.induct)
  case (1 P n cur rbot)
  show ?case
  proof (cases "cur < n")
    case False
    then show ?thesis by (simp add: runs_end ranges_ok_def ranges_set_def)
  next
    case True
    define c where "c = next_from P n (Suc cur)"
    have c: "Suc cur \<le> c" "c \<le> n" using next_from_progress [OF True, of P] next_from_le by (simp_all add: c_def Suc_le_eq)
    have gap: "\<not> P i" if "cur < i" "i < c" for i using next_from_skips [of "Suc cur" i P n] that by (simp add: c_def)
    have hit: "P c" if "c < n" using that next_from_holds unfolding c_def by blast
    show ?thesis
    proof (cases "c \<ge> n \<or> c > Suc cur")
      case new: True
      have "\<forall>i. c \<le> i \<and> i \<le> c \<and> i < n \<longrightarrow> P i" using hit le_antisym by blast
      then have IH: "ranges_ok (runs P n c c) n \<and> ranges_set (runs P n c c) = {i. c \<le> i \<and> i < n \<and> c < n \<and> P i}"
        using "1.IH"(1) [OF True c_def new] by simp
      have "{i. rbot \<le> i \<and> i < n \<and> cur < n \<and> P i} = {rbot..cur} \<union> {i. c \<le> i \<and> i < n \<and> c < n \<and> P i}"
        using gap True "1.prems" c by (fastforce simp: not_le not_less)
      then show ?thesis unfolding runs_new [OF True c_def new] using IH "1.prems"(1) True by (simp add: ranges_ok_def ranges_set_def)
    next
      case False
      then have cs: "c = Suc cur" "c < n" using c by auto
      then have "\<forall>i. rbot \<le> i \<and> i \<le> c \<and> i < n \<longrightarrow> P i" using "1.prems"(2) hit by (auto simp: le_Suc_eq)
      then show ?thesis
        using "1.IH"(2) [OF True c_def False] "1.prems"(1) cs True unfolding runs_extend [OF True c_def False] by simp
    qed
  qed
qed

lemma runs_of_facts:
  "ranges_ok (runs_of m n) n" "ranges_set (runs_of m n) = bm_set m n"
proof -
  define c where "c = next_from (bm_bit m) n 0"
  have hit: "bm_bit m c" if "c < n" using that next_from_holds unfolding c_def by blast
  have "\<forall>i. c \<le> i \<and> i \<le> c \<and> i < n \<longrightarrow> bm_bit m i" using hit le_antisym by blast
  then have h: "ranges_ok (runs_of m n) n \<and> ranges_set (runs_of m n) = {i. c \<le> i \<and> i < n \<and> c < n \<and> bm_bit m i}"
    unfolding runs_of_def c_def [symmetric] by (intro runs_facts) simp_all
  then show "ranges_ok (runs_of m n) n" by blast
  have "c \<le> i" if "bm_bit m i" for i
    using that next_from_skips [of 0 i "bm_bit m" n] unfolding c_def by (meson le0 not_le)
  then show "ranges_set (runs_of m n) = bm_set m n" using h by force
qed

lemma runs_nonempty: "cur < n \<Longrightarrow> runs P n cur rbot \<noteq> []"
proof (induction P n cur rbot rule: runs.induct)
  case (1 P n cur rbot)
  then show ?case using runs_new [OF "1.prems" refl] runs_extend [OF "1.prems" refl] by (metis list.distinct(1) not_le)
qed

lemma runs_of_empty: "runs_of m n = [] \<longleftrightarrow> bm_set m n = {}"
proof -
  have "runs_of m n = [] \<longleftrightarrow> \<not> next_from (bm_bit m) n 0 < n"
    unfolding runs_of_def using runs_end runs_nonempty by metis
  also have "\<dots> \<longleftrightarrow> bm_set m n = {}"
  proof
    assume "\<not> next_from (bm_bit m) n 0 < n"
    then have "\<not> bm_bit m i" if "i < n" for i using next_from_skips [of 0 i "bm_bit m" n] that by simp
    then show "bm_set m n = {}" by auto
  next
    assume "bm_set m n = {}"
    then show "\<not> next_from (bm_bit m) n 0 < n" using next_from_holds [of "bm_bit m" n 0] by auto
  qed
  finally show ?thesis .
qed

text \<open>The length of the text: a run of width \<open>w\<close> takes \<open>w + 1\<close> of the positions, and at most \<open>10 (w + 1) / 3\<close> characters.\<close>

lemma dec_length: "n < 10 ^ k \<Longrightarrow> 0 < k \<Longrightarrow> length (dec n) \<le> k"
proof (induction k arbitrary: n)
  case (Suc k)
  show ?case
  proof (cases "n < 10")
    case False
    then have k: "0 < k" using Suc.prems(1) by (cases k) simp_all
    have "n div 10 < 10 ^ k" using Suc.prems(1) by (intro less_mult_imp_div_less) (simp add: mult.commute)
    then show ?thesis using Suc.IH k False by (simp add: dec_step)
  qed (simp add: dec_digit)
qed simp

lemma range_text_length:
  assumes "l \<le> h" "h < 1024"
  shows "3 * (length (range_text (l, h)) + 1) \<le> 10 * (h - l + 2)"
proof -
  have "length (dec l) \<le> 4" "length (dec h) \<le> 4" using dec_length [of l 4] dec_length [of h 4] assms by simp_all
  moreover have "l \<noteq> h \<Longrightarrow> 1 \<le> h - l" using assms(1) by simp
  ultimately show ?thesis by (cases "l = h") simp_all
qed

lemma list_text_Cons: "list_text (r # rs) = range_text r @ (if rs = [] then [] else '','' @ list_text rs)"
  by (cases rs) simp_all

lemma runs_length:
  assumes "rbot \<le> cur" "n \<le> 1024" "cur < n"
  shows "3 * (length (list_text (runs P n cur rbot)) + 1) \<le> 10 * (n - rbot + 1)"
  using assms
proof (induction P n cur rbot rule: runs.induct)
  case (1 P n cur rbot)
  note lt = "1.prems"(3)
  define c where "c = next_from P n (Suc cur)"
  have c: "Suc cur \<le> c" "c \<le> n" using next_from_progress [OF lt, of P] next_from_le by (simp_all add: c_def Suc_le_eq)
  show ?case
  proof (cases "c \<ge> n \<or> c > Suc cur")
    case new: True
    define x where "x = length (range_text (rbot, cur))"
    have r: "3 * (x + 1) \<le> 10 * (cur - rbot + 2)"
      using "1.prems" unfolding x_def by (intro range_text_length) auto
    show ?thesis
    proof (cases "c < n")
      case False
      have "length (list_text (runs P n cur rbot)) = x"
        unfolding runs_new [OF lt c_def new] using False by (simp add: runs_end x_def del: range_text.simps)
      then show ?thesis using r "1.prems" by simp
    next
      case True
      define y where "y = length (list_text (runs P n c c))"
      have IH: "3 * (y + 1) \<le> 10 * (n - c + 1)"
        using "1.IH"(1) [OF lt c_def new] "1.prems"(2) True by (simp add: y_def)
      have "length (list_text (runs P n cur rbot)) \<le> x + 1 + y"
        unfolding runs_new [OF lt c_def new] x_def y_def by (simp add: list_text_Cons)
      moreover have "cur - rbot + 2 + (n - c + 1) \<le> n - rbot + 1" using new True "1.prems"(1) by simp
      moreover have "l \<le> x + 1 + y \<Longrightarrow> u + v \<le> w \<Longrightarrow> 3 * (x + 1) \<le> 10 * u \<Longrightarrow> 3 * (y + 1) \<le> 10 * v \<Longrightarrow> 3 * (l + 1) \<le> 10 * w"
        for l u v w :: nat by simp
      ultimately show ?thesis using r IH by blast
    qed
  next
    case False
    then show ?thesis using "1.IH"(2) [OF lt c_def False] "1.prems" c unfolding runs_extend [OF lt c_def False] by simp
  qed
qed

lemma runs_of_length:
  assumes "n \<le> 1024"
  shows "length (list_text (runs_of m n)) < 4096"
proof -
  define c where "c = next_from (bm_bit m) n 0"
  show ?thesis
  proof (cases "c < n")
    case True
    then have "3 * (length (list_text (runs_of m n)) + 1) \<le> 10 * (n - c + 1)"
      unfolding runs_of_def c_def [symmetric] using assms by (intro runs_length) simp_all
    moreover have "3 * (y + 1) \<le> 10 * z \<Longrightarrow> z \<le> 1025 \<Longrightarrow> y < 4096" for y z :: nat by simp
    ultimately show ?thesis using assms by simp
  next
    case False
    then show ?thesis by (simp add: runs_of_def c_def runs_end)
  qed
qed

section \<open>Printing\<close>

lemma snprintf_fits:
  assumes "pos + length txt < buflen" "buflen \<le> length buf" "buflen < 2 ^ 64"
  shows "snprintf buf pos (int buflen - int pos) txt =
    Some (take pos buf @ txt @ [NUL] @ drop (Suc (pos + length txt)) buf, length txt)"
proof -
  have "(int buflen - int pos) mod 2 ^ 64 = int (buflen - pos)"
    using assms by (subst mod_pos_pos_trivial) (simp_all add: of_nat_diff)
  then have "nat ((int buflen - int pos) mod 2 ^ 64) = buflen - pos" by (simp only: nat_int)
  then show ?thesis using assms unfolding snprintf_def Let_def by simp
qed

lemma snprintf_length:
  "snprintf buf pos sz txt = Some (buf', k) \<Longrightarrow> length buf' = length buf \<and> k = length txt"
  by (auto simp: snprintf_def Let_def split: if_splits)

lemma snprintf_beyond:
  assumes "length buf < pos" "sz mod 2 ^ 64 \<noteq> 0"
  shows "snprintf buf pos sz txt = None"
proof -
  have "0 \<le> sz mod 2 ^ 64" by simp
  then have "nat (sz mod 2 ^ 64) \<noteq> 0" using assms(2) by (simp only: nat_eq_iff) simp
  then show ?thesis using assms(1) by (simp add: snprintf_def Let_def)
qed

text \<open>The text after one more run.\<close>

definition emit :: "string \<Rightarrow> nat \<times> nat \<Rightarrow> string" where
  "emit T r = T @ (if T = [] then [] else '','') @ range_text r"

lemma bscnl_emit_text:
  "bscnl_emit buf buflen rbot rtop len = do {
     (buf, len) \<leftarrow> (if len > 0 then do {
         (buf, n) \<leftarrow> snprintf buf len (int buflen - int len) '','';
         len \<leftarrow> add_len len n;
         Some (buf, len) } else Some (buf, len));
     (buf, n) \<leftarrow> snprintf buf len (int buflen - int len) (range_text (rbot, rtop));
     len \<leftarrow> add_len len n;
     Some (buf, len) }"
  by (simp add: bscnl_emit_def)

definition printed :: "string \<Rightarrow> string \<Rightarrow> bool" where
  "printed T buf \<longleftrightarrow> take (length T) buf = T \<and> length T < length buf \<and> buf ! length T = NUL"

lemma snprintf_printed:
  assumes "printed T buf" "length T + length txt < buflen" "buflen \<le> length buf" "buflen < 2 ^ 64"
  shows "\<exists>buf'. snprintf buf (length T) (int buflen - int (length T)) txt = Some (buf', length txt) \<and> printed (T @ txt) buf' \<and>
    length buf' = length buf \<and> drop buflen buf' = drop buflen buf"
proof -
  let ?b = "take (length T) buf @ txt @ [NUL] @ drop (Suc (length T + length txt)) buf"
  have t: "take (length T) buf = T" using assms(1) by (simp add: printed_def)
  have "printed (T @ txt) ?b" unfolding t using assms by (simp add: printed_def nth_append)
  moreover have "length ?b = length buf" using assms by simp
  moreover have "drop buflen ?b = drop buflen buf"
  proof -
    obtain d where "buflen = Suc (length T + length txt + d)" using assms(2) less_iff_Suc_add by auto
    then show ?thesis unfolding t by (simp add: ac_simps)
  qed
  ultimately show ?thesis using snprintf_fits [OF assms(2-4)] by blast
qed

lemma bscnl_emit_fits:
  assumes "printed T buf" "length (emit T (rbot, rtop)) < buflen" "buflen \<le> length buf" "buflen < 2 ^ 31"
  shows "\<exists>buf'. bscnl_emit buf buflen rbot rtop (length T) = Some (buf', length (emit T (rbot, rtop))) \<and>
    printed (emit T (rbot, rtop)) buf' \<and> length buf' = length buf \<and> drop buflen buf' = drop buflen buf"
proof -
  define R where "R = range_text (rbot, rtop)"
  have b64: "buflen < 2 ^ 64" using assms(4) by simp
  note [simp del] = range_text.simps
  show ?thesis
  proof (cases "T = []")
    case True
    obtain buf' where "snprintf buf (length T) (int buflen - int (length T)) R = Some (buf', length R)" "printed (T @ R) buf'"
        "length buf' = length buf" "drop buflen buf' = drop buflen buf"
      using snprintf_printed [OF assms(1) _ assms(3) b64, of R] assms(2) True by (auto simp: emit_def R_def)
    then show ?thesis using True assms(2,4) by (simp add: bscnl_emit_text emit_def R_def add_len_def INT_MAX_def)
  next
    case False
    have len: "length T + 1 + length R < buflen" using assms(2) False by (simp add: emit_def R_def)
    obtain b1 where b1: "snprintf buf (length T) (int buflen - int (length T)) '','' = Some (b1, 1)" "printed (T @ '','') b1"
        "length b1 = length buf" "drop buflen b1 = drop buflen buf"
      using snprintf_printed [OF assms(1) _ assms(3) b64, of "'','' "] len by auto
    obtain b2 where "snprintf b1 (length (T @ '','')) (int buflen - int (length (T @ '',''))) R = Some (b2, length R)"
        "printed ((T @ '','') @ R) b2" "length b2 = length b1" "drop buflen b2 = drop buflen b1"
      using snprintf_printed [OF b1(2) _ _ b64, of R] len assms(3) b1(3) by auto
    then show ?thesis using False b1 len assms(4) by (simp add: bscnl_emit_text emit_def R_def add_len_def INT_MAX_def)
  qed
qed

lemma list_text_emit: "T @ (if T = [] then [] else '','') @ list_text (r # rs) =
    (if rs = [] then emit T r else emit T r @ '','' @ list_text rs)"
  by (simp add: emit_def list_text_Cons)

lemma emit_nonempty: "emit T r \<noteq> []"
  using dec_facts by (cases r) (simp add: emit_def)

definition joined :: "string \<Rightarrow> (nat \<times> nat) list \<Rightarrow> string" where
  "joined T rs = (if rs = [] then T else T @ (if T = [] then [] else '','') @ list_text rs)"

lemma joined_Nil [simp]: "joined T [] = T"
  by (simp add: joined_def)

lemma joined_Cons: "joined T (r # rs) = joined (emit T r) rs"
  using emit_nonempty [of T r] list_text_emit [of T r rs] by (simp add: joined_def)

lemma joined_start: "joined [] rs = list_text rs"
  by (simp add: joined_def)

lemma joined_longer: "length T \<le> length (joined T rs)"
  by (simp add: joined_def)

lemma scnlistprintf_loop_fits:
  assumes "printed T buf" "length (joined T (runs (bm_bit m) n cur rbot)) < buflen" "buflen \<le> length buf" "buflen < 2 ^ 31" "backed m n"
  shows "\<exists>buf'. scnlistprintf_loop buf buflen m n cur rbot (length T) = Some (buf', length (joined T (runs (bm_bit m) n cur rbot))) \<and>
    printed (joined T (runs (bm_bit m) n cur rbot)) buf' \<and> length buf' = length buf \<and> drop buflen buf' = drop buflen buf"
  using assms
proof (induction "bm_bit m" n cur rbot arbitrary: T buf rule: runs.induct)
  case (1 n cur rbot)
  show ?case
  proof (cases "cur < n")
    case False
    then show ?thesis using "1.prems" by (subst scnlistprintf_loop.simps) (simp add: runs_end)
  next
    case True
    define c where "c = next_from (bm_bit m) n (Suc cur)"
    have f: "find_next_bit m n (cur + 1) = Some c" using "1.prems"(5) by (simp add: find_next_bit_eq c_def)
    show ?thesis
    proof (cases "c \<ge> n \<or> c > Suc cur")
      case new: True
      define T' where "T' = emit T (rbot, cur)"
      have rs: "joined T (runs (bm_bit m) n cur rbot) = joined T' (runs (bm_bit m) n c c)"
        by (simp add: runs_new [OF True c_def new] joined_Cons T'_def)
      have "length T' < buflen" using joined_longer [of T' "runs (bm_bit m) n c c"] "1.prems"(2) unfolding rs by linarith
      then obtain b1 where b1: "bscnl_emit buf buflen rbot cur (length T) = Some (b1, length T')" "printed T' b1"
          "length b1 = length buf" "drop buflen b1 = drop buflen buf"
        using bscnl_emit_fits [OF "1.prems"(1) _ "1.prems"(3,4), of rbot cur] unfolding T'_def by blast
      obtain b2 where "scnlistprintf_loop b1 buflen m n c c (length T') = Some (b2, length (joined T' (runs (bm_bit m) n c c)))"
          "printed (joined T' (runs (bm_bit m) n c c)) b2" "length b2 = length b1" "drop buflen b2 = drop buflen b1"
        using "1.hyps"(1) [OF True c_def new b1(2)] "1.prems"(2-5) b1(3) unfolding rs by auto
      then show ?thesis unfolding rs using True f b1 new by (subst scnlistprintf_loop.simps) (simp add: Let_def)
    next
      case False
      have rs: "runs (bm_bit m) n cur rbot = runs (bm_bit m) n c rbot" by (rule runs_extend [OF True c_def False])
      show ?thesis
        using "1.hyps"(2) [OF True c_def False "1.prems"(1)] "1.prems"(2-5) True f False unfolding rs
        by (subst scnlistprintf_loop.simps) (simp add: Let_def)
    qed
  qed
qed

lemma scnlistprintf_start:
  assumes "0 < buflen" "buflen \<le> length buf" "backed m n"
  shows "bitmap_scnlistprintf buf buflen (Some m) n =
    (let c = next_from (bm_bit m) n 0 in scnlistprintf_loop (buf[0 := NUL]) buflen m n c c 0)" "printed [] (buf[0 := NUL])"
  using assms by (simp_all add: bitmap_scnlistprintf_def find_first_bit_eq wr_in Let_def printed_def length_greater_0_conv [symmetric] del: wr_eq_Some length_greater_0_conv)

lemma scnlistprintf_fits:
  assumes "backed m n" "length (list_text (runs_of m n)) < buflen" "buflen \<le> length buf" "buflen < 2 ^ 31"
  shows "\<exists>buf'. bitmap_scnlistprintf buf buflen (Some m) n = Some (buf', length (list_text (runs_of m n))) \<and>
    printed (list_text (runs_of m n)) buf' \<and> length buf' = length buf \<and> drop buflen buf' = drop buflen buf"
proof -
  have pos: "0 < buflen" using assms(2) by simp
  note s = scnlistprintf_start [OF pos assms(3,1)]
  show ?thesis
    using scnlistprintf_loop_fits [OF s(2), of m n "next_from (bm_bit m) n 0" "next_from (bm_bit m) n 0" buflen] assms pos
    unfolding s(1) Let_def runs_of_def joined_start by simp
qed

section \<open>Overflow\<close>

lemma bscnl_emit_length:
  assumes "bscnl_emit buf buflen rbot rtop (length T) = Some (buf', len')"
  shows "length buf' = length buf" "len' = length (emit T (rbot, rtop))"
  using assms by (auto simp: bscnl_emit_text emit_def add_len_def bind_eq_Some_conv dest!: snprintf_length split: if_splits simp del: range_text.simps)

lemma bscnl_emit_beyond:
  assumes "length buf = buflen" "buflen \<le> length T" "0 < buflen" "length T < 2 ^ 63"
  shows "bscnl_emit buf buflen rbot rtop (length T) = None"
proof -
  have nz: "(int buflen - int k) mod 2 ^ 64 \<noteq> 0" if "buflen < k" "k \<le> 2 ^ 63" for k
  proof -
    have "(int buflen - int k) mod 2 ^ 64 = (int buflen - int k + 2 ^ 64) mod 2 ^ 64" by simp
    also have "\<dots> = int buflen - int k + 2 ^ 64" using that assms by (intro mod_pos_pos_trivial) simp_all
    finally show ?thesis using that by simp
  qed
  have snd: "snprintf b (length T + 1) (int buflen - int (length T + 1)) s = None" if "length b = buflen" for b s
    using snprintf_beyond [of b "length T + 1"] nz [of "length T + 1"] that assms(2,4) by simp
  have "0 < length T" using assms by linarith
  then show ?thesis
  proof (cases "snprintf buf (length T) (int buflen - int (length T)) '',''")
    case (Some p)
    then show ?thesis
      using snprintf_length [of buf "length T" _ "'',''" "fst p" "snd p"] snd [of "fst p"] \<open>0 < length T\<close> assms(1)
      by (cases "add_len (length T) 1") (simp_all add: bscnl_emit_text case_prod_unfold add_len_def split: if_splits del: range_text.simps)
  qed (simp add: bscnl_emit_text)
qed

lemma scnlistprintf_loop_overflow:
  assumes "length buf = buflen" "0 < buflen" "backed m n" "runs (bm_bit m) n cur rbot \<noteq> []"
    and "buflen \<le> length (joined T (butlast (runs (bm_bit m) n cur rbot)))" "length (joined T (runs (bm_bit m) n cur rbot)) < 2 ^ 63"
  shows "scnlistprintf_loop buf buflen m n cur rbot (length T) = None"
  using assms
proof (induction "bm_bit m" n cur rbot arbitrary: T buf rule: runs.induct)
  case (1 n cur rbot)
  have True: "cur < n" using "1.prems"(4) runs_end by blast
  define c where "c = next_from (bm_bit m) n (Suc cur)"
  have f: "find_next_bit m n (cur + 1) = Some c" using "1.prems"(3) by (simp add: find_next_bit_eq c_def)
  show ?case
  proof (cases "c \<ge> n \<or> c > Suc cur")
    case new: True
    define T' where "T' = emit T (rbot, cur)"
    define rs where "rs = runs (bm_bit m) n c c"
    have eq: "runs (bm_bit m) n cur rbot = (rbot, cur) # rs" by (simp add: runs_new [OF True c_def new] rs_def)
    have big: "length (joined T' rs) < 2 ^ 63" using "1.prems"(6) by (simp add: eq joined_Cons T'_def)
    have step: "scnlistprintf_loop buf buflen m n cur rbot (length T) = do {
        (buf, len) \<leftarrow> bscnl_emit buf buflen rbot cur (length T); scnlistprintf_loop buf buflen m n c c len }"
      using True f new by (subst scnlistprintf_loop.simps) (simp add: Let_def)
    show ?thesis
    proof (cases "rs = []")
      case nil: True
      then have "buflen \<le> length T" using "1.prems"(5) by (simp add: eq)
      moreover have "length T < 2 ^ 63" using joined_longer [of T "(rbot, cur) # rs"] "1.prems"(6) unfolding eq by linarith
      ultimately show ?thesis unfolding step using bscnl_emit_beyond [of buf buflen T rbot cur] "1.prems"(1,2) by simp
    next
      case ne: False
      have over: "buflen \<le> length (joined T' (butlast rs))"
        using "1.prems"(5) ne by (simp add: eq joined_Cons T'_def)
      show ?thesis
      proof (cases "bscnl_emit buf buflen rbot cur (length T)")
        case None
        then show ?thesis by (simp add: step)
      next
        case (Some p)
        obtain b1 len' where p: "p = (b1, len')" by (cases p)
        have b1: "length b1 = buflen" "len' = length T'"
          using bscnl_emit_length [OF Some [unfolded p]] "1.prems"(1) by (simp_all add: T'_def)
        have "scnlistprintf_loop b1 buflen m n c c (length T') = None"
          using "1.hyps"(1) [OF True c_def new b1(1) "1.prems"(2,3)] ne over big by (simp add: rs_def)
        then show ?thesis by (simp add: step Some p b1(2))
      qed
    qed
  next
    case False
    have rs: "runs (bm_bit m) n cur rbot = runs (bm_bit m) n c rbot" by (rule runs_extend [OF True c_def False])
    show ?thesis
      using "1.hyps"(2) [OF True c_def False "1.prems"(1-3)] "1.prems"(4-6) True f False unfolding rs
      by (subst scnlistprintf_loop.simps) (simp add: Let_def)
  qed
qed

lemma list_text_butlast: "length (list_text (butlast rs)) \<le> length (list_text rs)"
  by (induction rs rule: list_text.induct) (simp_all add: list_text_Cons)

lemma scnlistprintf_overflow:
  assumes "backed m n" "n \<le> 1024" "length buf = buflen" "0 < buflen" "buflen \<le> length (list_text (butlast (runs_of m n)))"
  shows "bitmap_scnlistprintf buf buflen (Some m) n = None"
proof -
  let ?c = "next_from (bm_bit m) n 0"
  have ne: "runs_of m n \<noteq> []" using assms(4,5) by auto
  have "scnlistprintf_loop (buf[0 := NUL]) buflen m n ?c ?c (length []) = None"
    using scnlistprintf_loop_overflow [where buf = "buf[0 := NUL]" and buflen = buflen and m = m and n = n and cur = ?c and rbot = ?c and T = "[]"] assms ne runs_of_length [OF assms(2), where m = m]
    unfolding runs_of_def joined_start by simp
  then show ?thesis using scnlistprintf_start(1) [OF assms(4) _ assms(1), of buf] assms(3) by (simp add: Let_def)
qed

section \<open>Round trip\<close>

text \<open>The text of the empty set is empty, and the parser reads it like \<^verbatim>\<open>0\<close>.\<close>

lemma parselist_scnlistprintf:
  assumes "backed m n" "backed m0 n" "0 < n" "n < 2 ^ 31"
    and "length (list_text (runs_of m n)) < buflen" "buflen \<le> length buf" "buflen < 2 ^ 31"
  shows "\<exists>buf' len m'. bitmap_scnlistprintf buf buflen (Some m) n = Some (buf', len) \<and>
    bitmap_parselist (take len buf') m0 n = Some (0, m') \<and> bm_set m' n = (if bm_set m n = {} then {0} else bm_set m n)"
proof -
  let ?t = "list_text (runs_of m n)" and ?items = "if runs_of m n = [] then [(0, 0)] else runs_of m n"
  obtain buf' where b: "bitmap_scnlistprintf buf buflen (Some m) n = Some (buf', length ?t)" "printed ?t buf'"
    using scnlistprintf_fits [OF assms(1,5-7)] by blast
  have "ranges_ok ?items n" using runs_of_facts(1) [of m n] assms(3) by (simp add: ranges_ok_def)
  then have ok: "map read_range ?items = ?items" "list_error n ?items = 0" using read_ranges_ok [of ?items n] assms(4) by simp_all
  obtain m' where m': "bitmap_parselist (?t @ []) m0 n = Some (0, m')" "bm_set m' n = ranges_set ?items"
    using bitmap_parselist_list [OF assms(2) _ refl, of "[]" "runs_of m n"] unfolding ok by auto
  have "ranges_set ?items = (if bm_set m n = {} then {0} else bm_set m n)"
    using runs_of_facts(2) [of m n] runs_of_empty [of m n] by (auto simp: ranges_set_def)
  then show ?thesis using b m' by (auto simp: printed_def)
qed

end
