(* ===== verification/Bitmap_Hex.thy ===== *)
theory Bitmap_Hex
  imports Scnlistprintf
begin

text \<open>
  The hexadecimal format for bitmaps, 32-bit chunks separated by commas: \<^verbatim>\<open>hex_to_bin()\<close>,
  \<^verbatim>\<open>bitmap_scnprintf()\<close>, \<^verbatim>\<open>__bitmap_parse()\<close> and the wrappers \<^verbatim>\<open>bitmap_parse()\<close>,
  \<^verbatim>\<open>bitmap_parse_user()\<close> and \<^verbatim>\<open>bitmap_parselist_user()\<close> of \<^verbatim>\<open>bitmap.c\<close> and \<^verbatim>\<open>bitmap.h\<close>.
  The printer computes the number of chunks in \<^verbatim>\<open>int\<close>, the model in 64 bits: the two differ only for sizes
  above \<open>2 ^ 31 - 32\<close>, where the C sum overflows. The bitmap is the value of the whole number: the parser fails exactly when the number or one of its
  chunks does not fit, and what the printer writes is parsed back to the same bitmap.
\<close>

section \<open>Characters\<close>

definition tolower :: "nat \<Rightarrow> nat" where
  "tolower ch = (if 65 \<le> ch \<and> ch \<le> 90 then ch + 32 else ch)"

definition isxdigit :: "char \<Rightarrow> bool" where
  "isxdigit c \<longleftrightarrow> isdigit c \<or> 65 \<le> code c \<and> code c \<le> 70 \<or> 97 \<le> code c \<and> code c \<le> 102"

definition hex_to_bin :: "char \<Rightarrow> int" where
  "hex_to_bin c =
     (if 48 \<le> code c \<and> code c \<le> 57 then int (code c) - 48
      else let ch = tolower (code c) in
        if 97 \<le> ch \<and> ch \<le> 102 then int ch - 97 + 10 else -1)"

section \<open>Parsing\<close>

text \<open>One chunk: the loop over the characters up to a comma or the end.\<close>

fun parse_chunk ::
  "string \<Rightarrow> nat \<Rightarrow> char \<Rightarrow> nat \<Rightarrow> nat \<Rightarrow> u32 \<Rightarrow> (int + string \<times> nat \<times> char \<times> nat \<times> nat \<times> u32) option" where
  "parse_chunk buf 0 c totaldigits ndigits chunk = Some (Inr (buf, 0, c, totaldigits, ndigits, chunk))"
| "parse_chunk [] (Suc buflen) c totaldigits ndigits chunk = None"
| "parse_chunk (ch # buf) (Suc buflen) old_c totaldigits ndigits chunk =
     (if isspace ch then parse_chunk buf buflen ch totaldigits ndigits chunk
      else if totaldigits \<noteq> 0 \<and> ch \<noteq> NUL \<and> isspace old_c then Some (Inl (- EINVAL))
      else if ch = NUL \<or> ch = CHR '','' then Some (Inr (buf, buflen, ch, totaldigits, ndigits, chunk))
      else if \<not> isxdigit ch then Some (Inl (- EINVAL))
      else if chunk AND NOT (push_bit 28 1 - 1) \<noteq> 0 then Some (Inl (- EOVERFLOW))
      else parse_chunk buf buflen ch (totaldigits + 1) (ndigits + 1) (push_bit 4 chunk OR word_of_int (hex_to_bin ch)))"

lemma parse_chunk_buflen:
  "parse_chunk buf n c td nd ch = Some (Inr (buf', n', c', td', nd', ch')) \<Longrightarrow> n' \<le> n \<and> (n \<noteq> 0 \<longrightarrow> n' < n)"
proof (induction buf n c td nd ch rule: parse_chunk.induct)
  case (3 ch buf n old_c td nd chunk)
  show ?case
    using "3.prems" "3.IH" by (cases "n = 0") (auto split: if_split_asm)
qed simp_all

text \<open>The chunks, and the bitmap they are shifted into.\<close>

function parse_loop ::
  "string \<Rightarrow> nat \<Rightarrow> char \<Rightarrow> nat \<Rightarrow> nat \<Rightarrow> int \<Rightarrow> ulong list \<Rightarrow> nat \<Rightarrow> (int \<times> ulong list) option" where
  "parse_loop buf buflen c totaldigits nchunks nbits maskp nmaskbits = do {
     r \<leftarrow> parse_chunk buf buflen c totaldigits 0 0;
     (case r of
        Inl e \<Rightarrow> Some (e, maskp)
      | Inr (buf', buflen', c', totaldigits', ndigits, chunk) \<Rightarrow>
          if ndigits = 0 then Some (- EINVAL, maskp)
          else if nchunks = 0 \<and> chunk = 0 then
            (if buflen' \<noteq> 0 \<and> c' = CHR '','' then parse_loop buf' buflen' c' totaldigits' nchunks nbits maskp nmaskbits
             else Some (0, maskp))
          else do {
            maskp1 \<leftarrow> bitmap_shift_left' maskp Dst 32 nmaskbits;
            w \<leftarrow> rd maskp1 0;
            maskp2 \<leftarrow> wr maskp1 0 (w OR ucast chunk);
            (let nchunks' = nchunks + 1; nbits' = nbits + (if nchunks' = 1 then fls_x86 chunk else 32) in
             if nbits' > int nmaskbits then Some (- EOVERFLOW, maskp2)
             else if buflen' \<noteq> 0 \<and> c' = CHR '',''
             then parse_loop buf' buflen' c' totaldigits' nchunks' nbits' maskp2 nmaskbits
             else Some (0, maskp2)) }) }"
  by pat_completeness auto
termination
  by (relation "measure (\<lambda>(buf, buflen, c, td, nch, nb, m, n). buflen)") (auto dest!: parse_chunk_buflen)

declare parse_loop.simps [simp del]

definition bitmap_parse' :: "string \<Rightarrow> nat \<Rightarrow> ulong list \<Rightarrow> nat \<Rightarrow> (int \<times> ulong list) option" where
  "bitmap_parse' buf buflen maskp nmaskbits = do {
     maskp \<leftarrow> bitmap_zero False maskp nmaskbits;
     parse_loop buf buflen NUL 0 0 0 maskp nmaskbits }"

definition bitmap_parse :: "string \<Rightarrow> nat \<Rightarrow> ulong list \<Rightarrow> nat \<Rightarrow> (int \<times> ulong list) option" where
  "bitmap_parse buf buflen maskp nmaskbits = bitmap_parse' buf buflen maskp nmaskbits"

definition bitmap_parse_user :: "string \<Rightarrow> nat \<Rightarrow> ulong list \<Rightarrow> nat \<Rightarrow> (int \<times> ulong list) option" where
  "bitmap_parse_user ubuf ulen maskp nmaskbits = bitmap_parse' ubuf ulen maskp nmaskbits"

definition bitmap_parselist_user :: "string \<Rightarrow> nat \<Rightarrow> ulong list \<Rightarrow> nat \<Rightarrow> (int \<times> ulong list) option" where
  "bitmap_parselist_user ubuf ulen maskp nmaskbits = bitmap_parselist' ubuf ulen maskp nmaskbits"

section \<open>Printing\<close>

text \<open>\<open>%lx\<close> and \<open>%0*lx\<close>.\<close>

definition xdigit :: "nat \<Rightarrow> char" where
  "xdigit d = char_of (if d < 10 then 48 + d else 87 + d)"

fun hex :: "nat \<Rightarrow> string" where
  "hex n = (if n < 16 then [xdigit n] else hex (n div 16) @ [xdigit (n mod 16)])"

declare hex.simps [simp del]

definition padhex :: "nat \<Rightarrow> nat \<Rightarrow> string" where
  "padhex w n = replicate (w - length (hex n)) CHR ''0'' @ hex n"

fun scnprintf_loop ::
  "nat \<Rightarrow> string \<Rightarrow> nat \<Rightarrow> ulong list \<Rightarrow> nat \<Rightarrow> string \<Rightarrow> nat \<Rightarrow> (string \<times> nat) option" where
  "scnprintf_loop 0 buf buflen maskp chunksz sep len = Some (buf, len)"
| "scnprintf_loop (Suc k) buf buflen maskp chunksz sep len = do {
     let i = 32 * k;
     let chunkmask = push_bit chunksz (1 :: ulong) - 1;
     let word = i div 64;
     let b = i mod 64;
     w \<leftarrow> rd maskp word;
     let val = drop_bit b w AND chunkmask;
     (buf, n) \<leftarrow> snprintf buf len (int buflen - int len) (sep @ padhex ((chunksz + 3) div 4) (unat val));
     scnprintf_loop k buf buflen maskp 32 '','' (len + n) }"

definition bitmap_scnprintf :: "string \<Rightarrow> nat \<Rightarrow> ulong list option \<Rightarrow> nat \<Rightarrow> (string \<times> nat) option" where
  "bitmap_scnprintf buf buflen maskp nmaskbits =
     (if buflen = 0 then Some (buf, 0)
      else do {
        buf \<leftarrow> wr buf 0 NUL;
        (case maskp of
           None \<Rightarrow> Some (buf, 1)
         | Some maskp \<Rightarrow>
             (let chunksz = nmaskbits mod 32; chunksz = (if chunksz = 0 then 32 else chunksz) in
              scnprintf_loop (unat (ALIGN_MASK (of_nat nmaskbits) 31) div 32) buf buflen maskp chunksz '''' 0)) })"

section \<open>The value of a chunk\<close>

definition hexval :: "nat \<Rightarrow> string \<Rightarrow> nat" where
  "hexval v ds = foldl (\<lambda>v c. v * 16 + nat (hex_to_bin c)) v ds"

lemma hexval_Cons [simp]: "hexval v (c # ds) = hexval (v * 16 + nat (hex_to_bin c)) ds"
  and hexval_Nil [simp]: "hexval v [] = v"
  by (simp_all add: hexval_def)

lemma hexval_append: "hexval v (ds @ es) = hexval (hexval v ds) es"
  by (simp add: hexval_def)

lemma hexval_mono: "v \<le> hexval v ds"
proof (induction ds arbitrary: v)
  case (Cons c ds)
  have "v \<le> v * 16 + nat (hex_to_bin c)" by simp
  also have "\<dots> \<le> hexval (v * 16 + nat (hex_to_bin c)) ds" by (rule Cons)
  finally show ?case by simp
qed simp

lemma hex_digit_bound: "isxdigit c \<Longrightarrow> 0 \<le> hex_to_bin c \<and> hex_to_bin c < 16"
  by (auto simp: isxdigit_def hex_to_bin_def isdigit_def tolower_def Let_def)

lemma isxdigit_not: "isxdigit c \<Longrightarrow> \<not> isspace c \<and> c \<noteq> NUL \<and> c \<noteq> CHR '',''"
  by (auto simp: isxdigit_def isdigit_def isspace_def code_eq_iff)

lemma chunk_room: "(c AND NOT (push_bit 28 1 - 1) \<noteq> (0::u32)) \<longleftrightarrow> \<not> unat c < 2 ^ 28"
proof -
  have m: "push_bit 28 1 - 1 = (mask 28 :: u32)" by (simp add: mask_eq_exp_minus_1)
  have "c AND NOT (mask 28) = 0 \<longleftrightarrow> take_bit 28 c = c"
    unfolding bit_eq_iff by (auto simp: bit_and_iff bit_not_iff bit_mask_iff bit_take_bit_iff dest: bit_imp_le_length)
  also have "\<dots> \<longleftrightarrow> unat (take_bit 28 c) = unat c" by (simp only: word_unat_eq_iff)
  also have "\<dots> \<longleftrightarrow> unat c < 2 ^ 28"
    unfolding unsigned_take_bit_eq take_bit_nat_eq_self_iff ..
  finally show ?thesis unfolding m by blast
qed

lemma chunk_step:
  assumes "v < 2 ^ 28" "0 \<le> d" "d < 16"
  shows "push_bit 4 (word_of_nat v) OR word_of_int d = (word_of_nat (v * 16 + nat d) :: u32)"
proof -
  have "v * 16 + nat d = push_bit 4 v + nat d" by (simp add: push_bit_eq_mult)
  also have "\<dots> = push_bit 4 v OR nat d"
  proof (rule disjunctive_add)
    fix i
    have "nat d < 2 ^ 4" using assms by simp
    then have "bit (nat d) i \<Longrightarrow> i < 4"
      by (metis bit_take_bit_iff take_bit_nat_eq_self)
    then show "\<not> bit (push_bit 4 v) i \<or> \<not> bit (nat d) i" by (auto simp: bit_push_bit_iff)
  qed
  finally have e: "v * 16 + nat d = push_bit 4 v OR nat d" .
  have "word_of_int d = (word_of_nat (nat d) :: u32)" using assms by simp
  then show ?thesis unfolding e by (simp only: of_nat_or_eq of_nat_push_bit)
qed

lemma chunk_digits:
  assumes "list_all isxdigit ds" "td = 0 \<or> \<not> isspace c" "v < 2 ^ 32"
  shows "parse_chunk (ds @ buf) (length ds + n) c td nd (word_of_nat v) =
    (if hexval v ds < 2 ^ 32 then parse_chunk buf n (if ds = [] then c else last ds) (td + length ds) (nd + length ds) (word_of_nat (hexval v ds))
     else Some (Inl (- EOVERFLOW)))"
  using assms
proof (induction ds arbitrary: c td nd v)
  case (Cons ch ds)
  have ch: "isxdigit ch" "\<not> isspace ch" "ch \<noteq> NUL" "ch \<noteq> CHR '',''" using Cons.prems(1) isxdigit_not by auto
  have u: "unat (word_of_nat v :: u32) = v" using Cons.prems(3) by (simp add: unat_of_nat)
  define v' where "v' = v * 16 + nat (hex_to_bin ch)"
  have step: "parse_chunk ((ch # ds) @ buf) (length (ch # ds) + n) c td nd (word_of_nat v) =
      (if \<not> v < 2 ^ 28 then Some (Inl (- EOVERFLOW))
       else parse_chunk (ds @ buf) (length ds + n) ch (td + 1) (nd + 1) (push_bit 4 (word_of_nat v) OR word_of_int (hex_to_bin ch)))"
    using ch Cons.prems(2) chunk_room [of "word_of_nat v"] unfolding u by auto
  show ?case
  proof (cases "v < 2 ^ 28")
    case False
    then have "\<not> v' < 2 ^ 32" by (simp add: v'_def)
    then have "\<not> hexval v' ds < 2 ^ 32" using hexval_mono [of v' ds] by linarith
    then show ?thesis unfolding step using False by (simp add: v'_def)
  next
    case True
    moreover have "nat (hex_to_bin ch) < 16" using hex_digit_bound [OF ch(1)] by (simp add: nat_less_iff)
    ultimately have "v' < 2 ^ 32" by (simp add: v'_def)
    from Cons.IH [OF _ _ this, of "td + 1" ch "nd + 1"] show ?thesis
      unfolding step using True ch Cons.prems(1) chunk_step [OF True] hex_digit_bound [OF ch(1)] by (simp add: v'_def)
  qed
qed simp

section \<open>The text of a list of chunks\<close>

fun comma_text :: "string list \<Rightarrow> string" where
  "comma_text [] = []"
| "comma_text [d] = d"
| "comma_text (d # d' # ds) = d @ '','' @ comma_text (d' # ds)"

definition number :: "nat \<Rightarrow> string list \<Rightarrow> nat" where
  "number V dss = foldl (\<lambda>V ds. V * 2 ^ 32 + hexval 0 ds) V dss"

lemma number_Cons [simp]: "number V (ds # dss) = number (V * 2 ^ 32 + hexval 0 ds) dss"
  and number_Nil [simp]: "number V [] = V"
  by (simp_all add: number_def)

lemma number_mono: "V \<le> number V dss"
proof (induction dss arbitrary: V)
  case (Cons ds dss)
  have "V \<le> V * 2 ^ 32 + hexval 0 ds" by simp
  also have "\<dots> \<le> number (V * 2 ^ 32 + hexval 0 ds) dss" by (rule Cons)
  finally show ?case by simp
qed simp

text \<open>After the last chunk the buffer ends, or there is white space and a NUL.\<close>

definition terminated :: "string \<Rightarrow> nat \<Rightarrow> bool" where
  "terminated tail e \<longleftrightarrow> e = 0 \<or> (\<exists>ws tl. tail = ws @ NUL # tl \<and> list_all isspace ws \<and> length ws < e)"

lemma chunk_blanks:
  assumes "list_all isspace ws" "length ws < e"
  shows "\<exists>tail' e' c'. parse_chunk (ws @ NUL # rest) e c td nd ch = Some (Inr (tail', e', c', td, nd, ch)) \<and> (e' = 0 \<or> c' \<noteq> CHR '','')"
  using assms
proof (induction ws arbitrary: e c)
  case Nil
  have "NUL \<noteq> CHR '',''" by (simp add: code_eq_iff)
  then show ?case using Nil by (cases e) (simp_all add: isspace_def)
next
  case (Cons w ws)
  then show ?case by (cases e) simp_all
qed

lemma chunk_end:
  assumes "terminated tail e"
  shows "\<exists>tail' e' c'. parse_chunk tail e c td nd ch = Some (Inr (tail', e', c', td, nd, ch)) \<and> (e' = 0 \<or> c' \<noteq> CHR '','')"
  using assms chunk_blanks unfolding terminated_def by auto

lemma chunk_last:
  assumes "list_all isxdigit ds" "\<not> isspace c" "terminated tail e"
  shows "if hexval 0 ds < 2 ^ 32
    then \<exists>tail' e' c'. parse_chunk (ds @ tail) (length ds + e) c td 0 0 =
      Some (Inr (tail', e', c', td + length ds, length ds, word_of_nat (hexval 0 ds))) \<and> (e' = 0 \<or> c' \<noteq> CHR '','')
    else parse_chunk (ds @ tail) (length ds + e) c td 0 0 = Some (Inl (- EOVERFLOW))"
  using chunk_digits [of ds td c 0 tail e 0] assms chunk_end [OF assms(3), of "if ds = [] then c else last ds" "td + length ds" "length ds" "word_of_nat (hexval 0 ds)"]
  by simp

lemma chunk_comma:
  assumes "list_all isxdigit ds" "\<not> isspace c"
  shows "parse_chunk (ds @ CHR '','' # buf) (length ds + Suc n) c td 0 0 =
    (if hexval 0 ds < 2 ^ 32 then Some (Inr (buf, n, CHR '','', td + length ds, length ds, word_of_nat (hexval 0 ds)))
     else Some (Inl (- EOVERFLOW)))"
proof -
  define c' where "c' = (if ds = [] then c else last ds)"
  have "\<not> isspace c'"
  proof (cases "ds = []")
    case False
    then have "isxdigit (last ds)" using assms(1) last_in_set by (auto simp: list_all_iff)
    then show ?thesis using isxdigit_not False by (simp add: c'_def)
  qed (use assms in \<open>simp add: c'_def\<close>)
  moreover have "\<not> isspace CHR '',''" by (simp add: isspace_def)
  ultimately show ?thesis
    using chunk_digits [of ds td c 0 "CHR '','' # buf" "Suc n" 0, folded c'_def] assms by simp
qed

section \<open>The loop over the chunks\<close>

definition top_bits :: "nat \<Rightarrow> nat \<Rightarrow> nat \<Rightarrow> bool" where
  "top_bits V nchunks nb \<longleftrightarrow> (if nchunks = 0 then V = 0 \<and> nb = 0 else 0 < nb \<and> 2 ^ (nb - 1) \<le> V \<and> V < 2 ^ nb)"

lemma fls_bits:
  assumes "0 < v" "v < 2 ^ 32"
  shows "\<exists>nb. fls_x86 (word_of_nat v) = int nb \<and> 0 < nb \<and> 2 ^ (nb - 1) \<le> v \<and> v < 2 ^ nb"
proof -
  let ?w = "word_of_nat v :: u32"
  have u: "unat ?w = v" using assms(2) by (simp add: unat_of_nat)
  then have "?w \<noteq> 0" using assms(1) by auto
  then obtain i where i: "bit ?w i" "\<forall>j > i. \<not> bit ?w j" "fls_x86 ?w = int i + 1"
    using fls_arm_top fls_arm_eq_x86 by metis
  have b: "bit v j \<longleftrightarrow> bit ?w j" for j using u by (metis bit_unsigned_iff bit_imp_le_length of_nat_unat possible_bit_nat unsigned_of_nat)
  have "j < i + 1" if "bit v j" for j using that b [of j] i(2) not_less_eq by auto
  then have "take_bit (i + 1) v = v" by (auto simp: bit_eq_iff bit_take_bit_iff)
  then have "v < 2 ^ (i + 1)" by (simp add: take_bit_nat_eq_self_iff del: power_Suc)
  moreover have "2 ^ i \<le> v" using i(1) b by (metis bit_iff_odd div_less even_zero not_le)
  ultimately show ?thesis using i(3) by (intro exI [of _ "i + 1"]) simp
qed

lemma top_bits_step:
  assumes "top_bits V nchunks nb" "c < 2 ^ 32" "\<not> (nchunks = 0 \<and> c = 0)"
  shows "\<exists>nb'. int nb + (if nchunks + 1 = 1 then fls_x86 (word_of_nat c) else 32) = int nb' \<and> top_bits (V * 2 ^ 32 + c) (nchunks + 1) nb'"
proof (cases "nchunks = 0")
  case True
  then obtain nb' where "fls_x86 (word_of_nat c) = int nb'" "0 < nb' \<and> 2 ^ (nb' - 1) \<le> c \<and> c < 2 ^ nb'"
    using fls_bits [of c] assms(2,3) by auto
  then show ?thesis using True assms(1) by (auto simp: top_bits_def)
next
  case False
  then have nb: "0 < nb" "2 ^ (nb - 1) \<le> V" "V < 2 ^ nb" using assms(1) by (simp_all add: top_bits_def)
  have "nb + 32 - 1 = (nb - 1) + 32" using nb(1) by simp
  then have "2 ^ (nb + 32 - 1) = 2 ^ (nb - 1) * (2 ^ 32 :: nat)" by (simp only: power_add)
  also have "\<dots> \<le> V * 2 ^ 32" using nb(2) by simp
  also have "\<dots> \<le> V * 2 ^ 32 + c" by simp
  finally have lo: "2 ^ (nb + 32 - 1) \<le> V * 2 ^ 32 + c" .
  have "V * 2 ^ 32 + c < (V + 1) * 2 ^ 32" using assms(2) by simp
  also have "\<dots> \<le> 2 ^ nb * 2 ^ 32" using nb(3) by (intro mult_le_mono1) simp
  finally have "V * 2 ^ 32 + c < 2 ^ (nb + 32)" by (simp only: power_add)
  then show ?thesis using lo False by (intro exI [of _ "nb + 32"]) (simp add: top_bits_def)
qed

lemma top_bits_fits:
  assumes "top_bits V nchunks nb" "0 < nchunks"
  shows "int nb > int n \<longleftrightarrow> \<not> V < 2 ^ n"
proof -
  have nb: "0 < nb" "2 ^ (nb - 1) \<le> V" "V < 2 ^ nb" using assms by (simp_all add: top_bits_def)
  show ?thesis
  proof
    assume "int nb > int n"
    then have "(2::nat) ^ n \<le> 2 ^ (nb - 1)" using nb(1) by (intro power_increasing) simp_all
    then show "\<not> V < 2 ^ n" using nb(2) by linarith
  next
    assume "\<not> V < 2 ^ n"
    then have "(2::nat) ^ n < 2 ^ nb" using nb(3) by linarith
    then show "int nb > int n" by (simp add: power_strict_increasing_iff)
  qed
qed


text \<open>The bitmap holds the bits of the number read so far.\<close>

definition holds :: "ulong list \<Rightarrow> nat \<Rightarrow> nat \<Rightarrow> bool" where
  "holds m n V \<longleftrightarrow> n \<le> 64 * length m \<and> (\<forall>i < 64 * BITS_TO_LONGS n. bm_bit m i \<longleftrightarrow> bit V i)"

lemma bit_append:
  assumes "c < 2 ^ 32"
  shows "bit (V * 2 ^ 32 + c) i \<longleftrightarrow> (if i < 32 then bit c i else bit (V :: nat) (i - 32))"
proof -
  have lt: "bit c j \<Longrightarrow> j < 32" for j
    using assms by (metis bit_take_bit_iff take_bit_nat_eq_self)
  have "V * 2 ^ 32 + c = push_bit 32 V + c" by (simp add: push_bit_eq_mult)
  also have "\<dots> = push_bit 32 V OR c"
    by (rule disjunctive_add) (auto simp: bit_push_bit_iff dest: lt)
  finally show ?thesis using lt [of i] by (auto simp: bit_or_iff bit_push_bit_iff)
qed

lemma bit_below: "(V :: nat) < 2 ^ n \<Longrightarrow> bit V i \<Longrightarrow> i < n"
  by (metis bit_take_bit_iff take_bit_nat_eq_self)

lemma parse_step:
  assumes "holds m n V" "c < 2 ^ 32" "0 < n"
  shows "\<exists>m1 m2. bitmap_shift_left' m Dst 32 n = Some m1 \<and> rd m1 0 = Some (m1 ! 0) \<and>
    wr m1 0 (m1 ! 0 OR ucast (word_of_nat c :: u32)) = Some m2 \<and> length m2 = length m \<and>
    (V * 2 ^ 32 + c < 2 ^ n \<longrightarrow> holds m2 n (V * 2 ^ 32 + c))"
proof -
  let ?lim = "BITS_TO_LONGS n"
  have m: "backed m n" "\<forall>i < 64 * ?lim. bm_bit m i \<longleftrightarrow> bit V i" using assms(1) by (simp_all add: holds_def)
  have len: "0 < length m" using m(1) assms(3) by linarith
  obtain m1 where m1: "bitmap_shift_left' m Dst 32 n = Some m1" "length m1 = length m"
      "\<forall>i < 64 * ?lim. bm_bit m1 i \<longleftrightarrow> i < n \<and> 32 \<le> i \<and> bm_bit m (i - 32)"
    using bitmap_shift_left_eq [where dst = m and bits = n and s = Dst and shift = 32] m(1) by auto
  define m2 where "m2 = m1[0 := m1 ! 0 OR ucast (word_of_nat c :: u32)]"
  have u: "unat (word_of_nat c :: u32) = c" using assms(2) by (simp add: unat_of_nat)
  have cbit: "bit (ucast (word_of_nat c :: u32) :: ulong) j \<longleftrightarrow> bit c j" for j
  proof -
    have "bit (ucast (word_of_nat c :: u32) :: ulong) j \<longleftrightarrow> bit (word_of_nat c :: u32) j"
      by (auto simp: bit_ucast_iff dest: bit_imp_le_length)
    also have "\<dots> \<longleftrightarrow> bit c j"
      using bit_below [OF assms(2), of j] bit_unsigned_iff [where w = "word_of_nat c :: u32" and n = j, where 'a = nat] bit_imp_le_length [of "word_of_nat c :: u32" j]
      unfolding u by auto
    finally show ?thesis .
  qed
  have "bm_bit m2 i \<longleftrightarrow> bit (V * 2 ^ 32 + c) i" if "V * 2 ^ 32 + c < 2 ^ n" "i < 64 * ?lim" for i
  proof -
    have "bm_bit m2 i \<longleftrightarrow> bm_bit m1 i \<or> bit c i"
    proof -
      have "0 < length m1" using len m1(2) by simp
      then have "bm_bit m2 i \<longleftrightarrow> (if i div 64 = 0 then bm_bit m1 i \<or> bit c (i mod 64) else bm_bit m1 i)"
        unfolding m2_def by (simp add: bm_bit_update bit_or_iff cbit) (simp add: bm_bit_def)
      then show ?thesis using bit_below [OF assms(2), of i] by (cases "i < 64") auto
    qed
    also have "bm_bit m1 i \<longleftrightarrow> i < n \<and> 32 \<le> i \<and> bit V (i - 32)" using m1(3) m(2) that(2) by auto
    also have "i < n \<and> 32 \<le> i \<and> bit V (i - 32) \<or> bit c i \<longleftrightarrow> bit (V * 2 ^ 32 + c) i"
      using bit_below [OF that(1), of i] bit_below [OF assms(2), of i] 
      unfolding bit_append [OF assms(2)] by (auto split: if_splits)
    finally show ?thesis .
  qed
  then have "V * 2 ^ 32 + c < 2 ^ n \<longrightarrow> holds m2 n (V * 2 ^ 32 + c)"
    using m(1) m1(2) by (auto simp: holds_def m2_def)
  then show ?thesis using m1 len by (intro exI [of _ m1] exI [of _ m2]) (simp add: m2_def rd_in wr_in del: rd_eq_Some wr_eq_Some)
qed


lemma parse_loop_unfold:
  "parse_chunk buf buflen c td 0 0 = Some (Inr (buf', buflen', c', td', nd, word_of_nat v)) \<Longrightarrow> v < 2 ^ 32 \<Longrightarrow> nd \<noteq> 0 \<Longrightarrow>
   holds m n V \<Longrightarrow> 0 < n \<Longrightarrow> top_bits V nchunks nb \<Longrightarrow> V < 2 ^ n \<Longrightarrow>
   \<exists>nchunks' nb' m'. length m' = length m \<and> top_bits (V * 2 ^ 32 + v) nchunks' nb' \<and>
     (V * 2 ^ 32 + v < 2 ^ n \<longrightarrow> holds m' n (V * 2 ^ 32 + v)) \<and>
     parse_loop buf buflen c td nchunks (int nb) m n =
       (if \<not> V * 2 ^ 32 + v < 2 ^ n then Some (- EOVERFLOW, m')
        else if buflen' \<noteq> 0 \<and> c' = CHR '','' then parse_loop buf' buflen' c' td' nchunks' (int nb') m' n
        else Some (0, m'))"
  (is "?ch \<Longrightarrow> ?v \<Longrightarrow> ?nd \<Longrightarrow> ?holds \<Longrightarrow> ?n \<Longrightarrow> ?top \<Longrightarrow> ?fits \<Longrightarrow> _")
proof -
  assume ch: ?ch and v: ?v and nd: ?nd and h: ?holds and n: ?n and top: ?top and fits: ?fits
  have u: "unat (word_of_nat v :: u32) = v" using v by (simp add: unat_of_nat)
  have z: "(word_of_nat v :: u32) = 0 \<longleftrightarrow> v = 0" using u by (metis unat_eq_zero)
  show ?thesis
  proof (cases "nchunks = 0 \<and> v = 0")
    case True
    then have V: "V = 0" "nb = 0" using top by (simp_all add: top_bits_def)
    have "parse_loop buf buflen c td nchunks (int nb) m n =
      (if buflen' \<noteq> 0 \<and> c' = CHR '','' then parse_loop buf' buflen' c' td' nchunks (int nb) m n else Some (0, m))"
      using ch nd True by (subst parse_loop.simps) (simp add: z)
    then show ?thesis using top h True V fits by (intro exI [of _ nchunks] exI [of _ nb] exI [of _ m]) simp
  next
    case False
    obtain nb' where nb': "int nb + (if nchunks + 1 = 1 then fls_x86 (word_of_nat v) else 32) = int nb'"
        "top_bits (V * 2 ^ 32 + v) (nchunks + 1) nb'"
      using top_bits_step [OF top v False] by blast
    obtain m1 m2 where st: "bitmap_shift_left' m Dst 32 n = Some m1" "rd m1 0 = Some (m1 ! 0)"
        "wr m1 0 (m1 ! 0 OR ucast (word_of_nat v :: u32)) = Some m2" "length m2 = length m"
        "V * 2 ^ 32 + v < 2 ^ n \<longrightarrow> holds m2 n (V * 2 ^ 32 + v)"
      using parse_step [OF h v n] by blast
    have over: "int nb' > int n \<longleftrightarrow> \<not> V * 2 ^ 32 + v < 2 ^ n" using top_bits_fits [OF nb'(2)] by simp
    have "parse_loop buf buflen c td nchunks (int nb) m n =
       (if int nb' > int n then Some (- EOVERFLOW, m2)
        else if buflen' \<noteq> 0 \<and> c' = CHR '','' then parse_loop buf' buflen' c' td' (nchunks + 1) (int nb') m2 n
        else Some (0, m2))"
      using ch nd nb'(1) False by (subst parse_loop.simps) (auto simp: z st(1,2,3) Let_def simp del: rd_eq_Some wr_eq_Some)
    then show ?thesis unfolding over using nb'(2) st(4,5) by blast
  qed
qed

definition hex_chunks :: "string list \<Rightarrow> bool" where
  "hex_chunks dss \<longleftrightarrow> (\<forall>ds \<in> set dss. ds \<noteq> [] \<and> list_all isxdigit ds)"

lemma parse_loop_number:
  assumes "hex_chunks dss" "dss \<noteq> []" "\<not> isspace c" "terminated tail e"
    and "holds m n V" "0 < n" "top_bits V nchunks nb" "V < 2 ^ n"
  shows "\<exists>m'. (if (\<forall>ds \<in> set dss. hexval 0 ds < 2 ^ 32) \<and> number V dss < 2 ^ n
    then parse_loop (comma_text dss @ tail) (length (comma_text dss) + e) c td nchunks (int nb) m n = Some (0, m') \<and>
      length m' = length m \<and> holds m' n (number V dss)
    else parse_loop (comma_text dss @ tail) (length (comma_text dss) + e) c td nchunks (int nb) m n = Some (- EOVERFLOW, m'))"
  using assms
proof (induction dss arbitrary: m c td V nchunks nb rule: comma_text.induct)
  case (2 ds)
  have ds: "list_all isxdigit ds" "length ds \<noteq> 0" using "2.prems"(1) by (simp_all add: hex_chunks_def)
  note cl = chunk_last [OF ds(1) "2.prems"(3,4), of td]
  show ?case
  proof (cases "hexval 0 ds < 2 ^ 32")
    case False
    then have "parse_loop (ds @ tail) (length ds + e) c td nchunks (int nb) m n = Some (- EOVERFLOW, m)"
      using cl by (subst parse_loop.simps) simp
    then show ?thesis using False by auto
  next
    case True
    then obtain tail' e' c' where "parse_chunk (ds @ tail) (length ds + e) c td 0 0 =
        Some (Inr (tail', e', c', td + length ds, length ds, word_of_nat (hexval 0 ds)))" "e' = 0 \<or> c' \<noteq> CHR '','' "
      using cl by auto
    from parse_loop_unfold [OF this(1) True ds(2) "2.prems"(5-8)] this(2) True show ?thesis by auto
  qed
next
  case (3 ds ds' dss)
  let ?rest = "comma_text (ds' # dss)"
  have ds: "list_all isxdigit ds" "length ds \<noteq> 0" "hex_chunks (ds' # dss)" using "3.prems"(1) by (simp_all add: hex_chunks_def)
  have ne: "length ?rest + e \<noteq> 0" using ds(3) by (cases dss) (auto simp: hex_chunks_def)
  have buf: "comma_text (ds # ds' # dss) @ tail = ds @ CHR '','' # (?rest @ tail)"
      "length (comma_text (ds # ds' # dss)) + e = length ds + Suc (length ?rest + e)" by simp_all
  note cl = chunk_comma [OF ds(1) "3.prems"(3), of "?rest @ tail" "length ?rest + e" td]
  show ?case
  proof (cases "hexval 0 ds < 2 ^ 32")
    case False
    then have "parse_loop (comma_text (ds # ds' # dss) @ tail) (length (comma_text (ds # ds' # dss)) + e) c td nchunks (int nb) m n = Some (- EOVERFLOW, m)"
      unfolding buf using cl by (subst parse_loop.simps) simp
    then show ?thesis using False by auto
  next
    case True
    define V' where "V' = V * 2 ^ 32 + hexval 0 ds"
    have pc: "parse_chunk (ds @ CHR '','' # ?rest @ tail) (length ds + Suc (length ?rest + e)) c td 0 0 =
        Some (Inr (?rest @ tail, length ?rest + e, CHR '','', td + length ds, length ds, word_of_nat (hexval 0 ds)))"
      using cl True by simp
    obtain nchunks' nb' m' where st: "length m' = length m" "top_bits V' nchunks' nb'" "V' < 2 ^ n \<longrightarrow> holds m' n V'"
        "parse_loop (ds @ CHR '','' # ?rest @ tail) (length ds + Suc (length ?rest + e)) c td nchunks (int nb) m n =
       (if \<not> V' < 2 ^ n then Some (- EOVERFLOW, m')
        else parse_loop (?rest @ tail) (length ?rest + e) (CHR '','') (td + length ds) nchunks' (int nb') m' n)"
      using parse_loop_unfold [OF pc True ds(2) "3.prems"(5-8)] ne unfolding V'_def [symmetric] by auto
    have num: "number V (ds # ds' # dss) = number V' (ds' # dss)" by (simp add: V'_def)
    show ?thesis
    proof (cases "V' < 2 ^ n")
      case False
      moreover have "\<not> number V' (ds' # dss) < 2 ^ n" using False number_mono [of V' "ds' # dss"] by linarith
      ultimately show ?thesis unfolding buf num using st(4) by auto
    next
      case fits: True
      have "\<not> isspace CHR '',''" by (simp add: isspace_def)
      from "3.IH" [OF ds(3) _ this "3.prems"(4) _ "3.prems"(6) st(2) fits, of m' "td + length ds"] fits st(3)
      obtain m2 where m2: "if (\<forall>ds \<in> set (ds' # dss). hexval 0 ds < 2 ^ 32) \<and> number V' (ds' # dss) < 2 ^ n
        then parse_loop (?rest @ tail) (length ?rest + e) (CHR '','') (td + length ds) nchunks' (int nb') m' n = Some (0, m2) \<and>
          length m2 = length m' \<and> holds m2 n (number V' (ds' # dss))
        else parse_loop (?rest @ tail) (length ?rest + e) (CHR '','') (td + length ds) nchunks' (int nb') m' n = Some (- EOVERFLOW, m2)"
        by blast
      have all: "(\<forall>d \<in> set (ds # ds' # dss). hexval 0 d < 2 ^ 32) \<longleftrightarrow> (\<forall>d \<in> set (ds' # dss). hexval 0 d < 2 ^ 32)"
        using True by (simp only: list.set ball_simps) blast
      show ?thesis
        unfolding buf num all using m2 st(1,4) fits by (intro exI [of _ m2]) (simp only: not_True_eq_False if_False)
    qed
  qed
qed simp

section \<open>The parser\<close>

lemma bitmap_parse_number:
  assumes "hex_chunks dss" "dss \<noteq> []" "terminated tail e" "backed m n" "0 < n"
  shows "\<exists>m'. (if (\<forall>ds \<in> set dss. hexval 0 ds < 2 ^ 32) \<and> number 0 dss < 2 ^ n
    then bitmap_parse' (comma_text dss @ tail) (length (comma_text dss) + e) m n = Some (0, m') \<and> length m' = length m \<and>
      (\<forall>i < n. bm_bit m' i \<longleftrightarrow> bit (number 0 dss) i)
    else bitmap_parse' (comma_text dss @ tail) (length (comma_text dss) + e) m n = Some (- EOVERFLOW, m'))"
proof -
  obtain m0 where m0: "bitmap_zero False m n = Some m0" "length m0 = length m" "\<forall>i < 64 * BITS_TO_LONGS n. \<not> bm_bit m0 i"
    using bitmap_zero_eq [OF assms(4), of False] by auto
  have "holds m0 n 0" "top_bits 0 0 0" "\<not> isspace NUL" using m0 assms(4) by (simp_all add: holds_def top_bits_def)
  then have loop: "\<exists>m'. (if (\<forall>ds \<in> set dss. hexval 0 ds < 2 ^ 32) \<and> number 0 dss < 2 ^ n
    then parse_loop (comma_text dss @ tail) (length (comma_text dss) + e) NUL 0 0 (int 0) m0 n = Some (0, m') \<and>
      length m' = length m0 \<and> holds m' n (number 0 dss)
    else parse_loop (comma_text dss @ tail) (length (comma_text dss) + e) NUL 0 0 (int 0) m0 n = Some (- EOVERFLOW, m'))"
    using assms by (intro parse_loop_number) simp_all
  obtain m' where "if (\<forall>ds \<in> set dss. hexval 0 ds < 2 ^ 32) \<and> number 0 dss < 2 ^ n
    then parse_loop (comma_text dss @ tail) (length (comma_text dss) + e) NUL 0 0 (int 0) m0 n = Some (0, m') \<and>
      length m' = length m0 \<and> holds m' n (number 0 dss)
    else parse_loop (comma_text dss @ tail) (length (comma_text dss) + e) NUL 0 0 (int 0) m0 n = Some (- EOVERFLOW, m')"
    using loop by (elim exE)
  moreover have "holds m' n V \<Longrightarrow> \<forall>i < n. bm_bit m' i \<longleftrightarrow> bit V i" for V
    using longs_le [of n] by (simp add: holds_def)
  moreover have "bitmap_parse' buf k m n = parse_loop buf k NUL 0 0 (int 0) m0 n" for buf k
    by (simp add: bitmap_parse'_def m0(1))
  ultimately show ?thesis using m0(2) by metis
qed

text \<open>An empty chunk is an error.\<close>

lemma bitmap_parse_empty:
  assumes "backed m n" "bp = [] \<or> hd bp = CHR '','' \<or> hd bp = NUL"
  shows "\<exists>m'. bitmap_parse' bp (length bp) m n = Some (- EINVAL, m')"
proof -
  obtain m0 where m0: "bitmap_zero False m n = Some m0"
    using bitmap_zero_eq [OF assms(1), of False] by auto
  have "\<exists>p. parse_chunk bp (length bp) NUL 0 0 0 = Some (Inr p) \<and> fst (snd (snd (snd (snd p)))) = 0"
    using assms(2) by (cases bp) (auto simp: isspace_def code_eq_iff [of _ NUL])
  then show ?thesis by (auto simp: bitmap_parse'_def m0 parse_loop.simps [of bp])
qed

section \<open>The printed text\<close>

lemma hex_digit: "n < 16 \<Longrightarrow> hex n = [xdigit n]"
  by (simp add: hex.simps [of n])

lemma hex_step: "\<not> n < 16 \<Longrightarrow> hex n = hex (n div 16) @ [xdigit (n mod 16)]"
  by (subst hex.simps) simp

lemma xdigit_facts:
  assumes "d < 16"
  shows "isxdigit (xdigit d)" "hex_to_bin (xdigit d) = int d"
proof -
  have "code (xdigit d) = (if d < 10 then 48 + d else 87 + d)" using assms by (simp add: code_def xdigit_def)
  then show "isxdigit (xdigit d)" "hex_to_bin (xdigit d) = int d"
    using assms by (auto simp: isxdigit_def isdigit_def hex_to_bin_def tolower_def Let_def)
qed

lemma hex_facts: "hex n \<noteq> [] \<and> list_all isxdigit (hex n) \<and> hexval 0 (hex n) = n"
proof (induction n rule: less_induct)
  case (less n)
  show ?case
  proof (cases "n < 16")
    case True
    then show ?thesis using xdigit_facts by (simp add: hex_digit)
  next
    case False
    then show ?thesis using less.IH [of "n div 16"] xdigit_facts [of "n mod 16"] by (simp add: hex_step hexval_append)
  qed
qed

lemma hex_length: "n < 16 ^ w \<Longrightarrow> 0 < w \<Longrightarrow> length (hex n) \<le> w"
proof (induction w arbitrary: n)
  case (Suc w)
  show ?case
  proof (cases "n < 16")
    case False
    then have w: "0 < w" using Suc.prems(1) by (cases w) simp_all
    have "n div 16 < 16 ^ w" using Suc.prems(1) by (intro less_mult_imp_div_less) (simp add: mult.commute)
    then show ?thesis using Suc.IH w False by (simp add: hex_step)
  qed (simp add: hex_digit)
qed simp

lemma padhex_facts:
  "padhex w n \<noteq> []" "list_all isxdigit (padhex w n)" "hexval 0 (padhex w n) = n"
proof -
  have zero: "list_all isxdigit (replicate k CHR ''0'') \<and> hexval 0 (replicate k CHR ''0'') = 0" for k
    by (induction k) (simp_all add: isxdigit_def isdigit_def hex_to_bin_def code_def)
  then show "padhex w n \<noteq> []" "list_all isxdigit (padhex w n)" "hexval 0 (padhex w n) = n"
    using hex_facts [of n] by (simp_all add: padhex_def hexval_append)
qed

lemma padhex_length: "n < 16 ^ w \<Longrightarrow> 0 < w \<Longrightarrow> length (padhex w n) = w"
  using hex_length [of n w] by (simp add: padhex_def)

definition chunk :: "ulong list \<Rightarrow> nat \<Rightarrow> nat \<Rightarrow> nat" where
  "chunk m sz k = unat (drop_bit (32 * k mod 64) (m ! (32 * k div 64)) AND (push_bit sz 1 - 1))"

fun chunks_text :: "ulong list \<Rightarrow> nat \<Rightarrow> nat \<Rightarrow> string \<Rightarrow> string" where
  "chunks_text m 0 sz sep = []"
| "chunks_text m (Suc k) sz sep = sep @ padhex ((sz + 3) div 4) (chunk m sz k) @ chunks_text m k 32 '','' "

lemma chunks_text_comma:
  "chunks_text m k 32 '','' = (if k = 0 then [] else '','' @ comma_text (map (\<lambda>k. padhex 8 (chunk m 32 k)) (rev [0..<k])))"
proof (induction k)
  case (Suc k)
  then show ?case by (cases k) simp_all
qed simp

lemma scnprintf_loop_fits:
  assumes "printed T buf" "length (T @ chunks_text m k sz sep) < buflen" "buflen \<le> length buf" "buflen < 2 ^ 64" "32 * k \<le> 64 * length m"
  shows "\<exists>buf'. scnprintf_loop k buf buflen m sz sep (length T) = Some (buf', length (T @ chunks_text m k sz sep)) \<and>
    printed (T @ chunks_text m k sz sep) buf' \<and> length buf' = length buf \<and> drop buflen buf' = drop buflen buf"
  using assms
proof (induction k arbitrary: T buf sz sep)
  case (Suc k)
  define R where "R = sep @ padhex ((sz + 3) div 4) (chunk m sz k)"
  have w: "rd m (32 * k div 64) = Some (m ! (32 * k div 64))" using Suc.prems(5) by (intro rd_in less_mult_imp_div_less) simp
  have tx: "T @ chunks_text m (Suc k) sz sep = (T @ R) @ chunks_text m k 32 '',''" by (simp add: R_def)
  obtain b1 where b1: "snprintf buf (length T) (int buflen - int (length T)) R = Some (b1, length R)" "printed (T @ R) b1"
      "length b1 = length buf" "drop buflen b1 = drop buflen buf"
    using snprintf_printed [OF Suc.prems(1) _ Suc.prems(3,4), of R] Suc.prems(2) unfolding tx by auto
  have "scnprintf_loop (Suc k) buf buflen m sz sep (length T) = scnprintf_loop k b1 buflen m 32 '','' (length (T @ R))"
    using w b1(1) by (simp add: R_def chunk_def Let_def del: rd_eq_Some)
  then show ?case unfolding tx using Suc.IH [OF b1(2)] Suc.prems(2-5) b1(3,4) unfolding tx by simp
qed simp


lemma bit_chunk:
  assumes "32 * k < 64 * length m" "sz \<le> 32"
  shows "bit (chunk m sz k) j \<longleftrightarrow> j < sz \<and> bm_bit m (32 * k + j)"
proof -
  have idx: "(32 * k + j) div 64 = 32 * k div 64" "(32 * k + j) mod 64 = 32 * k mod 64 + j" if "j < 32"
    using idx32 [OF that, of k] idx32 [of 0 k] by simp_all
  have k: "32 * k div 64 < length m" using assms(1) by (intro less_mult_imp_div_less) simp
  have "push_bit sz 1 - 1 = (mask sz :: ulong)" by (simp add: mask_eq_exp_minus_1)
  then have "bit (chunk m sz k) j \<longleftrightarrow> j < 64 \<and> j < sz \<and> bit (m ! (32 * k div 64)) (32 * k mod 64 + j)"
    unfolding chunk_def by (auto simp: bit_unsigned_iff bit_and_iff bit_drop_bit_eq bit_mask_iff dest: bit_imp_le_length)
  also have "\<dots> \<longleftrightarrow> j < sz \<and> bm_bit m (32 * k + j)"
    using idx k assms(2) by (cases "j < sz") (simp_all add: bm_bit_def)
  finally show ?thesis .
qed

lemma below_if_bits: "(\<And>j. bit v j \<Longrightarrow> j < n) \<Longrightarrow> v < (2::nat) ^ n"
  by (metis bit_take_bit_iff bit_eq_iff take_bit_nat_eq_self_iff)

lemma chunk_less: "32 * k < 64 * length m \<Longrightarrow> sz \<le> 32 \<Longrightarrow> chunk m sz k < 2 ^ sz"
  by (rule below_if_bits) (simp add: bit_chunk)

lemma number_chunks:
  assumes "32 * k \<le> 64 * length m"
  shows "bit (number V (map (\<lambda>k. padhex 8 (chunk m 32 k)) (rev [0..<k]))) i \<longleftrightarrow>
    (if i < 32 * k then bm_bit m i else bit V (i - 32 * k))"
  using assms
proof (induction k arbitrary: V)
  case (Suc k)
  have c: "chunk m 32 k < 2 ^ 32" using chunk_less [of k m 32] Suc.prems by simp
  have lt: "32 * k < 64 * length m" using Suc.prems by simp
  have "bit (number V (map (\<lambda>k. padhex 8 (chunk m 32 k)) (rev [0..<Suc k]))) i \<longleftrightarrow>
      (if i < 32 * k then bm_bit m i else bit (V * 2 ^ 32 + chunk m 32 k) (i - 32 * k))"
    using Suc.IH [of "V * 2 ^ 32 + chunk m 32 k"] Suc.prems by (simp add: padhex_facts(3))
  also have "\<dots> \<longleftrightarrow> (if i < 32 * Suc k then bm_bit m i else bit V (i - 32 * Suc k))"
    unfolding bit_append [OF c] bit_chunk [OF lt order_refl] by (auto simp: diff_diff_left not_less add.commute)
  finally show ?case .
qed simp

definition chunk_count :: "nat \<Rightarrow> nat" where
  "chunk_count n = unat (ALIGN_MASK (of_nat n) 31) div 32"

definition first_chunk :: "nat \<Rightarrow> nat" where
  "first_chunk n = (if n mod 32 = 0 then 32 else n mod 32)"

lemma chunk_count_eq:
  assumes "n < 2 ^ 31"
  shows "chunk_count n = (n + 31) div 32"
proof -
  define x where "x = (of_nat n + 31 :: ulong)"
  have "unat x = n + 31" unfolding x_def using assms by (simp add: unat_of_nat unat_word_ariths)
  moreover have "drop_bit 5 (x AND NOT (mask 5)) = drop_bit 5 x"
    by (auto simp: bit_eq_iff bit_drop_bit_eq bit_and_iff bit_not_iff bit_mask_iff dest: bit_imp_le_length)
  moreover have m: "(31 :: ulong) = mask 5" by (simp add: mask_eq_exp_minus_1)
  ultimately have e: "drop_bit 5 (ALIGN_MASK (of_nat n) 31) = drop_bit 5 x"
    unfolding ALIGN_MASK_def x_def [symmetric] by (simp only:)
  have "unat (drop_bit 5 y) = unat y div 32" for y :: ulong
    by (rule trans [OF unat_drop_bit_eq]) (simp add: drop_bit_eq_div)
  then show ?thesis using e \<open>unat x = n + 31\<close> unfolding chunk_count_def by metis
qed

definition hex_text :: "ulong list \<Rightarrow> nat \<Rightarrow> string" where
  "hex_text m n = chunks_text m (chunk_count n) (first_chunk n) ''''"

lemma bitmap_scnprintf_fits:
  assumes "backed m n" "length (hex_text m n) < buflen" "buflen \<le> length buf" "buflen < 2 ^ 64" "n < 2 ^ 31"
  shows "\<exists>buf'. bitmap_scnprintf buf buflen (Some m) n = Some (buf', length (hex_text m n)) \<and>
    printed (hex_text m n) buf' \<and> length buf' = length buf \<and> drop buflen buf' = drop buflen buf"
proof -
  have pos: "0 < buflen" "0 < length buf" using assms(2,3) by linarith+
  have k: "32 * chunk_count n \<le> 64 * length m"
  proof -
    have "(n + 31) div 32 < 2 * length m + 1" using assms(1) by (intro less_mult_imp_div_less) simp
    then show ?thesis unfolding chunk_count_eq [OF assms(5)] by simp
  qed
  have "printed [] (buf[0 := NUL])" using pos by (simp add: printed_def)
  from scnprintf_loop_fits [OF this _ _ assms(4) k, of "first_chunk n" "''''"] assms(2,3) pos
  show ?thesis
    by (simp add: bitmap_scnprintf_def wr_in hex_text_def chunk_count_def first_chunk_def Let_def del: wr_eq_Some length_greater_0_conv cong: if_cong)
qed

text \<open>For a non-empty bitmap the text is a list of chunks whose number has the bits of the bitmap.\<close>

lemma hex_text_chunks:
  assumes "0 < n" "n < 2 ^ 31" "backed m n"
  shows "\<exists>dss. hex_text m n = comma_text dss \<and> dss \<noteq> [] \<and> hex_chunks dss \<and>
    (\<forall>ds \<in> set dss. hexval 0 ds < 2 ^ 32) \<and> (\<forall>i. bit (number 0 dss) i \<longleftrightarrow> i < n \<and> bm_bit m i)"
proof -
  obtain k where k: "chunk_count n = Suc k" "n = 32 * k + first_chunk n" "first_chunk n \<le> 32"
  proof
    show "chunk_count n = Suc ((n - 1) div 32)" unfolding chunk_count_eq [OF assms(2)] using assms(1) by (cases n) simp_all
    obtain q r where qr: "(n - 1) div 32 = q" "n = 32 * q + (r + 1)" "r < 32"
    proof
      show "n = 32 * ((n - 1) div 32) + ((n - 1) mod 32 + 1)" using mult_div_mod_eq [of 32 "n - 1"] assms(1) by linarith
    qed simp_all
    then have "n mod 32 = (r + 1) mod 32" by simp
    then have "first_chunk n = r + 1" using qr(3) unfolding first_chunk_def by (cases "r = 31") simp_all
    then show "n = 32 * ((n - 1) div 32) + first_chunk n" using qr by simp
    show "first_chunk n \<le> 32" by (simp add: first_chunk_def less_imp_le)
  qed
  let ?c = "chunk m (first_chunk n) k"
  let ?dss = "padhex ((first_chunk n + 3) div 4) ?c # map (\<lambda>k. padhex 8 (chunk m 32 k)) (rev [0..<k])"
  have pos: "0 < first_chunk n" using k(2) by (auto simp: first_chunk_def)
  have room: "32 * k < 64 * length m" "32 * k \<le> 64 * length m" using k(2) assms(3) pos by linarith+
  have cl: "?c < 2 ^ first_chunk n" by (rule chunk_less [OF room(1) k(3)])
  also have "(2::nat) ^ first_chunk n \<le> 2 ^ 32" by (rule power_increasing) (use k(3) in simp_all)
  finally have c32: "?c < 2 ^ 32" .
  have "hex_text m n = comma_text ?dss"
    unfolding hex_text_def k(1) by (cases k) (simp_all add: chunks_text_comma)
  moreover have "hex_chunks ?dss" by (auto simp: hex_chunks_def padhex_facts)
  moreover have "\<forall>ds \<in> set ?dss. hexval 0 ds < 2 ^ 32"
    using c32 chunk_less [of _ m 32] room(1) by (auto simp: padhex_facts)
  moreover have "bit (number 0 ?dss) i \<longleftrightarrow> i < n \<and> bm_bit m i" for i
  proof -
    have "bit (number 0 ?dss) i \<longleftrightarrow> (if i < 32 * k then bm_bit m i else bit ?c (i - 32 * k))"
      using number_chunks [OF room(2), of ?c i] by (simp add: padhex_facts(3))
    also have "\<dots> \<longleftrightarrow> i < n \<and> bm_bit m i"
      using k(2) unfolding bit_chunk [OF room(1) k(3)] by (cases "i < 32 * k") auto
    finally show ?thesis .
  qed
  ultimately show ?thesis by blast
qed

lemma parse_scnprintf:
  assumes "backed m n" "backed m0 n" "0 < n" "n < 2 ^ 31"
    and "length (hex_text m n) < buflen" "buflen \<le> length buf" "buflen < 2 ^ 64"
  shows "\<exists>buf' len m'. bitmap_scnprintf buf buflen (Some m) n = Some (buf', len) \<and>
    bitmap_parse' buf' (Suc len) m0 n = Some (0, m') \<and> (\<forall>i < n. bm_bit m' i = bm_bit m i)"
proof -
  obtain buf' where b: "bitmap_scnprintf buf buflen (Some m) n = Some (buf', length (hex_text m n))" "printed (hex_text m n) buf'"
    using bitmap_scnprintf_fits [OF assms(1,5-7,4)] by blast
  obtain dss where d: "hex_text m n = comma_text dss" "dss \<noteq> []" "hex_chunks dss" "\<forall>ds \<in> set dss. hexval 0 ds < 2 ^ 32"
      "\<And>i. bit (number 0 dss) i \<longleftrightarrow> i < n \<and> bm_bit m i"
    using hex_text_chunks [OF assms(3,4,1)] by blast
  have "number 0 dss < 2 ^ n" by (rule below_if_bits) (simp add: d(5))
  define tail where "tail = drop (length (comma_text dss)) buf'"
  have buf': "buf' = comma_text dss @ tail"
    using b(2) unfolding d(1) printed_def tail_def by (metis append_take_drop_id)
  have "tail = [] @ NUL # drop (Suc (length (comma_text dss))) buf'"
    using b(2) unfolding d(1) printed_def tail_def by (simp add: Cons_nth_drop_Suc [symmetric])
  then have "terminated tail 1" unfolding terminated_def by force
  from bitmap_parse_number [OF d(3,2) this assms(2,3)] d(4) \<open>number 0 dss < 2 ^ n\<close>
  obtain m' where "bitmap_parse' buf' (Suc (length (comma_text dss))) m0 n = Some (0, m')" "\<forall>i < n. bm_bit m' i \<longleftrightarrow> bit (number 0 dss) i"
    unfolding buf' [symmetric] by auto
  then show ?thesis using b(1) unfolding d(1) by (auto simp: d(5))
qed

end
