(* ===== verification/Sysfs.thy ===== *)
theory Sysfs
  imports Topology Bitmap_Hex
begin

text \<open>
The collection of the topology: \<^verbatim>\<open>read_file\<close> to \<^verbatim>\<open>collect_topology\<close> of \<^verbatim>\<open>mpipin.c\<close> (lines 228 to 745). The
  file system, the outcome of every allocation, libnuma and what uninitialised memory holds are the
  fields of the record \<open>sysfs\<close>. A read returns the whole file up to the size asked for.
  \<^verbatim>\<open>goto out\<close> is a result of the error branch: what the function frees there is not visible to its
  callers. The lists the functions append to are returned.
\<close>

section \<open>The environment\<close>

text \<open>
  \<open>open_file f p\<close> gives, when function \<open>f\<close> opens the path \<open>p\<close>, \<open>None\<close> when \<^verbatim>\<open>open()\<close> fails, \<open>Some None\<close> when \<^verbatim>\<open>read()\<close> fails, else
  the contents. \<open>alloc f p\<close> says whether the allocation that function \<open>f\<close> makes for the path \<open>p\<close> succeeds. No function opens a
  path or allocates for it twice, so every call succeeds or fails on its own. \<open>page\<close> and \<open>stack_cpus\<close>
  are what uninitialised memory holds.
\<close>

record sysfs =
  open_file :: "string \<Rightarrow> string \<Rightarrow> string option option"
  stat_ok :: "string \<Rightarrow> bool"
  alloc :: "string \<Rightarrow> string \<Rightarrow> bool"
  page :: string
  stack_cpus :: cpu_set
  nprocs :: nat
  numa_ok :: bool
  numa_nodes :: nat
  aarch64 :: bool

definition PAGE_SIZE :: nat where "PAGE_SIZE = 4096"
definition PATH_MAX :: nat where "PATH_MAX = 4096"

text \<open>The results: \<open>None\<close> is an access outside of a buffer, \<open>Inl\<close> a negative error number.\<close>

type_synonym 'a result = "(int + 'a) option"

definition ok :: "'a \<Rightarrow> 'a result" where "ok x = Some (Inr x)"
definition err :: "int \<Rightarrow> 'a result" where "err e = Some (Inl (- e))"

definition attempt :: "'a result \<Rightarrow> ('a \<Rightarrow> 'b result) \<Rightarrow> 'b result" where
  "attempt m f = do { r \<leftarrow> m; (case r of Inl e \<Rightarrow> Some (Inl e) | Inr x \<Rightarrow> f x) }"

lemma ok_inject [simp]: "ok x = ok y \<longleftrightarrow> x = y"
  by (simp add: ok_def)

text \<open>A caller that replaces the error of a callee by its own.\<close>

definition or_error :: "'a result \<Rightarrow> int \<Rightarrow> 'a result" where
  "or_error m e = do { r \<leftarrow> m; (case r of Inl _ \<Rightarrow> err e | Inr x \<Rightarrow> ok x) }"

section \<open>Reading files\<close>

text \<open>The result is the buffer after the read; \<open>caller\<close> is the function that reads.\<close>

definition read_file :: "sysfs \<Rightarrow> string \<Rightarrow> string \<Rightarrow> nat \<Rightarrow> string \<Rightarrow> string result" where
  "read_file fs caller buf sz path =
     (if \<not> alloc fs (caller @ ''/read_file'') path then err ENOMEM
      else if length path \<ge> PATH_MAX then err ENAMETOOLONG
      else (case open_file fs caller path of
          None \<Rightarrow> err EINVAL
        | Some None \<Rightarrow> err EINVAL
        | Some (Some contents) \<Rightarrow> do {
            let ss = min sz (length contents);
            buf \<leftarrow> (if ss \<le> length buf then Some (take ss contents @ drop ss buf) else None);
            buf \<leftarrow> wr buf ss NUL;
            ok buf }))"

definition file_readable :: "sysfs \<Rightarrow> string \<Rightarrow> int" where
  "file_readable fs path =
     (if \<not> alloc fs ''file_readable'' path then - ENOMEM
      else if length path \<ge> PATH_MAX then - ENAMETOOLONG
      else (case open_file fs ''file_readable'' path of None \<Rightarrow> - EINVAL | Some _ \<Rightarrow> 0))"

text \<open>A C string in a buffer.\<close>

definition cstring :: "string \<Rightarrow> string" where
  "cstring buf = takeWhile (\<lambda>c. c \<noteq> NUL) buf"

text \<open>\<^verbatim>\<open>sscanf(buf, "%ld", valuep)\<close>: white space, an optional sign, decimal digits; the value is clamped to \<^verbatim>\<open>long\<close>.\<close>

definition scan_long :: "string \<Rightarrow> int option" where
  "scan_long s =
     (let s = dropWhile isspace s;
          neg = (s \<noteq> [] \<and> hd s = CHR ''-'');
          s = (if s \<noteq> [] \<and> (hd s = CHR ''-'' \<or> hd s = CHR ''+'') then tl s else s);
          ds = takeWhile isdigit s;
          v = foldl (\<lambda>v c. v * 10 + int (code c - 48)) 0 ds;
          v = (if neg then - v else v)
      in if ds = [] then None else Some (max (- (2 ^ 63)) (min (2 ^ 63 - 1) v)))"

definition read_long :: "sysfs \<Rightarrow> string \<Rightarrow> int result" where
  "read_long fs path =
     (if \<not> alloc fs ''read_long'' path then err ENOMEM
      else attempt (or_error (read_file fs ''read_long'' (page fs) (PAGE_SIZE - 1) path) EINVAL) (\<lambda>buf.
        case scan_long (cstring buf) of None \<Rightarrow> err EIO | Some v \<Rightarrow> ok v))"

definition read_bitmap :: "sysfs \<Rightarrow> ulong list \<Rightarrow> nat \<Rightarrow> string \<Rightarrow> ulong list result" where
  "read_bitmap fs bmap nbits path =
     (if \<not> alloc fs ''read_bitmap'' path then err ENOMEM
      else attempt (or_error (read_file fs ''read_bitmap'' (page fs) (PAGE_SIZE - 1) path) EINVAL) (\<lambda>buf. do {
        (error, bmap) \<leftarrow> bitmap_parse buf PAGE_SIZE bmap nbits;
        if error \<noteq> 0 then err EINVAL else ok bmap }))"

definition read_bitmap_parselist :: "sysfs \<Rightarrow> ulong list \<Rightarrow> nat \<Rightarrow> string \<Rightarrow> ulong list result" where
  "read_bitmap_parselist fs bmap nbits path =
     (if \<not> alloc fs ''read_bitmap_parselist'' path then err ENOMEM
      else attempt (or_error (read_file fs ''read_bitmap_parselist'' (page fs) (PAGE_SIZE - 1) path) EINVAL) (\<lambda>buf. do {
        (error, bmap) \<leftarrow> bitmap_parselist (cstring buf) bmap nbits;
        if error \<noteq> 0 then err EINVAL else ok bmap }))"

definition read_string :: "sysfs \<Rightarrow> string \<Rightarrow> string result" where
  "read_string fs path =
     (if \<not> alloc fs ''read_string'' path then err ENOMEM
      else attempt (or_error (read_file fs ''read_string'' (page fs) (PAGE_SIZE - 1) path) EINVAL) (\<lambda>buf.
        if \<not> alloc fs ''strdup'' path then err ENOMEM
        else let p = cstring buf in
          ok (if p \<noteq> [] \<and> last p = NEWLINE then butlast p else p)))"

section \<open>Collecting the topology\<close>

definition cpu_path :: "nat \<Rightarrow> string" where
  "cpu_path cpu = ''/sys/devices/system/cpu/cpu'' @ dec cpu"

definition cache_path :: "nat \<Rightarrow> nat \<Rightarrow> string" where
  "cache_path cpu index = cpu_path cpu @ ''/cache/index'' @ dec index"

definition zero_cache :: "nat \<Rightarrow> cache_topology" where
  "zero_cache index = \<lparr>cache_index = int index, cache_padding = 0, level = 0, cache_type = [], cache_size = 0, size_str = [],
     coherency_line_size = 0, number_of_sets = 0, physical_line_partition = 0, ways_of_associativity = 0, shared_cpu_map = CPU_ZERO\<rparr>"

text \<open>
  The result is the cache to append to the list of the CPU, none when the cache does not exist. The size
  in kilobytes is multiplied by 1024 in a \<^verbatim>\<open>long\<close>, which overflows for sizes of \<open>2 ^ 53\<close> and more; C leaves that
  undefined, the model wraps as the targets do. No part of the program reads the size.
\<close>

definition wrap_long :: "int \<Rightarrow> int" where
  "wrap_long v = signed_take_bit 63 v"

definition collect_cache_topology :: "sysfs \<Rightarrow> nat \<Rightarrow> nat \<Rightarrow> cache_topology option result" where
  "collect_cache_topology fs cpu index =
     (let prefix = cache_path cpu index in
      if \<not> alloc fs ''collect_cache_topology'' prefix then err ENOMEM
      else if length prefix \<ge> PATH_MAX then err ENAMETOOLONG
      else if file_readable fs (prefix @ ''/level'') < 0 then ok None
      else if \<not> alloc fs ''cache_topology'' prefix then err ENOMEM
      else let p = zero_cache index in
        attempt (read_long fs (prefix @ ''/level'')) (\<lambda>v. let p = p\<lparr>level := v\<rparr> in
        attempt (read_string fs (prefix @ ''/type'')) (\<lambda>v. let p = p\<lparr>cache_type := v\<rparr> in
        attempt (read_long fs (prefix @ ''/size'')) (\<lambda>v. let p = p\<lparr>cache_size := wrap_long (v * 1024)\<rparr> in
        attempt (read_string fs (prefix @ ''/size'')) (\<lambda>v. let p = p\<lparr>size_str := v\<rparr> in
        attempt (read_long fs (prefix @ ''/coherency_line_size'')) (\<lambda>v. let p = p\<lparr>coherency_line_size := v\<rparr> in
        attempt (read_long fs (prefix @ ''/number_of_sets'')) (\<lambda>v. let p = p\<lparr>number_of_sets := v\<rparr> in
        attempt (if aarch64 fs then ok p else
          attempt (read_long fs (prefix @ ''/physical_line_partition'')) (\<lambda>v. ok (p\<lparr>physical_line_partition := v\<rparr>))) (\<lambda>p.
        attempt (read_long fs (prefix @ ''/ways_of_associativity'')) (\<lambda>v. let p = p\<lparr>ways_of_associativity := v\<rparr> in
        attempt (read_bitmap fs (shared_cpu_map p) (nprocs fs) (prefix @ ''/shared_cpu_map'')) (\<lambda>v.
        ok (Some (p\<lparr>shared_cpu_map := v\<rparr>))))))))))))"

text \<open>An error for one cache ends the loop over the caches; it is printed, but the CPU is kept.\<close>

fun collect_caches :: "sysfs \<Rightarrow> nat \<Rightarrow> nat list \<Rightarrow> cache_topology list option" where
  "collect_caches fs cpu [] = Some []"
| "collect_caches fs cpu (index # is) = do {
     r \<leftarrow> collect_cache_topology fs cpu index;
     (case r of
        Inl error \<Rightarrow> Some []
      | Inr p \<Rightarrow> do { ps \<leftarrow> collect_caches fs cpu is; Some (case p of None \<Rightarrow> ps | Some p \<Rightarrow> p # ps) }) }"

definition zero_cpu :: "nat \<Rightarrow> cpu_topology" where
  "zero_cpu cpu = \<lparr>cpu_id = cpu, node_id = 0, hw_id = 0, physical_package_id = 0, core_id = 0,
     core_siblings = CPU_ZERO, thread_siblings = CPU_ZERO, cache_topology_list = []\<rparr>"

definition collect_cpu_topology :: "sysfs \<Rightarrow> nat \<Rightarrow> cpu_topology result" where
  "collect_cpu_topology fs cpu =
     (let prefix = cpu_path cpu in
      if \<not> alloc fs ''collect_cpu_topology'' prefix then err ENOMEM
      else if length prefix \<ge> PATH_MAX then err ENAMETOOLONG
      else if \<not> alloc fs ''cpu_topology'' prefix then err ENOMEM
      else let p = zero_cpu cpu in
        attempt (or_error (read_long fs (prefix @ ''/topology/core_id'')) EINVAL) (\<lambda>v. let p = p\<lparr>core_id := v\<rparr> in
        attempt (or_error (read_bitmap fs (core_siblings p) (nprocs fs) (prefix @ ''/topology/core_siblings'')) EINVAL) (\<lambda>v.
          let p = p\<lparr>core_siblings := v\<rparr> in
        attempt (or_error (read_long fs (prefix @ ''/topology/physical_package_id'')) EINVAL) (\<lambda>v. let p = p\<lparr>physical_package_id := v\<rparr> in
        attempt (or_error (read_bitmap fs (thread_siblings p) (nprocs fs) (prefix @ ''/topology/thread_siblings'')) EINVAL) (\<lambda>v.
          let p = p\<lparr>thread_siblings := v\<rparr>;
              p = (case List.find (\<lambda>node. stat_ok fs (prefix @ ''/node'' @ dec node)) [0..<numa_nodes fs] of
                     None \<Rightarrow> p | Some node \<Rightarrow> p\<lparr>node_id := int node\<rparr>) in do {
          caches \<leftarrow> collect_caches fs cpu [0..<10];
          ok (p\<lparr>cache_topology_list := caches\<rparr>) })))))"

definition collect_node_topology :: "sysfs \<Rightarrow> nat \<Rightarrow> node_topology result" where
  "collect_node_topology fs node =
     (if \<not> alloc fs ''node_topology'' (dec node) then err ENOMEM
      else let p = \<lparr>node_number = int node, node_padding = 0, cpumap = CPU_ZERO\<rparr> in
        attempt (or_error (read_bitmap fs (cpumap p) (nprocs fs) (''/sys/devices/system/node/node'' @ dec node @ ''/cpumap'')) ENOMEM) (\<lambda>v.
        ok (p\<lparr>cpumap := v\<rparr>)))"

text \<open>A loop that appends the object of every index to a list and ends with an error at the first failure.\<close>

fun collect_each :: "(nat \<Rightarrow> 'a result) \<Rightarrow> nat list \<Rightarrow> 'a list result" where
  "collect_each f [] = ok []"
| "collect_each f (i # is) = attempt (or_error (f i) EINVAL) (\<lambda>p. attempt (collect_each f is) (\<lambda>ps. ok (p # ps)))"

definition collect_topology :: "sysfs \<Rightarrow> (cpu_topology list \<times> node_topology list) result" where
  "collect_topology fs =
     (if \<not> numa_ok fs then err EINVAL
      else attempt (or_error (read_bitmap_parselist fs (stack_cpus fs) (nprocs fs) ''/sys/devices/system/cpu/online'') EINVAL) (\<lambda>cpus.
        attempt (collect_each (collect_cpu_topology fs) (filter (\<lambda>cpu. CPU_ISSET cpu cpus) [0..<nprocs fs])) (\<lambda>tops.
        attempt (collect_each (collect_node_topology fs) [0..<numa_nodes fs]) (\<lambda>nodes.
        ok (tops, nodes)))))"


section \<open>The parsers always return on a buffer of the given length\<close>

lemma parse_chunk_total:
  "length buf = n \<Longrightarrow> (\<exists>e. parse_chunk buf n c td nd ch = Some (Inl e) \<and> e < 0) \<or>
   (\<exists>buf' n' c' td' nd' ch'. parse_chunk buf n c td nd ch = Some (Inr (buf', n', c', td', nd', ch')) \<and> length buf' = n')"
  by (induction buf n c td nd ch rule: parse_chunk.induct) (auto simp: errno_defs)

lemma parse_loop_total:
  assumes "length buf = buflen" "backed m n" "0 < length m"
  shows "\<exists>e m'. parse_loop buf buflen c td nch nb m n = Some (e, m') \<and> e \<le> 0 \<and> length m' = length m"
  using assms
proof (induction buf buflen c td nch nb m n rule: parse_loop.induct)
  case (1 buf buflen c td nch nb m n)
  consider e where "parse_chunk buf buflen c td 0 0 = Some (Inl e)" "e < 0"
    | buf' n' c' td' nd' ch' where "parse_chunk buf buflen c td 0 0 = Some (Inr (buf', n', c', td', nd', ch'))" "length buf' = n'"
    using parse_chunk_total [OF "1.prems"(1), of c td 0 0] by blast
  then show ?case
  proof cases
    case 1
    then show ?thesis by (simp add: parse_loop.simps [of buf])
  next
    case 2
    obtain m1 where m1: "bitmap_shift_left' m Dst 32 n = Some m1" "length m1 = length m"
      using bitmap_shift_left_eq [where dst = m and s = Dst and shift = 32 and bits = n] "1.prems"(2) by auto
    define m2 where "m2 = m1[0 := m1 ! 0 OR ucast ch']"
    have w: "rd m1 0 = Some (m1 ! 0)" "wr m1 0 (m1 ! 0 OR ucast ch') = Some m2" "length m2 = length m"
      using m1(2) "1.prems"(3) by (simp_all add: rd_in wr_in m2_def length_greater_0_conv [symmetric] del: rd_eq_Some wr_eq_Some length_greater_0_conv)
    have IH1: "\<exists>e m'. parse_loop buf' n' c' td' nch nb m n = Some (e, m') \<and> e \<le> 0 \<and> length m' = length m"
      if "nd' \<noteq> 0" "nch = 0 \<and> ch' = 0" "n' \<noteq> 0 \<and> c' = CHR '','' "
      using "1.IH"(1) [OF 2(1) refl refl refl refl refl refl that] 2(2) "1.prems"(2,3) by blast
    have IH2: "\<exists>e m'. parse_loop buf' n' c' td' (nch + 1) (nb + (if nch + 1 = 1 then fls_x86 ch' else 32)) m2 n = Some (e, m') \<and> e \<le> 0 \<and> length m' = length m"
      if "nd' \<noteq> 0" "\<not> (nch = 0 \<and> ch' = 0)" "\<not> nb + (if nch + 1 = 1 then fls_x86 ch' else 32) > int n" "n' \<noteq> 0 \<and> c' = CHR '','' "
      using "1.IH"(2) [OF 2(1) refl refl refl refl refl refl that(1,2) m1(1) w(1,2) refl refl that(3,4)] 2(2) "1.prems"(2,3) w(3) by auto
    show ?thesis
      using IH1 IH2 by (subst parse_loop.simps) (auto simp: 2(1) m1(1) w Let_def errno_defs simp del: rd_eq_Some wr_eq_Some)
  qed
qed

lemma bitmap_parse_total:
  assumes "length buf = buflen" "backed m n" "0 < length m"
  shows "\<exists>e m'. bitmap_parse buf buflen m n = Some (e, m') \<and> e \<le> 0 \<and> length m' = length m"
proof -
  obtain m0 where "bitmap_zero False m n = Some m0" "length m0 = length m"
    using bitmap_zero_eq [OF assms(2), of False] by auto
  then show ?thesis using parse_loop_total [where buf = buf and buflen = buflen and m = m0 and n = n] assms by (simp add: bitmap_parse_def bitmap_parse'_def)
qed

lemma parselist_item_total:
  "n \<le> length buf \<Longrightarrow> (\<exists>e. parselist_item buf n c td a b ed ir = Some (Inl e) \<and> e < 0) \<or>
   (\<exists>buf' n' c' td' a' b'. parselist_item buf n c td a b ed ir = Some (Inr (buf', n', c', td', a', b')) \<and> n' \<le> length buf')"
  by (induction buf n c td a b ed ir rule: parselist_item.induct) (auto simp: errno_defs Let_def)

lemma parselist_loop_total:
  assumes "buflen \<le> length buf" "backed m n"
  shows "\<exists>e m'. parselist_loop buf buflen c td m n = Some (e, m') \<and> e \<le> 0 \<and> length m' = length m"
  using assms
proof (induction buf buflen c td m n rule: parselist_loop.induct)
  case (1 buf buflen c td m n)
  consider e where "parselist_item buf buflen c td 0 0 True False = Some (Inl e)" "e < 0"
    | buf' n' c' td' a b where "parselist_item buf buflen c td 0 0 True False = Some (Inr (buf', n', c', td', a, b))" "n' \<le> length buf'"
    using parselist_item_total [OF "1.prems"(1), of c td 0 0 True False] by blast
  then show ?case
  proof cases
    case 1
    then show ?thesis by (simp add: parselist_loop.simps [of buf])
  next
    case 2
    show ?thesis
    proof (cases "a \<le> b \<and> unat b < n")
      case False
      then show ?thesis by (subst parselist_loop.simps) (auto simp: 2(1) errno_defs)
    next
      case True
      obtain m1 where m1: "fold_opt set_bit_x86 [unat a..<unat b + 1] m = Some m1" "length m1 = length m"
        using set_range [OF "1.prems"(2), of "unat b" "unat a"] True by blast
      have "\<exists>e m'. parselist_loop buf' n' c' td' m1 n = Some (e, m') \<and> e \<le> 0 \<and> length m' = length m"
        if "n' \<noteq> 0 \<and> c' = CHR '','' "
        using "1.IH" [OF 2(1) refl refl refl refl refl refl _ _ m1(1) that] True 2(2) "1.prems"(2) m1(2) by auto
      then show ?thesis using True m1 by (subst parselist_loop.simps) (auto simp: 2(1))
    qed
  qed
qed

lemma bitmap_parselist_total:
  assumes "backed m n"
  shows "\<exists>e m'. bitmap_parselist bp m n = Some (e, m') \<and> e \<le> 0 \<and> length m' = length m"
proof -
  obtain m0 where "bitmap_parselist bp m n = parselist_loop (bp @ [NUL]) (length (takeWhile (\<lambda>c. c \<noteq> NEWLINE) bp)) NUL 0 m0 n"
      "length m0 = length m"
    using bitmap_parselist_start [OF assms, of bp] by blast
  then show ?thesis
    using parselist_loop_total [where buflen = "length (takeWhile (\<lambda>c. c \<noteq> NEWLINE) bp)" and buf = "bp @ [NUL]" and m = m0 and n = n] assms length_takeWhile_le [of "\<lambda>c. c \<noteq> NEWLINE" bp]
    by auto
qed

section \<open>The readers never leave their buffers\<close>

definition wf_sysfs :: "sysfs \<Rightarrow> bool" where
  "wf_sysfs fs \<longleftrightarrow> length (page fs) = PAGE_SIZE \<and> wf_cpus (stack_cpus fs) \<and> nprocs fs \<le> 1024"

text \<open>\<open>yields m P\<close>: no access outside of a buffer, and a result satisfies \<open>P\<close>.\<close>

definition yields :: "'a result \<Rightarrow> ('a \<Rightarrow> bool) \<Rightarrow> bool" where
  "yields m P \<longleftrightarrow> (\<exists>r. m = Some r \<and> (\<forall>x. r = Inr x \<longrightarrow> P x) \<and> (\<forall>e. r = Inl e \<longrightarrow> e < 0))"

lemma yields_ok [simp]: "yields (ok x) P = P x"
  by (simp add: yields_def ok_def)

lemma yields_err: "0 < e \<Longrightarrow> yields (err e) P"
  by (simp add: yields_def err_def)

lemma yields_errno [simp]: "yields (err EINVAL) P" "yields (err ENOMEM) P" "yields (err EIO) P" "yields (err ENAMETOOLONG) P"
  by (simp_all add: yields_err errno_defs)

lemma yields_attempt: "yields m P \<Longrightarrow> (\<And>x. P x \<Longrightarrow> yields (f x) Q) \<Longrightarrow> yields (attempt m f) Q"
  by (auto simp: yields_def attempt_def split: sum.splits)

lemma yields_or_error: "yields m P \<Longrightarrow> 0 < e \<Longrightarrow> yields (or_error m e) P"
  by (auto simp: yields_def or_error_def ok_def err_def split: sum.splits)

lemma errno_pos [simp]: "0 < EINVAL" "0 < ENOMEM" "0 < EIO" "0 < ENAMETOOLONG"
  by (simp_all add: errno_defs)

lemma or_error_ok: "or_error m e = ok x \<Longrightarrow> m = ok x"
proof (cases m)
  case (Some r)
  then show "or_error m e = ok x \<Longrightarrow> m = ok x" by (cases r) (auto simp: or_error_def ok_def err_def)
qed (simp add: or_error_def ok_def)

lemma yields_mono: "yields m P \<Longrightarrow> (\<And>x. P x \<Longrightarrow> Q x) \<Longrightarrow> yields m Q"
  by (auto simp: yields_def)

lemma read_file_contents:
  assumes "length buf = PAGE_SIZE" "open_file fs f path = Some (Some contents)" "alloc fs (f @ ''/read_file'') path" "length path < PATH_MAX"
  shows "\<exists>rest. read_file fs f buf (PAGE_SIZE - 1) path = ok (take (PAGE_SIZE - 1) contents @ NUL # rest) \<and>
    length (take (PAGE_SIZE - 1) contents @ NUL # rest) = PAGE_SIZE"
proof -
  define ss where "ss = min (PAGE_SIZE - 1) (length contents)"
  define b where "b = take ss contents @ drop ss buf"
  have ss: "ss < PAGE_SIZE" "length (take ss contents) = ss" by (auto simp: ss_def PAGE_SIZE_def)
  have b: "length b = PAGE_SIZE" using ss assms(1) by (simp add: b_def)
  have "read_file fs f buf (PAGE_SIZE - 1) path = ok (b[ss := NUL])"
    using assms ss(1) b unfolding b_def ss_def by (simp add: read_file_def Let_def wr_in del: wr_eq_Some)
  moreover have "take ss contents = take (PAGE_SIZE - 1) contents" by (simp add: ss_def min_def)
  moreover have "b[ss := NUL] = take ss contents @ NUL # drop (Suc ss) buf"
    using ss assms(1) by (simp add: b_def list_update_append Cons_nth_drop_Suc [symmetric])
  ultimately show ?thesis using b by (metis length_list_update)
qed


lemma yields_read_file:
  assumes "wf_sysfs fs"
  shows "yields (read_file fs f (page fs) (PAGE_SIZE - 1) path) (\<lambda>buf. length buf = PAGE_SIZE)"
proof -
  have pg: "length (page fs) = PAGE_SIZE" using assms by (simp add: wf_sysfs_def)
  show ?thesis
  proof (cases "alloc fs (f @ ''/read_file'') path \<and> length path < PATH_MAX")
    case True
    show ?thesis
    proof (cases "open_file fs f path")
      case (Some r)
      then show ?thesis
        using True read_file_contents [OF pg, of fs f path] by (cases r) (simp add: read_file_def, fastforce)
    qed (use True in \<open>simp add: read_file_def\<close>)
  qed (auto simp: read_file_def)
qed

lemma yields_read:
  assumes "wf_sysfs fs" "\<And>buf. length buf = PAGE_SIZE \<Longrightarrow> yields (g buf) P"
  shows "yields (attempt (or_error (read_file fs f (page fs) (PAGE_SIZE - 1) path) EINVAL) g) P"
  by (rule yields_attempt [OF yields_or_error [OF yields_read_file [OF assms(1)]]]) (simp_all add: assms(2))

lemma yields_read_long:
  assumes "wf_sysfs fs"
  shows "yields (read_long fs path) (\<lambda>_. True)"
  unfolding read_long_def
proof (cases "alloc fs ''read_long'' path", simp_all only: if_True if_False not_True_eq_False not_False_eq_True)
  show "yields (attempt (or_error (read_file fs ''read_long'' (page fs) (PAGE_SIZE - 1) path) EINVAL) (\<lambda>buf.
    case scan_long (cstring buf) of None \<Rightarrow> err EIO | Some v \<Rightarrow> ok v)) (\<lambda>_. True)"
    by (rule yields_read [OF assms]) (simp split: option.split)
qed simp

lemma yields_read_string:
  assumes "wf_sysfs fs"
  shows "yields (read_string fs path) (\<lambda>_. True)"
  unfolding read_string_def
proof (cases "alloc fs ''read_string'' path", simp_all only: if_True if_False not_True_eq_False not_False_eq_True)
  show "yields (attempt (or_error (read_file fs ''read_string'' (page fs) (PAGE_SIZE - 1) path) EINVAL) (\<lambda>buf.
        if \<not> alloc fs ''strdup'' path then err ENOMEM
        else let p = cstring buf in
          ok (if p \<noteq> [] \<and> last p = NEWLINE then butlast p else p))) (\<lambda>_. True)"
    by (rule yields_read [OF assms]) (simp add: Let_def)
qed simp

lemma yields_read_bitmap:
  assumes "wf_sysfs fs" "wf_cpus m"
  shows "yields (read_bitmap fs m (nprocs fs) path) wf_cpus"
  unfolding read_bitmap_def
proof (cases "alloc fs ''read_bitmap'' path", simp_all only: if_True if_False not_True_eq_False not_False_eq_True)
  have m: "backed m (nprocs fs)" "0 < length m" using assms by (simp_all add: wf_cpus_def wf_sysfs_def)
  have "yields (do { (error, bmap) \<leftarrow> bitmap_parse buf PAGE_SIZE m (nprocs fs); if error \<noteq> 0 then err EINVAL else ok bmap }) wf_cpus"
    if "length buf = PAGE_SIZE" for buf
    using bitmap_parse_total [OF that m] assms(2) by (auto simp: wf_cpus_def)
  then show "yields (attempt (or_error (read_file fs ''read_bitmap'' (page fs) (PAGE_SIZE - 1) path) EINVAL)
      (\<lambda>buf. do { (error, bmap) \<leftarrow> bitmap_parse buf PAGE_SIZE m (nprocs fs); if error \<noteq> 0 then err EINVAL else ok bmap })) wf_cpus"
    by (rule yields_read [OF assms(1)])
qed simp

lemma yields_read_parselist:
  assumes "wf_sysfs fs"
  shows "yields (read_bitmap_parselist fs (stack_cpus fs) (nprocs fs) path) wf_cpus"
  unfolding read_bitmap_parselist_def
proof (cases "alloc fs ''read_bitmap_parselist'' path", simp_all only: if_True if_False not_True_eq_False not_False_eq_True)
  have m: "backed (stack_cpus fs) (nprocs fs)" using assms by (simp add: wf_cpus_def wf_sysfs_def)
  have "yields (do { (error, bmap) \<leftarrow> bitmap_parselist (cstring buf) (stack_cpus fs) (nprocs fs); if error \<noteq> 0 then err EINVAL else ok bmap }) wf_cpus"
    for buf
    using bitmap_parselist_total [OF m, of "cstring buf"] assms by (auto simp: wf_cpus_def wf_sysfs_def)
  then show "yields (attempt (or_error (read_file fs ''read_bitmap_parselist'' (page fs) (PAGE_SIZE - 1) path) EINVAL)
      (\<lambda>buf. do { (error, bmap) \<leftarrow> bitmap_parselist (cstring buf) (stack_cpus fs) (nprocs fs);
        if error \<noteq> 0 then err EINVAL else ok bmap })) wf_cpus"
    by (rule yields_read [OF assms])
qed simp

definition wf_cache :: "nat \<Rightarrow> cache_topology option \<Rightarrow> bool" where
  "wf_cache index p \<longleftrightarrow> (\<forall>c. p = Some c \<longrightarrow> wf_cpus (shared_cpu_map c) \<and> cache_index c = int index)"

lemma yields_cache:
  assumes "wf_sysfs fs"
  shows "yields (collect_cache_topology fs cpu index) (wf_cache index)"
proof -
  note rl = yields_read_long [OF assms] and rs = yields_read_string [OF assms]
  have rb: "yields (read_bitmap fs CPU_ZERO (nprocs fs) path) wf_cpus" for path
    by (rule yields_read_bitmap [OF assms]) simp
  show ?thesis
    unfolding collect_cache_topology_def Let_def
    by (simp add: wf_cache_def zero_cache_def yields_ok del: One_nat_def
        | intro conjI impI yields_attempt [OF rl] yields_attempt [OF rs] yields_attempt [OF rb] 
        | rule yields_attempt [where P = "\<lambda>p. shared_cpu_map p = CPU_ZERO \<and> cache_index p = int index"])+
qed

lemma yields_caches:
  assumes "wf_sysfs fs"
  shows "\<exists>cs. collect_caches fs cpu is = Some cs \<and> (\<forall>c \<in> set cs. wf_cpus (shared_cpu_map c))"
proof (induction "is")
  case (Cons i "is")
  obtain r where "collect_cache_topology fs cpu i = Some r" "\<forall>x. r = Inr x \<longrightarrow> wf_cache i x"
    using yields_cache [OF assms, of cpu i] by (auto simp: yields_def)
  then show ?case using Cons by (auto simp: wf_cache_def split: sum.split option.split)
qed simp

definition wf_cpu :: "nat \<Rightarrow> cpu_topology \<Rightarrow> bool" where
  "wf_cpu cpu t \<longleftrightarrow> cpu_id t = cpu \<and> (\<forall>c \<in> set (cache_topology_list t). wf_cpus (shared_cpu_map c))"

lemma yields_cpu:
  assumes "wf_sysfs fs"
  shows "yields (collect_cpu_topology fs cpu) (wf_cpu cpu)"
proof -
  note rl = yields_or_error [OF yields_read_long [OF assms], of EINVAL]
  have rb: "yields (or_error (read_bitmap fs CPU_ZERO (nprocs fs) path) EINVAL) wf_cpus" for path
    by (rule yields_or_error [OF yields_read_bitmap [OF assms]]) simp_all
  obtain cs where cs: "collect_caches fs cpu [0..<10] = Some cs" "\<forall>c \<in> set cs. wf_cpus (shared_cpu_map c)"
    using yields_caches [OF assms, of cpu "[0..<10]"] by blast
  show ?thesis
    unfolding collect_cpu_topology_def Let_def
    by (simp add: wf_cpu_def zero_cpu_def cs yields_ok split: option.split del: upt_conv_Cons upt_rec_numeral
        | intro conjI impI allI yields_attempt [OF rl] yields_attempt [OF rb])+
qed

lemma yields_each:
  assumes "\<And>i. i \<in> set is \<Longrightarrow> yields (f i) (Q i)"
  shows "yields (collect_each f is) (\<lambda>ps. list_all2 Q is ps)"
  using assms
proof (induction "is")
  case (Cons i "is")
  show ?case unfolding collect_each.simps
  proof (rule yields_attempt, rule yields_or_error)
    show "yields (f i) (Q i)" using Cons.prems by simp
    show "yields (attempt (collect_each f is) (\<lambda>ps. ok (p # ps))) (list_all2 Q (i # is))" if "Q i p" for p
      by (rule yields_attempt [OF Cons.IH]) (use Cons.prems that in auto)
  qed simp
qed simp

lemma yields_node:
  assumes "wf_sysfs fs"
  shows "yields (collect_node_topology fs node) (\<lambda>p. node_number p = int node \<and> wf_cpus (cpumap p))"
proof -
  have rb: "yields (or_error (read_bitmap fs CPU_ZERO (nprocs fs) path) ENOMEM) wf_cpus" for path
    by (rule yields_or_error [OF yields_read_bitmap [OF assms]]) simp_all
  show ?thesis unfolding collect_node_topology_def Let_def by (auto intro!: yields_attempt [OF rb])
qed

text \<open>What a successful collection gives, with the set of the online CPUs.\<close>

definition collected :: "sysfs \<Rightarrow> cpu_topology list \<times> node_topology list \<Rightarrow> bool" where
  "collected fs r \<longleftrightarrow> (\<exists>online. read_bitmap_parselist fs (stack_cpus fs) (nprocs fs) ''/sys/devices/system/cpu/online'' = ok online \<and>
     map cpu_id (fst r) = filter (\<lambda>cpu. CPU_ISSET cpu online) [0..<nprocs fs] \<and> wf_topology (fst r) \<and>
     map node_number (snd r) = map int [0..<numa_nodes fs])"

lemma collect_topology_yields:
  assumes "wf_sysfs fs"
  shows "yields (collect_topology fs) (collected fs)"
proof (cases "numa_ok fs")
  case False
  then show ?thesis by (simp add: collect_topology_def)
next
  case True
  define R where "R = or_error (read_bitmap_parselist fs (stack_cpus fs) (nprocs fs) ''/sys/devices/system/cpu/online'') EINVAL"
  have "yields R wf_cpus" unfolding R_def by (rule yields_or_error [OF yields_read_parselist [OF assms]]) simp
  then have R: "yields R (\<lambda>online. R = ok online)" by (auto simp: yields_def ok_def)
  have online: "read_bitmap_parselist fs (stack_cpus fs) (nprocs fs) ''/sys/devices/system/cpu/online'' = ok online" if "R = ok online" for online
    using that unfolding R_def by (rule or_error_ok)
  have cpus: "yields (collect_each (collect_cpu_topology fs) is) (\<lambda>tops. map cpu_id tops = is \<and> wf_topology tops)" for "is"
  proof (rule yields_mono)
    show "yields (collect_each (collect_cpu_topology fs) is) (\<lambda>tops. list_all2 wf_cpu is tops)"
      by (rule yields_each) (rule yields_cpu [OF assms])
    fix tops assume "list_all2 wf_cpu is tops"
    then show "map cpu_id tops = is \<and> wf_topology tops"
      by (induction rule: list_all2_induct) (auto simp: wf_cpu_def wf_topology_def)
  qed
  have nodes: "yields (collect_each (collect_node_topology fs) is) (\<lambda>ns. map node_number ns = map int is)" for "is"
  proof (rule yields_mono)
    show "yields (collect_each (collect_node_topology fs) is) (\<lambda>ns. list_all2 (\<lambda>i p. node_number p = int i \<and> wf_cpus (cpumap p)) is ns)"
      by (rule yields_each) (rule yields_node [OF assms])
    fix ns assume "list_all2 (\<lambda>i p. node_number p = int i \<and> wf_cpus (cpumap p)) is ns"
    then show "map node_number ns = map int is" by (induction rule: list_all2_induct) auto
  qed
  have R': "yields R (\<lambda>online. read_bitmap_parselist fs (stack_cpus fs) (nprocs fs) ''/sys/devices/system/cpu/online'' = ok online)"
    by (rule yields_mono [OF R online])
  show ?thesis
    unfolding collect_topology_def R_def [symmetric] using True
    by (auto intro!: yields_attempt [OF R'] yields_attempt [OF cpus] yields_attempt [OF nodes] simp: collected_def)
qed


section \<open>What the readers give\<close>

lemma cstring_line: "NUL \<notin> set s \<Longrightarrow> cstring (s @ NUL # rest) = s"
  by (simp add: cstring_def takeWhile_append takeWhile_eq_all_conv)

lemma digit_not_NUL: "isdigit c \<or> c = CHR ''-'' \<or> c = CHR '','' \<Longrightarrow> c \<noteq> NUL"
  by (auto simp: code_eq_iff isdigit_def)

lemma list_text_no_NUL: "NUL \<notin> set (list_text rs)"
  using list_text_chars [of NUL rs] digit_not_NUL by blast

text \<open>Function \<open>f\<close> opens the file at a path and finds \<open>s\<close> in it.\<close>

definition opens :: "sysfs \<Rightarrow> string \<Rightarrow> string \<Rightarrow> string \<Rightarrow> bool" where
  "opens fs f path s \<longleftrightarrow> open_file fs f path = Some (Some s) \<and> length s < PAGE_SIZE \<and> alloc fs (f @ ''/read_file'') path \<and> length path < PATH_MAX"

lemma read_opens:
  assumes "length (page fs) = PAGE_SIZE" "opens fs f path s"
  shows "\<exists>rest. or_error (read_file fs f (page fs) (PAGE_SIZE - 1) path) e = ok (s @ NUL # rest) \<and> length (s @ NUL # rest) = PAGE_SIZE"
proof -
  have "length s \<le> PAGE_SIZE - 1" using assms(2) by (simp add: opens_def PAGE_SIZE_def)
  then have "take (PAGE_SIZE - 1) s = s" by (rule take_all)
  then show ?thesis using read_file_contents [of "page fs" fs f path s] assms by (auto simp: opens_def or_error_def ok_def)
qed

lemma wf_sysfs_page: "wf_sysfs fs \<Longrightarrow> length (page fs) = PAGE_SIZE"
  by (simp add: wf_sysfs_def)

lemma attempt_ok [simp]: "attempt (ok x) f = f x"
  by (simp add: attempt_def ok_def)

lemma read_bitmap_parselist_ranges:
  assumes "wf_sysfs fs" "opens fs ''read_bitmap_parselist'' path (list_text rs @ [NEWLINE])" "alloc fs ''read_bitmap_parselist'' path"
    and "ranges_ok rs n" "rs \<noteq> []" "n \<le> 1024" "wf_cpus m"
  shows "\<exists>m'. read_bitmap_parselist fs m n path = ok m' \<and> wf_cpus m' \<and> (\<forall>j < n. bm_bit m' j \<longleftrightarrow> j \<in> ranges_set rs)"
proof -
  obtain rest where r: "or_error (read_file fs ''read_bitmap_parselist'' (page fs) (PAGE_SIZE - 1) path) EINVAL = ok ((list_text rs @ [NEWLINE]) @ NUL # rest)"
    using read_opens [OF wf_sysfs_page [OF assms(1)] assms(2)] by blast
  have "NUL \<notin> set (list_text rs @ [NEWLINE])" using list_text_no_NUL by (simp add: code_eq_iff)
  note c = cstring_line [OF this]
  have "backed m n" using assms(6,7) by (simp add: wf_cpus_def)
  then obtain m' where m': "bitmap_parselist (list_text rs @ [NEWLINE]) m n = Some (0, m')" "length m' = length m"
      "\<forall>j < n. bm_bit m' j \<longleftrightarrow> j \<in> ranges_set rs"
    using bitmap_parselist_ranges [OF assms(4,5), where rest = "[NEWLINE]" and m = m] assms(6) by auto
  then show ?thesis using assms(3,7) unfolding read_bitmap_parselist_def r attempt_ok c by (simp add: wf_cpus_def)
qed

lemma read_bitmap_text:
  assumes "wf_sysfs fs" "opens fs ''read_bitmap'' path (hex_text b n @ [NEWLINE])" "alloc fs ''read_bitmap'' path"
    and "backed b n" "0 < n" "n \<le> 1024" "wf_cpus m"
  shows "\<exists>m'. read_bitmap fs m n path = ok m' \<and> wf_cpus m' \<and> (\<forall>j < n. bm_bit m' j \<longleftrightarrow> bm_bit b j)"
proof -
  obtain rest where r: "or_error (read_file fs ''read_bitmap'' (page fs) (PAGE_SIZE - 1) path) EINVAL = ok ((hex_text b n @ [NEWLINE]) @ NUL # rest)"
      "length ((hex_text b n @ [NEWLINE]) @ NUL # rest) = PAGE_SIZE"
    using read_opens [OF wf_sysfs_page [OF assms(1)] assms(2)] by blast
  obtain dss where d: "hex_text b n = comma_text dss" "dss \<noteq> []" "hex_chunks dss" "\<forall>ds \<in> set dss. hexval 0 ds < 2 ^ 32"
      "\<And>i. bit (number 0 dss) i \<longleftrightarrow> i < n \<and> bm_bit b i"
    using hex_text_chunks [OF assms(5) _ assms(4)] assms(6) by auto
  have lt: "number 0 dss < 2 ^ n" by (rule below_if_bits) (simp add: d(5))
  define tail where "tail = [NEWLINE] @ NUL # rest"
  have e: "PAGE_SIZE = length (comma_text dss) + length tail" using r(2) by (simp add: tail_def d(1))
  have "tail = [NEWLINE] @ NUL # rest \<and> list_all isspace [NEWLINE] \<and> length [NEWLINE] < length tail"
    by (simp add: tail_def isspace_def)
  then have t: "terminated tail (length tail)" unfolding terminated_def by blast
  have bk: "backed m n" using assms(6,7) by (simp add: wf_cpus_def)
  obtain m' where m': "bitmap_parse' (comma_text dss @ tail) PAGE_SIZE m n = Some (0, m')" "length m' = length m"
      "\<forall>i < n. bm_bit m' i \<longleftrightarrow> bit (number 0 dss) i"
    using bitmap_parse_number [OF d(3,2) t bk assms(5)] d(4) lt unfolding e by auto
  have "(hex_text b n @ [NEWLINE]) @ NUL # rest = comma_text dss @ tail" by (simp add: d(1) tail_def)
  then show ?thesis
    using m' assms(3,7) unfolding read_bitmap_def r(1) attempt_ok bitmap_parse_def by (simp add: d(5) wf_cpus_def)
qed


text \<open>What follows a number does not start with a digit.\<close>

abbreviation no_digit :: "string \<Rightarrow> bool" where
  "no_digit u \<equiv> (case u of [] \<Rightarrow> True | c # _ \<Rightarrow> \<not> isdigit c)"

lemma scan_digits:
  assumes "ds \<noteq> []" "list_all isdigit ds" "no_digit u"
  shows "scan_long (ds @ u) = Some (min (2 ^ 63 - 1) (foldl (\<lambda>v c. v * 10 + int (code c - 48)) 0 ds))"
proof -
  obtain d ds' where d: "ds = d # ds'" using assms(1) by (cases ds) auto
  have "isdigit d" using assms(2) d by simp
  note n = isdigit_not [OF this]
  have p: "d \<noteq> CHR ''+''" using \<open>isdigit d\<close> by (auto simp: isdigit_def code_def)
  have "0 \<le> foldl (\<lambda>v c. v * 10 + int (code c - 48)) v es" if "0 \<le> v" for v :: int and es :: string
    using that by (induction es arbitrary: v) auto
  from this [of 0 ds] have "- (2 ^ 63) \<le> min (2 ^ 63 - 1) (foldl (\<lambda>v c. v * 10 + int (code c - 48)) 0 ds)" by simp
  moreover have "takeWhile isdigit (ds @ u) = ds"
    using assms(2,3) by (simp add: takeWhile_append list_all_iff split: list.splits)
  ultimately show ?thesis using n p by (simp add: scan_long_def d Let_def)
qed

lemma dec_value: "foldl (\<lambda>v c. v * 10 + int (code c - 48)) 0 (dec n) = int n"
proof (induction n rule: dec.induct)
  case (1 n)
  have "int (n div 10) * 10 + int (n mod 10) = int n" by presburger
  then show ?case using 1 by (cases "n < 10") (simp_all add: dec_digit dec_step code_digit)
qed

lemma no_NUL_dec: "NUL \<notin> set (dec v)"
  using dec_facts [of v] isdigit_not [of NUL] by (auto simp: list_all_iff)

lemma read_long_dec:
  assumes "wf_sysfs fs" "opens fs ''read_long'' path (dec v @ u)" "alloc fs ''read_long'' path" "v < 2 ^ 63"
    and "no_digit u" "NUL \<notin> set u"
  shows "read_long fs path = ok (int v)"
proof -
  obtain rest where r: "or_error (read_file fs ''read_long'' (page fs) (PAGE_SIZE - 1) path) EINVAL = ok ((dec v @ u) @ NUL # rest)"
    using read_opens [OF wf_sysfs_page [OF assms(1)] assms(2)] by blast
  have "NUL \<notin> set (dec v @ u)" using no_NUL_dec assms(6) by simp
  note c = cstring_line [OF this]
  have "int v \<le> 2 ^ 63 - 1" using assms(4) by simp
  then have "scan_long (dec v @ u) = Some (int v)"
    using scan_digits [OF _ _ assms(5), of "dec v"] dec_facts [of v] by (simp add: dec_value)
  then show ?thesis using assms(3) unfolding read_long_def r attempt_ok c by simp
qed

lemma read_string_line:
  assumes "wf_sysfs fs" "opens fs ''read_string'' path (s @ [NEWLINE])" "alloc fs ''read_string'' path" "alloc fs ''strdup'' path"
    and "NUL \<notin> set s"
  shows "read_string fs path = ok s"
proof -
  obtain rest where r: "or_error (read_file fs ''read_string'' (page fs) (PAGE_SIZE - 1) path) EINVAL = ok ((s @ [NEWLINE]) @ NUL # rest)"
    using read_opens [OF wf_sysfs_page [OF assms(1)] assms(2)] by blast
  have "NUL \<notin> set (s @ [NEWLINE])" using assms(5) by (simp add: code_eq_iff)
  note c = cstring_line [OF this]
  show ?thesis using assms(3,4) unfolding read_string_def r attempt_ok c by simp
qed


section \<open>A complete tree of files\<close>

text \<open>The file at a path holds a decimal number, or the CPU map \<open>S\<close> in the hexadecimal format of the kernel.\<close>

definition has_long :: "sysfs \<Rightarrow> string \<Rightarrow> nat \<Rightarrow> bool" where
  "has_long fs path v \<longleftrightarrow> opens fs ''read_long'' path (dec v @ [NEWLINE]) \<and> alloc fs ''read_long'' path \<and> v < 2 ^ 63"

definition has_map :: "sysfs \<Rightarrow> string \<Rightarrow> nat set \<Rightarrow> bool" where
  "has_map fs path S \<longleftrightarrow> (\<exists>b. opens fs ''read_bitmap'' path (hex_text b (nprocs fs) @ [NEWLINE]) \<and> backed b (nprocs fs) \<and> bm_set b (nprocs fs) = S) \<and>
     alloc fs ''read_bitmap'' path \<and> 0 < nprocs fs"

definition has_list :: "sysfs \<Rightarrow> string \<Rightarrow> nat set \<Rightarrow> bool" where
  "has_list fs path S \<longleftrightarrow> (\<exists>rs. opens fs ''read_bitmap_parselist'' path (list_text rs @ [NEWLINE]) \<and> ranges_ok rs (nprocs fs) \<and> rs \<noteq> [] \<and> ranges_set rs = S) \<and>
     alloc fs ''read_bitmap_parselist'' path"

lemma read_has_map:
  assumes "wf_sysfs fs" "has_map fs path S"
  shows "\<exists>m. read_bitmap fs CPU_ZERO (nprocs fs) path = ok m \<and> wf_cpus m \<and> bm_set m (nprocs fs) = S"
proof -
  obtain b where b: "opens fs ''read_bitmap'' path (hex_text b (nprocs fs) @ [NEWLINE])" "backed b (nprocs fs)" "bm_set b (nprocs fs) = S"
      "alloc fs ''read_bitmap'' path" "0 < nprocs fs"
    using assms(2) by (auto simp: has_map_def)
  have "nprocs fs \<le> 1024" using assms(1) by (simp add: wf_sysfs_def)
  from read_bitmap_text [OF assms(1) b(1,4,2,5) this wf_CPU_ZERO] show ?thesis using b(3) by (auto simp: bm_set_def)
qed

lemma read_has_list:
  assumes "wf_sysfs fs" "has_list fs path S"
  shows "\<exists>m. read_bitmap_parselist fs (stack_cpus fs) (nprocs fs) path = ok m \<and> wf_cpus m \<and> (\<forall>j < nprocs fs. CPU_ISSET j m \<longleftrightarrow> j \<in> S)"
proof -
  obtain rs where r: "opens fs ''read_bitmap_parselist'' path (list_text rs @ [NEWLINE])" "ranges_ok rs (nprocs fs)" "rs \<noteq> []" "ranges_set rs = S"
      "alloc fs ''read_bitmap_parselist'' path"
    using assms(2) by (auto simp: has_list_def)
  have "nprocs fs \<le> 1024" "wf_cpus (stack_cpus fs)" using assms(1) by (simp_all add: wf_sysfs_def)
  from read_bitmap_parselist_ranges [OF assms(1) r(1,5,2,3) this] show ?thesis
    using r(4) by (auto simp: CPU_ISSET_iff in_cpus_of)
qed

lemma read_has_long:
  assumes "wf_sysfs fs" "has_long fs path v"
  shows "read_long fs path = ok (int v)"
  using assms(2) unfolding has_long_def
  by (elim conjE) (rule read_long_dec [OF assms(1)], assumption+, simp_all add: isdigit_def code_eq_iff)

text \<open>The file at a path holds the line \<open>s\<close>, or a number followed by a unit.\<close>

definition has_string :: "sysfs \<Rightarrow> string \<Rightarrow> string \<Rightarrow> bool" where
  "has_string fs path s \<longleftrightarrow> opens fs ''read_string'' path (s @ [NEWLINE]) \<and> alloc fs ''read_string'' path \<and> alloc fs ''strdup'' path \<and> NUL \<notin> set s"

definition has_size :: "sysfs \<Rightarrow> string \<Rightarrow> nat \<Rightarrow> string \<Rightarrow> bool" where
  "has_size fs path v u \<longleftrightarrow> opens fs ''read_long'' path (dec v @ u @ [NEWLINE]) \<and> alloc fs ''read_long'' path \<and>
     v < 2 ^ 53 \<and> no_digit u \<and> NUL \<notin> set u \<and> has_string fs path (dec v @ u)"

lemma read_has_string: "wf_sysfs fs \<Longrightarrow> has_string fs path s \<Longrightarrow> read_string fs path = ok s"
  by (simp add: has_string_def read_string_line)

lemma read_has_size:
  assumes "wf_sysfs fs" "has_size fs path v u"
  shows "read_long fs path = ok (int v)" "read_string fs path = ok (dec v @ u)" "wrap_long (int v * 1024) = 1024 * int v"
proof -
  note S = assms(2) [unfolded has_size_def]
  have "no_digit (u @ [NEWLINE])" "NUL \<notin> set (u @ [NEWLINE])" "v < 2 ^ 63"
    using S by (auto simp: isdigit_def code_eq_iff split: list.splits)
  then show "read_long fs path = ok (int v)" using read_long_dec [OF assms(1)] S by blast
  show "read_string fs path = ok (dec v @ u)" using read_has_string [OF assms(1)] S by blast
  have "int v * 1024 < 2 ^ 63" "- (2 ^ 63) \<le> int v * 1024" using S by simp_all
  then show "wrap_long (int v * 1024) = 1024 * int v" by (simp add: wrap_long_def signed_take_bit_int_eq_self)
qed

lemma or_error_of_ok [simp]: "or_error (ok x) e = ok x"
  by (simp add: or_error_def ok_def)

text \<open>What the kernel shows of a CPU: core, package and sibling sets.\<close>

record cpu_facts =
  core :: nat
  package :: nat
  cores :: "nat set"
  threads :: "nat set"

definition cpu_shown :: "sysfs \<Rightarrow> nat \<Rightarrow> cpu_facts \<Rightarrow> bool" where
  "cpu_shown fs cpu F \<longleftrightarrow>
     alloc fs ''collect_cpu_topology'' (cpu_path cpu) \<and> alloc fs ''cpu_topology'' (cpu_path cpu) \<and>
     has_long fs (cpu_path cpu @ ''/topology/core_id'') (core F) \<and>
     has_map fs (cpu_path cpu @ ''/topology/core_siblings'') (cores F) \<and>
     has_long fs (cpu_path cpu @ ''/topology/physical_package_id'') (package F) \<and>
     has_map fs (cpu_path cpu @ ''/topology/thread_siblings'') (threads F)"

definition matches :: "sysfs \<Rightarrow> cpu_topology \<Rightarrow> cpu_facts \<Rightarrow> bool" where
  "matches fs t F \<longleftrightarrow> core_id t = int (core F) \<and> physical_package_id t = int (package F) \<and>
     bm_set (core_siblings t) (nprocs fs) = cores F \<and> bm_set (thread_siblings t) (nprocs fs) = threads F"

text \<open>The NUMA node of a CPU is the first whose link its directory has, its caches are those the loop over them collects.\<close>

definition found :: "sysfs \<Rightarrow> cpu_topology \<Rightarrow> bool" where
  "found fs t \<longleftrightarrow>
     node_id t = (case List.find (\<lambda>node. stat_ok fs (cpu_path (cpu_id t) @ ''/node'' @ dec node)) [0..<numa_nodes fs] of None \<Rightarrow> 0 | Some node \<Rightarrow> int node) \<and>
     collect_caches fs (cpu_id t) [0..<10] = Some (cache_topology_list t)"

lemma collect_cpu_shown:
  assumes "wf_sysfs fs" "cpu_shown fs cpu F"
  shows "\<exists>t. collect_cpu_topology fs cpu = ok t \<and> cpu_id t = cpu \<and> wf_cpu cpu t \<and> matches fs t F \<and> found fs t"
proof -
  define p where "p = cpu_path cpu"
  note S = assms(2) [unfolded cpu_shown_def p_def [symmetric]]
  obtain cm where cm: "read_bitmap fs CPU_ZERO (nprocs fs) (p @ ''/topology/core_siblings'') = ok cm" "bm_set cm (nprocs fs) = cores F"
    using read_has_map [OF assms(1)] S by blast
  obtain tm where tm: "read_bitmap fs CPU_ZERO (nprocs fs) (p @ ''/topology/thread_siblings'') = ok tm" "bm_set tm (nprocs fs) = threads F"
    using read_has_map [OF assms(1)] S by blast
  obtain cs where cs: "collect_caches fs cpu [0..<10] = Some cs" "\<forall>c \<in> set cs. wf_cpus (shared_cpu_map c)"
    using yields_caches [OF assms(1), of cpu "[0..<10]"] by blast
  have l: "read_long fs (p @ ''/topology/core_id'') = ok (int (core F))" "read_long fs (p @ ''/topology/physical_package_id'') = ok (int (package F))"
    using read_has_long [OF assms(1)] S by blast+
  have len: "length p < PATH_MAX" using S by (simp add: has_long_def opens_def)
  define v where "v = (case List.find (\<lambda>node. stat_ok fs (p @ ''/node'' @ dec node)) [0..<numa_nodes fs] of
     None \<Rightarrow> 0 | Some node \<Rightarrow> int node)"
  define t where "t = (zero_cpu cpu)\<lparr>core_id := int (core F), core_siblings := cm, physical_package_id := int (package F),
     thread_siblings := tm, node_id := v, cache_topology_list := cs\<rparr>"
  have z: "core_siblings (zero_cpu cpu) = CPU_ZERO" "thread_siblings (zero_cpu cpu) = CPU_ZERO" by (simp_all add: zero_cpu_def)
  have "alloc fs ''collect_cpu_topology'' p" "alloc fs ''cpu_topology'' p" "\<not> PATH_MAX \<le> length p" using S len by simp_all
  then have "collect_cpu_topology fs cpu = ok t"
    unfolding collect_cpu_topology_def p_def [symmetric] Let_def t_def v_def
    by (cases "List.find (\<lambda>node. stat_ok fs (p @ ''/node'' @ dec node)) [0..<numa_nodes fs]")
      (simp_all add: l cm(1) tm(1) cs(1) z zero_cpu_def del: upt_conv_Cons upt_rec_numeral)
  moreover have "cpu_id t = cpu \<and> wf_cpu cpu t \<and> matches fs t F"
    using cm(2) tm(2) cs(2) by (simp add: t_def zero_cpu_def wf_cpu_def matches_def)
  moreover have "found fs t"
    using cs(1) by (simp add: found_def t_def v_def p_def zero_cpu_def del: upt_conv_Cons upt_rec_numeral)
  ultimately show ?thesis by blast
qed

lemma collect_each_all:
  assumes "\<And>i. i \<in> set is \<Longrightarrow> \<exists>x. f i = ok x \<and> Q i x"
  shows "\<exists>xs. collect_each f is = ok xs \<and> list_all2 Q is xs"
  using assms
proof (induction "is")
  case (Cons i "is")
  obtain x where x: "f i = ok x" "Q i x" using Cons.prems [of i] by auto
  obtain xs where xs: "collect_each f is = ok xs" "list_all2 Q is xs" using Cons.IH Cons.prems by auto
  show ?case using x xs by simp
qed simp

lemma collect_node_shown:
  assumes "wf_sysfs fs" "has_map fs (''/sys/devices/system/node/node'' @ dec node @ ''/cpumap'') S" "alloc fs ''node_topology'' (dec node)"
  shows "\<exists>t. collect_node_topology fs node = ok t \<and> node_number t = int node \<and> bm_set (cpumap t) (nprocs fs) = S"
  using read_has_map [OF assms(1,2)] assms(3) by (auto simp: collect_node_topology_def)


text \<open>A tree that shows the online CPUs \<open>S\<close>, for each of them \<open>F\<close>, and for each NUMA node the CPUs \<open>N\<close>.\<close>

definition tree :: "sysfs \<Rightarrow> nat set \<Rightarrow> (nat \<Rightarrow> cpu_facts) \<Rightarrow> (nat \<Rightarrow> nat set) \<Rightarrow> bool" where
  "tree fs S F N \<longleftrightarrow> wf_sysfs fs \<and> numa_ok fs \<and> has_list fs ''/sys/devices/system/cpu/online'' S \<and>
     (\<forall>cpu \<in> S. cpu_shown fs cpu (F cpu)) \<and>
     (\<forall>node < numa_nodes fs. has_map fs (''/sys/devices/system/node/node'' @ dec node @ ''/cpumap'') (N node) \<and> alloc fs ''node_topology'' (dec node))"

lemma has_list_bound: "has_list fs path S \<Longrightarrow> i \<in> S \<Longrightarrow> i < nprocs fs"
  unfolding has_list_def ranges_set_def ranges_ok_def by fastforce

lemma collect_tree:
  assumes "tree fs S F N"
  shows "\<exists>tops nodes. collect_topology fs = ok (tops, nodes) \<and>
    list_all2 (\<lambda>cpu t. cpu_id t = cpu \<and> wf_cpu cpu t \<and> matches fs t (F cpu) \<and> found fs t) (sorted_list_of_set S) tops \<and>
    list_all2 (\<lambda>node t. node_number t = int node \<and> bm_set (cpumap t) (nprocs fs) = N node) [0..<numa_nodes fs] nodes"
proof -
  have fs: "wf_sysfs fs" "numa_ok fs" "has_list fs ''/sys/devices/system/cpu/online'' S" using assms by (simp_all add: tree_def)
  obtain m where m: "read_bitmap_parselist fs (stack_cpus fs) (nprocs fs) ''/sys/devices/system/cpu/online'' = ok m"
      "\<forall>j < nprocs fs. CPU_ISSET j m \<longleftrightarrow> j \<in> S"
    using read_has_list [OF fs(1,3)] by blast
  have S: "S \<subseteq> {0..<nprocs fs}" using has_list_bound [OF fs(3)] by auto
  then have "finite S" using finite_subset by blast
  have l: "filter (\<lambda>cpu. CPU_ISSET cpu m) [0..<nprocs fs] = sorted_list_of_set S"
  proof (rule sorted_distinct_set_unique)
    show "set (filter (\<lambda>cpu. CPU_ISSET cpu m) [0..<nprocs fs]) = set (sorted_list_of_set S)"
      using m(2) S \<open>finite S\<close> by auto
  qed (simp_all add: sorted_wrt_filter)
  obtain tops where t: "collect_each (collect_cpu_topology fs) (sorted_list_of_set S) = ok tops"
      "list_all2 (\<lambda>cpu t. cpu_id t = cpu \<and> wf_cpu cpu t \<and> matches fs t (F cpu) \<and> found fs t) (sorted_list_of_set S) tops"
    using collect_each_all [of "sorted_list_of_set S" "collect_cpu_topology fs" "\<lambda>cpu t. cpu_id t = cpu \<and> wf_cpu cpu t \<and> matches fs t (F cpu) \<and> found fs t"]
      collect_cpu_shown [OF fs(1)] assms \<open>finite S\<close> by (auto simp: tree_def)
  obtain nodes where n: "collect_each (collect_node_topology fs) [0..<numa_nodes fs] = ok nodes"
      "list_all2 (\<lambda>node t. node_number t = int node \<and> bm_set (cpumap t) (nprocs fs) = N node) [0..<numa_nodes fs] nodes"
    using collect_each_all [of "[0..<numa_nodes fs]" "collect_node_topology fs" "\<lambda>node t. node_number t = int node \<and> bm_set (cpumap t) (nprocs fs) = N node"]
      collect_node_shown [OF fs(1)] assms by (auto simp: tree_def)
  have "collect_topology fs = ok (tops, nodes)"
    using fs(2) unfolding collect_topology_def m(1) or_error_of_ok attempt_ok l t(1) n(1) by simp
  then show ?thesis using t(2) n(2) by blast
qed


lemma collect_tree_facts:
  assumes "tree fs S F N"
  shows "\<exists>tops nodes. collect_topology fs = ok (tops, nodes) \<and> map cpu_id tops = sorted_list_of_set S \<and> wf_topology tops \<and>
    (\<forall>t \<in> set tops. matches fs t (F (cpu_id t)) \<and> found fs t) \<and>
    map node_number nodes = map int [0..<numa_nodes fs] \<and> (\<forall>node < numa_nodes fs. bm_set (cpumap (nodes ! node)) (nprocs fs) = N node)"
proof -
  obtain tops nodes where r: "collect_topology fs = ok (tops, nodes)"
      "list_all2 (\<lambda>cpu t. cpu_id t = cpu \<and> wf_cpu cpu t \<and> matches fs t (F cpu) \<and> found fs t) (sorted_list_of_set S) tops"
      "list_all2 (\<lambda>node t. node_number t = int node \<and> bm_set (cpumap t) (nprocs fs) = N node) [0..<numa_nodes fs] nodes"
    using collect_tree [OF assms] by blast
  have "map cpu_id ts = is \<and> (\<forall>t \<in> set ts. wf_cpu (cpu_id t) t \<and> matches fs t (F (cpu_id t)) \<and> found fs t)"
    if "list_all2 (\<lambda>cpu t. cpu_id t = cpu \<and> wf_cpu cpu t \<and> matches fs t (F cpu) \<and> found fs t) is ts" for "is" ts
    using that by (induction rule: list_all2_induct) auto
  from this [OF r(2)] have t: "map cpu_id tops = sorted_list_of_set S" "\<forall>t \<in> set tops. wf_cpu (cpu_id t) t \<and> matches fs t (F (cpu_id t)) \<and> found fs t"
    by blast+
  then have "wf_topology tops" by (auto simp: wf_topology_def wf_cpu_def)
  moreover have "map node_number nodes = map int [0..<numa_nodes fs]" "\<forall>node < numa_nodes fs. bm_set (cpumap (nodes ! node)) (nprocs fs) = N node"
    using r(3) by (auto simp: list_all2_conv_all_nth intro!: nth_equalityI)
  ultimately show ?thesis using r(1) t by blast
qed

text \<open>
  The files of a cache of a CPU. Its size is a number of kilobytes with a unit, and the partition is
  not read on ARM. The file \<open>level\<close> of a cache that does not exist cannot be opened.
\<close>

record cache_facts =
  shown_level :: nat
  shown_type :: string
  shown_kbytes :: nat
  shown_unit :: string
  shown_line :: nat
  shown_sets :: nat
  shown_partition :: nat
  shown_ways :: nat
  shown_cpus :: "nat set"

definition cache_shown :: "sysfs \<Rightarrow> nat \<Rightarrow> nat \<Rightarrow> cache_facts \<Rightarrow> bool" where
  "cache_shown fs cpu index C \<longleftrightarrow> (let prefix = cache_path cpu index in
     alloc fs ''collect_cache_topology'' prefix \<and> alloc fs ''cache_topology'' prefix \<and>
     file_readable fs (prefix @ ''/level'') = 0 \<and>
     has_long fs (prefix @ ''/level'') (shown_level C) \<and>
     has_string fs (prefix @ ''/type'') (shown_type C) \<and>
     has_size fs (prefix @ ''/size'') (shown_kbytes C) (shown_unit C) \<and>
     has_long fs (prefix @ ''/coherency_line_size'') (shown_line C) \<and>
     has_long fs (prefix @ ''/number_of_sets'') (shown_sets C) \<and>
     (\<not> aarch64 fs \<longrightarrow> has_long fs (prefix @ ''/physical_line_partition'') (shown_partition C)) \<and>
     has_long fs (prefix @ ''/ways_of_associativity'') (shown_ways C) \<and>
     has_map fs (prefix @ ''/shared_cpu_map'') (shown_cpus C))"

definition no_cache :: "sysfs \<Rightarrow> nat \<Rightarrow> nat \<Rightarrow> bool" where
  "no_cache fs cpu index \<longleftrightarrow> (let prefix = cache_path cpu index in
     alloc fs ''collect_cache_topology'' prefix \<and> length prefix < PATH_MAX \<and> file_readable fs (prefix @ ''/level'') < 0)"

definition cache_matches :: "sysfs \<Rightarrow> nat \<Rightarrow> cache_facts \<Rightarrow> cache_topology \<Rightarrow> bool" where
  "cache_matches fs index C p \<longleftrightarrow>
     cache_index p = int index \<and> level p = int (shown_level C) \<and> cache_type p = shown_type C \<and>
     cache_size p = 1024 * int (shown_kbytes C) \<and> size_str p = dec (shown_kbytes C) @ shown_unit C \<and>
     coherency_line_size p = int (shown_line C) \<and> number_of_sets p = int (shown_sets C) \<and>
     physical_line_partition p = (if aarch64 fs then 0 else int (shown_partition C)) \<and>
     ways_of_associativity p = int (shown_ways C) \<and> bm_set (shared_cpu_map p) (nprocs fs) = shown_cpus C"

lemma collect_cache_shown:
  assumes "wf_sysfs fs" "cache_shown fs cpu index C"
  shows "\<exists>p. collect_cache_topology fs cpu index = ok (Some p) \<and> cache_matches fs index C p"
proof -
  define f where "f = cache_path cpu index"
  note S = assms(2) [unfolded cache_shown_def Let_def f_def [symmetric]]
  note L = read_has_long [OF assms(1)] and T = read_has_string [OF assms(1)] and Z = read_has_size [OF assms(1)]
  obtain m where m: "read_bitmap fs CPU_ZERO (nprocs fs) (f @ ''/shared_cpu_map'') = ok m" "bm_set m (nprocs fs) = shown_cpus C"
    using read_has_map [OF assms(1)] S by blast
  have len: "length f < PATH_MAX" using S by (simp add: has_string_def opens_def)
  define pt where "pt = (if aarch64 fs then 0 else int (shown_partition C))"
  define p where "p = \<lparr>cache_index = int index, cache_padding = 0, level = int (shown_level C), cache_type = shown_type C,
     cache_size = 1024 * int (shown_kbytes C), size_str = dec (shown_kbytes C) @ shown_unit C, coherency_line_size = int (shown_line C),
     number_of_sets = int (shown_sets C), physical_line_partition = pt, ways_of_associativity = int (shown_ways C), shared_cpu_map = m\<rparr>"
  have r: "read_long fs (f @ ''/level'') = ok (int (shown_level C))" "read_string fs (f @ ''/type'') = ok (shown_type C)"
      "read_long fs (f @ ''/size'') = ok (int (shown_kbytes C))" "read_string fs (f @ ''/size'') = ok (dec (shown_kbytes C) @ shown_unit C)"
      "wrap_long (int (shown_kbytes C) * 1024) = 1024 * int (shown_kbytes C)"
      "read_long fs (f @ ''/coherency_line_size'') = ok (int (shown_line C))" "read_long fs (f @ ''/number_of_sets'') = ok (int (shown_sets C))"
      "\<not> aarch64 fs \<Longrightarrow> read_long fs (f @ ''/physical_line_partition'') = ok (int (shown_partition C))"
      "read_long fs (f @ ''/ways_of_associativity'') = ok (int (shown_ways C))"
    using S by (blast intro: L T Z)+
  have a: "alloc fs ''collect_cache_topology'' f" "alloc fs ''cache_topology'' f" "\<not> file_readable fs (f @ ''/level'') < 0" "\<not> PATH_MAX \<le> length f"
    using S len by simp_all
  have "collect_cache_topology fs cpu index = ok (Some p)"
    unfolding collect_cache_topology_def f_def [symmetric] Let_def zero_cache_def
    by (cases "aarch64 fs") (simp_all add: a r m(1) p_def pt_def)
  then show ?thesis using m(2) by (auto simp: cache_matches_def p_def pt_def)
qed

lemma collect_cache_absent:
  "no_cache fs cpu index \<Longrightarrow> collect_cache_topology fs cpu index = ok None"
  by (simp add: no_cache_def Let_def collect_cache_topology_def)

text \<open>The caches of a CPU: \<open>C index\<close> is what the files of a cache show, none when it does not exist.\<close>

definition caches_shown :: "sysfs \<Rightarrow> nat \<Rightarrow> (nat \<Rightarrow> cache_facts option) \<Rightarrow> nat list \<Rightarrow> bool" where
  "caches_shown fs cpu C is \<longleftrightarrow>
     (\<forall>index \<in> set is. case C index of None \<Rightarrow> no_cache fs cpu index | Some F \<Rightarrow> cache_shown fs cpu index F)"

definition caches_match :: "sysfs \<Rightarrow> (nat \<Rightarrow> cache_facts option) \<Rightarrow> nat list \<Rightarrow> cache_topology list \<Rightarrow> bool" where
  "caches_match fs C is ps \<longleftrightarrow> list_all2 (\<lambda>index. cache_matches fs index (the (C index))) (filter (\<lambda>index. C index \<noteq> None) is) ps"

lemma collect_caches_shown:
  assumes "wf_sysfs fs" "caches_shown fs cpu C is"
  shows "\<exists>ps. collect_caches fs cpu is = Some ps \<and> caches_match fs C is ps"
  using assms(2)
proof (induction "is")
  case (Cons i "is")
  then obtain ps where ps: "collect_caches fs cpu is = Some ps" "caches_match fs C is ps"
    by (auto simp: caches_shown_def)
  show ?case
  proof (cases "C i")
    case None
    then show ?thesis
      using Cons.prems ps collect_cache_absent [of fs cpu i] by (simp add: caches_shown_def caches_match_def ok_def)
  next
    case (Some F)
    then obtain p where "collect_cache_topology fs cpu i = ok (Some p)" "cache_matches fs i F p"
      using Cons.prems collect_cache_shown [OF assms(1), of cpu i F] by (auto simp: caches_shown_def)
    then show ?thesis using ps Some by (simp add: caches_match_def ok_def)
  qed
qed (simp add: caches_match_def)

text \<open>The directory of a CPU has a link to its NUMA node \<open>h\<close> and to no other.\<close>

definition home_shown :: "sysfs \<Rightarrow> nat \<Rightarrow> nat \<Rightarrow> bool" where
  "home_shown fs cpu h \<longleftrightarrow> h < numa_nodes fs \<and>
     (\<forall>node < numa_nodes fs. stat_ok fs (cpu_path cpu @ ''/node'' @ dec node) \<longleftrightarrow> node = h)"

lemma find_home: "home_shown fs cpu h \<Longrightarrow>
    List.find (\<lambda>node. stat_ok fs (cpu_path cpu @ ''/node'' @ dec node)) [0..<numa_nodes fs] = Some h"
  by (auto simp: home_shown_def find_Some_iff)

text \<open>The whole tree: also the home node \<open>H\<close> and the caches \<open>C\<close> of every online CPU.\<close>

definition full_tree :: "sysfs \<Rightarrow> nat set \<Rightarrow> (nat \<Rightarrow> cpu_facts) \<Rightarrow> (nat \<Rightarrow> nat set) \<Rightarrow> (nat \<Rightarrow> nat) \<Rightarrow> (nat \<Rightarrow> nat \<Rightarrow> cache_facts option) \<Rightarrow> bool" where
  "full_tree fs S F N H C \<longleftrightarrow> tree fs S F N \<and> (\<forall>cpu \<in> S. home_shown fs cpu (H cpu) \<and> caches_shown fs cpu (C cpu) [0..<10])"

lemma found_full:
  assumes "full_tree fs S F N H C" "found fs t" "cpu_id t \<in> S"
  shows "node_id t = int (H (cpu_id t)) \<and> caches_match fs (C (cpu_id t)) [0..<10] (cache_topology_list t)"
proof -
  have f: "wf_sysfs fs" "home_shown fs (cpu_id t) (H (cpu_id t))" "caches_shown fs (cpu_id t) (C (cpu_id t)) [0..<10]"
    using assms(1,3) by (simp_all add: full_tree_def tree_def)
  show ?thesis
    using assms(2) collect_caches_shown [OF f(1,3)] unfolding found_def find_home [OF f(2)] by auto
qed

lemma tree_finite: "tree fs S F N \<Longrightarrow> finite S"
  using has_list_bound finite_subset [of S "{0..<nprocs fs}"] unfolding tree_def by fastforce

lemma tree_covers:
  assumes "tree fs S F N" "map cpu_id tops = sorted_list_of_set S"
  shows "covers tops S"
proof -
  have "S \<subseteq> {0..<nprocs fs}" using has_list_bound assms(1) unfolding tree_def by fastforce
  then have "set (map cpu_id tops) = S" unfolding assms(2) using finite_subset by (subst set_sorted_list_of_set) auto
  then show ?thesis unfolding covers_def by auto
qed

section \<open>Properties\<close>

text \<open>
  C10. Whatever the files hold and whichever system calls fail, the collection of the topology never
  leaves a buffer when at most 1024 CPUs are configured: it returns a negative error, or one object
  for every online CPU in increasing order, each with complete CPU sets in its caches, and one for every NUMA node.
\<close>

theorem collect_topology_safe:
  assumes "length (page fs) = PAGE_SIZE" "wf_cpus (stack_cpus fs)" "nprocs fs \<le> 1024"
  shows "\<exists>r. collect_topology fs = Some r \<and> (\<forall>e. r = Inl e \<longrightarrow> e < 0) \<and>
    (\<forall>tops nodes. r = Inr (tops, nodes) \<longrightarrow> sorted_wrt (<) (map cpu_id tops) \<and> (\<forall>t \<in> set tops. cpu_id t < nprocs fs) \<and>
       wf_topology tops \<and> map node_number nodes = map int [0..<numa_nodes fs])"
proof -
  have "wf_sysfs fs" using assms by (simp add: wf_sysfs_def)
  from collect_topology_yields [OF this] obtain r where r: "collect_topology fs = Some r" "\<forall>e. r = Inl e \<longrightarrow> e < 0" "\<forall>x. r = Inr x \<longrightarrow> collected fs x"
    by (auto simp: yields_def)
  have "sorted_wrt (<) (map cpu_id tops) \<and> (\<forall>t \<in> set tops. cpu_id t < nprocs fs) \<and> wf_topology tops \<and> map node_number nodes = map int [0..<numa_nodes fs]"
    if "r = Inr (tops, nodes)" for tops nodes
  proof -
    have "collected fs (tops, nodes)" using r(3) that by blast
    then obtain P where P: "map cpu_id tops = filter P [0..<nprocs fs]" "wf_topology tops" "map node_number nodes = map int [0..<numa_nodes fs]"
      unfolding collected_def fst_conv snd_conv by blast
    have "sorted_wrt (<) (map cpu_id tops)" unfolding P(1) by (simp add: sorted_wrt_filter)
    moreover have "set (map cpu_id tops) \<subseteq> {0..<nprocs fs}" unfolding P(1) by auto
    ultimately show ?thesis using P(2,3) by auto
  qed
  then show ?thesis using r(1,2) by blast
qed

text \<open>
  C11. On a tree of files as the kernel writes them the collection succeeds, and it finds what the
  files show. For every online CPU: the numbers of its core and package, its sibling sets, its NUMA
  node, and its caches in the order of their index, each with its level, type, size, line size, sets,
  partition, ways and the CPUs that share it; a cache without files is left out. For every NUMA
  node: its number and its CPUs.
\<close>

theorem collect_topology_complete:
  assumes "full_tree fs S F N H C"
  shows "\<exists>tops nodes. collect_topology fs = ok (tops, nodes) \<and> map cpu_id tops = sorted_list_of_set S \<and>
    covers tops S \<and> wf_topology tops \<and>
    (\<forall>t \<in> set tops. matches fs t (F (cpu_id t)) \<and> node_id t = int (H (cpu_id t)) \<and>
       list_all2 (\<lambda>index. cache_matches fs index (the (C (cpu_id t) index))) (filter (\<lambda>index. C (cpu_id t) index \<noteq> None) [0..<10])
         (cache_topology_list t)) \<and>
    map node_number nodes = map int [0..<numa_nodes fs] \<and> (\<forall>node < numa_nodes fs. bm_set (cpumap (nodes ! node)) (nprocs fs) = N node)"
proof -
  have t: "tree fs S F N" using assms by (simp add: full_tree_def)
  obtain tops nodes where r: "collect_topology fs = ok (tops, nodes)" "map cpu_id tops = sorted_list_of_set S" "wf_topology tops"
      "\<forall>t \<in> set tops. matches fs t (F (cpu_id t)) \<and> found fs t"
      "map node_number nodes = map int [0..<numa_nodes fs] \<and> (\<forall>node < numa_nodes fs. bm_set (cpumap (nodes ! node)) (nprocs fs) = N node)"
    using collect_tree_facts [OF t] by blast
  have "cpu_id t \<in> S" if "t \<in> set tops" for t
    using that r(2) tree_finite [OF t] by (metis image_eqI list.set_map set_sorted_list_of_set)
  then have "\<forall>t \<in> set tops. node_id t = int (H (cpu_id t)) \<and> caches_match fs (C (cpu_id t)) [0..<10] (cache_topology_list t)"
    using found_full [OF assms] r(4) by blast
  then show ?thesis using r tree_covers [OF t r(2)] unfolding caches_match_def by blast
qed

lemma fold_opt_wr_beyond: "k \<in> set ks \<Longrightarrow> length dst \<le> k \<Longrightarrow> fold_opt (\<lambda>k d. wr d k v) ks dst = None"
  by (induction ks arbitrary: dst) (auto simp: wr_def)

text \<open>
  C24. When more than 1024 CPUs are configured, the list of the online CPUs does not fit the
  \<^verbatim>\<open>cpu_set_t\<close> on the stack: clearing it already writes behind its end.
\<close>

theorem collect_topology_overflow:
  assumes "numa_ok fs" "wf_cpus (stack_cpus fs)" "1024 < nprocs fs" "length (page fs) = PAGE_SIZE"
    and "opens fs ''read_bitmap_parselist'' ''/sys/devices/system/cpu/online'' s" "alloc fs ''read_bitmap_parselist'' ''/sys/devices/system/cpu/online''"
  shows "collect_topology fs = None"
proof -
  obtain rest where r: "or_error (read_file fs ''read_bitmap_parselist'' (page fs) (PAGE_SIZE - 1) ''/sys/devices/system/cpu/online'') EINVAL = ok (s @ NUL # rest)"
    using read_opens [OF assms(4,5)] by blast
  have "16 < BITS_TO_LONGS (nprocs fs)" using assms(3) by (simp add: BITS_TO_LONGS_def)
  then have "bitmap_zero False (stack_cpus fs) (nprocs fs) = None"
    using assms(2) by (simp add: bitmap_zero_def memset0_def small_const_nbits_def wf_cpus_def, intro fold_opt_wr_beyond [of 16]) auto
  then have "bitmap_parselist buf (stack_cpus fs) (nprocs fs) = None" for buf
    by (simp add: bitmap_parselist_def bitmap_parselist'_def)
  then have "read_bitmap_parselist fs (stack_cpus fs) (nprocs fs) ''/sys/devices/system/cpu/online'' = None"
    using assms(6) unfolding read_bitmap_parselist_def r attempt_ok by simp
  then show ?thesis using assms(1) by (simp add: collect_topology_def or_error_def attempt_def)
qed


section \<open>A concrete tree\<close>

text \<open>
  Two CPUs with one cache each and one NUMA node. The file \<open>type\<close> holds \<open>Data\<close>, \<open>size\<close> holds
  \<open>32K\<close> and every other file the number 3.
\<close>

definition path_ends :: "string \<Rightarrow> string \<Rightarrow> bool" where
  "path_ends s path \<longleftrightarrow> drop (length path - length s) path = s"

definition example_contents :: "string \<Rightarrow> string" where
  "example_contents path =
     (if path = ''/sys/devices/system/cpu/online'' then ''0-1'' else if path_ends ''/type'' path then ''Data''
      else if path_ends ''/size'' path then ''32K'' else ''3'') @ [NEWLINE]"

definition example_fs :: sysfs where
  "example_fs = \<lparr>open_file = (\<lambda>f path. if path_ends ''/level'' path \<and> \<not> path_ends ''index0/level'' path then None else Some (Some (example_contents path))),
     stat_ok = (\<lambda>_. True), alloc = (\<lambda>_ _. True), page = replicate PAGE_SIZE NUL, stack_cpus = CPU_ZERO,
     nprocs = 2, numa_ok = True, numa_nodes = 1, aarch64 = False\<rparr>"

lemma path_ends_append: "length s \<le> length t \<Longrightarrow> path_ends s (p @ t) \<longleftrightarrow> path_ends s t"
  by (simp add: path_ends_def)

lemma example_opens:
  "length path < 100 \<Longrightarrow> \<not> path_ends ''/level'' path \<or> path_ends ''index0/level'' path \<Longrightarrow> opens example_fs f path (example_contents path)"
  by (auto simp: opens_def example_fs_def PAGE_SIZE_def PATH_MAX_def example_contents_def)

text \<open>The paths of the tree by their last part.\<close>

definition plain_end :: "string \<Rightarrow> bool" where
  "plain_end t \<longleftrightarrow> 6 \<le> length t \<and> length t < 50 \<and> \<not> path_ends ''/level'' t \<and> \<not> path_ends ''/type'' t \<and> \<not> path_ends ''/size'' t \<and> \<not> path_ends ''online'' t"

lemma example_online: "opens example_fs f ''/sys/devices/system/cpu/online'' (''0-1'' @ [NEWLINE])"
  using example_opens [of "''/sys/devices/system/cpu/online''" f] by (simp add: path_ends_def example_contents_def)

lemma not_online: "6 \<le> length t \<Longrightarrow> \<not> path_ends ''online'' t \<Longrightarrow> p @ t \<noteq> ''/sys/devices/system/cpu/online''"
proof
  assume "6 \<le> length t" "\<not> path_ends ''online'' t"
  then have "\<not> path_ends ''online'' (p @ t)" by (simp add: path_ends_append)
  moreover assume eq: "p @ t = ''/sys/devices/system/cpu/online''"
  ultimately show False unfolding eq by (simp add: path_ends_def)
qed

lemma example_plain:
  assumes "length p < 50" "plain_end t"
  shows "opens example_fs f (p @ t) (''3'' @ [NEWLINE])"
proof -
  have "\<not> path_ends ''/level'' (p @ t)" "\<not> path_ends ''/type'' (p @ t)" "\<not> path_ends ''/size'' (p @ t)"
    using assms(2) by (simp_all add: plain_end_def path_ends_append)
  moreover have "p @ t \<noteq> ''/sys/devices/system/cpu/online''" using not_online assms(2) by (simp add: plain_end_def)
  ultimately show ?thesis
    using example_opens [of "p @ t" f] assms by (simp add: example_contents_def plain_end_def)
qed

lemma example_alloc: "alloc example_fs f path"
  by (simp add: example_fs_def)

lemma example_fs_wf: "wf_sysfs example_fs"
  by (simp add: wf_sysfs_def example_fs_def)

lemma example_list: "has_list example_fs ''/sys/devices/system/cpu/online'' {0, 1}"
  unfolding has_list_def
proof (intro conjI exI)
  have "list_text [(0, 1)] = ''0-1''" by code_simp
  then show "opens example_fs ''read_bitmap_parselist'' ''/sys/devices/system/cpu/online'' (list_text [(0, 1)] @ [NEWLINE])"
    using example_online by (simp only:)
  show "ranges_ok [(0, 1)] (nprocs example_fs)" "ranges_set [(0, 1)] = {0, 1}"
    by (auto simp: ranges_ok_def ranges_set_def example_fs_def)
qed (simp_all add: example_alloc)

lemma example_map:
  assumes "length p < 50" "plain_end t"
  shows "has_map example_fs (p @ t) {0, 1}"
  unfolding has_map_def
proof (intro conjI exI)
  have n: "nprocs example_fs = 2" by (simp add: example_fs_def)
  have "hex_text [3] 2 = ''3''" by code_simp
  then show "opens example_fs ''read_bitmap'' (p @ t) (hex_text [3] (nprocs example_fs) @ [NEWLINE])"
    using example_plain [OF assms] unfolding n by (simp only:)
  show "bm_set [3] (nprocs example_fs) = {0, 1}" by (auto simp: n bm_set_def bm_bit_def less_2_cases_iff bit_numeral_rec)
qed (simp_all add: example_alloc example_fs_def BITS_TO_LONGS_def)

lemma example_dec: "dec 0 = ''0''" "dec 3 = ''3''" "dec 32 = ''32''"
  by code_simp+

lemma example_long:
  assumes "length p < 50" "plain_end t"
  shows "has_long example_fs (p @ t) 3"
  using example_plain [OF assms] example_alloc by (simp only: has_long_def example_dec) simp

lemma example_cpu_path: "cpu \<in> {0, 1} \<Longrightarrow> length (cpu_path cpu) < 30"
proof -
  have "dec 0 = ''0''" "dec 1 = ''1''" by code_simp+
  then show "cpu \<in> {0, 1} \<Longrightarrow> length (cpu_path cpu) < 30" by (auto simp: cpu_path_def)
qed

lemma example_tree: "tree example_fs {0, 1} (\<lambda>_. \<lparr>core = 3, package = 3, cores = {0, 1}, threads = {0, 1}\<rparr>) (\<lambda>_. {0, 1})"
proof -
  have e: "plain_end ''/topology/core_id''" "plain_end ''/topology/core_siblings''" "plain_end ''/topology/physical_package_id''"
      "plain_end ''/topology/thread_siblings''" "plain_end ''/cpumap''"
    by (simp_all add: plain_end_def path_ends_def)
  have "cpu_shown example_fs cpu \<lparr>core = 3, package = 3, cores = {0, 1}, threads = {0, 1}\<rparr>" if "cpu \<in> {0, 1}" for cpu
  proof -
    have "length (cpu_path cpu) < 50" using example_cpu_path [OF that] by simp
    note ml = example_map [OF this] example_long [OF this]
    show ?thesis unfolding cpu_shown_def cpu_facts.simps by (intro conjI example_alloc ml e)
  qed
  moreover have "length (''/sys/devices/system/node/node'' @ dec 0) < 50" by (simp add: example_dec)
  then have "has_map example_fs ((''/sys/devices/system/node/node'' @ dec 0) @ ''/cpumap'') {0, 1}" by (rule example_map) (rule e)
  moreover have "numa_ok example_fs" "numa_nodes example_fs = 1" by (simp_all add: example_fs_def)
  ultimately show ?thesis using example_fs_wf example_list example_alloc unfolding tree_def by simp
qed

text \<open>The first cache of each CPU exists, no other does.\<close>

definition example_caches :: "nat \<Rightarrow> cache_facts option" where
  "example_caches index = (if index = 0 then Some \<lparr>shown_level = 3, shown_type = ''Data'', shown_kbytes = 32, shown_unit = ''K'', shown_line = 3,
     shown_sets = 3, shown_partition = 3, shown_ways = 3, shown_cpus = {0, 1}\<rparr> else None)"

lemma example_cache_shown:
  assumes "cpu \<in> {0, 1}"
  shows "cache_shown example_fs cpu 0 (the (example_caches 0))"
proof -
  define p where "p = cache_path cpu 0"
  have p: "p = cpu_path cpu @ ''/cache/index0''" by (simp add: p_def cache_path_def example_dec)
  then have len: "length p < 50" using example_cpu_path [OF assms] by simp
  have e: "plain_end ''/coherency_line_size''" "plain_end ''/number_of_sets''" "plain_end ''/physical_line_partition''"
      "plain_end ''/ways_of_associativity''" "plain_end ''/shared_cpu_map''"
    by (simp_all add: plain_end_def path_ends_def)
  note ml = example_map [OF len] example_long [OF len]
  have o: "opens example_fs f (p @ ''/level'') (''3'' @ [NEWLINE])" "opens example_fs f (p @ ''/type'') (''Data'' @ [NEWLINE])"
      "opens example_fs f (p @ ''/size'') (''32K'' @ [NEWLINE])" for f
    using example_opens [of "p @ ''/level''" f] example_opens [of "p @ ''/type''" f] example_opens [of "p @ ''/size''" f]
      example_cpu_path [OF assms] not_online [of "''/index0/level''" "cpu_path cpu @ ''/cache''"] not_online [of "''index0/type''" "cpu_path cpu @ ''/cache/''"]
      not_online [of "''index0/size''" "cpu_path cpu @ ''/cache/''"]
    by (simp_all add: p path_ends_def example_contents_def)
  have r: "file_readable example_fs (p @ ''/level'') = 0"
    using o(1) [of "''file_readable''"] by (simp add: file_readable_def opens_def example_alloc)
  have l: "has_long example_fs (p @ ''/level'') 3" using o(1) example_alloc by (simp add: has_long_def example_dec)
  have nn: "NUL \<notin> set ''Data''" "NUL \<notin> set ''32K''" "NUL \<notin> set ''K''" by code_simp+
  then have t: "has_string example_fs (p @ ''/type'') ''Data''" using o(2) example_alloc by (simp add: has_string_def)
  have z: "has_size example_fs (p @ ''/size'') 32 ''K''" using o(3) nn(2,3) example_alloc by (simp add: has_size_def has_string_def example_dec isdigit_def code_def)
  show ?thesis
    unfolding cache_shown_def p_def [symmetric] Let_def example_caches_def
    by (simp only: if_True option.sel cache_facts.simps refl) (intro conjI impI example_alloc r l t z ml e)
qed

lemma example_no_cache:
  assumes "cpu \<in> {0, 1}" "index \<in> {1..<10}"
  shows "no_cache example_fs cpu index"
proof -
  have c: "dec index = [digit index]" "digit index \<noteq> CHR ''0''"
    using assms(2) code_digit [of index] by (auto simp: dec_digit code_eq_iff) (simp add: code_def)
  show ?thesis
    using example_cpu_path [OF assms(1)] c(2)
    by (simp add: no_cache_def Let_def cache_path_def c(1) example_alloc PATH_MAX_def file_readable_def example_fs_def path_ends_def)
qed

lemma example_full_tree:
  "full_tree example_fs {0, 1} (\<lambda>_. \<lparr>core = 3, package = 3, cores = {0, 1}, threads = {0, 1}\<rparr>) (\<lambda>_. {0, 1}) (\<lambda>_. 0) (\<lambda>_. example_caches)"
proof -
  have "caches_shown example_fs cpu example_caches [0..<10]" if "cpu \<in> {0, 1}" for cpu
    using example_cache_shown [OF that] example_no_cache [OF that]
    by (auto simp: caches_shown_def example_caches_def split: option.split)
  moreover have "home_shown example_fs cpu 0" for cpu
    by (simp add: home_shown_def example_fs_def)
  ultimately show ?thesis using example_tree by (simp add: full_tree_def)
qed

theorem collect_topology_safe_witness:
  "\<exists>r. collect_topology example_fs = Some r \<and> (\<forall>e. r = Inl e \<longrightarrow> e < 0)"
  using collect_topology_safe [of example_fs] by (auto simp: example_fs_def)

theorem collect_topology_complete_witness:
  "\<exists>tops nodes. collect_topology example_fs = ok (tops, nodes) \<and> map cpu_id tops = [0, 1] \<and> covers tops {0, 1} \<and>
     (\<forall>t \<in> set tops. node_id t = 0 \<and> (\<exists>p. cache_topology_list t = [p] \<and> cache_type p = ''Data'' \<and> cache_size p = 32768 \<and>
        size_str p = ''32K'' \<and> bm_set (shared_cpu_map p) 2 = {0, 1})) \<and>
     length nodes = 1 \<and> bm_set (cpumap (nodes ! 0)) 2 = {0, 1}"
proof -
  have n: "nprocs example_fs = 2" "numa_nodes example_fs = 1" "sorted_list_of_set {0, Suc 0} = [0, 1]" "aarch64 example_fs = False"
    by (simp_all add: example_fs_def)
  have f: "filter (\<lambda>index. example_caches index \<noteq> None) [0..<10] = [0]" by code_simp
  obtain tops nodes where r: "collect_topology example_fs = ok (tops, nodes)" "map cpu_id tops = sorted_list_of_set {0, 1}" "covers tops {0, 1}"
      "\<forall>t \<in> set tops. node_id t = int 0 \<and> list_all2 (\<lambda>index. cache_matches example_fs index (the (example_caches index))) [0] (cache_topology_list t)"
      "map node_number nodes = map int [0..<numa_nodes example_fs]"
      "\<forall>node < numa_nodes example_fs. bm_set (cpumap (nodes ! node)) (nprocs example_fs) = {0, 1}"
    using collect_topology_complete [OF example_full_tree] unfolding f by blast
  have "\<exists>p. cache_topology_list t = [p] \<and> cache_type p = ''Data'' \<and> cache_size p = 32768 \<and> size_str p = ''32K'' \<and> bm_set (shared_cpu_map p) 2 = {0, 1}"
    if "t \<in> set tops" for t
  proof -
    have "list_all2 (\<lambda>index. cache_matches example_fs index (the (example_caches index))) [0] (cache_topology_list t)" using r(4) that by blast
    then obtain p where p: "cache_topology_list t = [p]" "cache_matches example_fs 0 (the (example_caches 0)) p"
      unfolding list_all2_Cons1 list_all2_Nil by blast
    then have "cache_type p = ''Data''" "cache_size p = 32768" "size_str p = ''32K''" "bm_set (shared_cpu_map p) 2 = {0, 1}"
      by (simp_all add: cache_matches_def example_caches_def example_dec n(1))
    then show ?thesis using p(1) by blast
  qed
  then have t: "\<forall>t \<in> set tops. node_id t = 0 \<and> (\<exists>p. cache_topology_list t = [p] \<and> cache_type p = ''Data'' \<and> cache_size p = 32768 \<and>
        size_str p = ''32K'' \<and> bm_set (shared_cpu_map p) 2 = {0, 1})" using r(4) by simp
  have "length nodes = 1" using arg_cong [OF r(5), of length] by (simp add: n(2))
  moreover have "map cpu_id tops = [0, 1]" using r(2) n(3) by simp
  moreover have "bm_set (cpumap (nodes ! 0)) 2 = {0, 1}" using r(6) unfolding n by simp
  ultimately show ?thesis by (intro exI conjI) (rule r(1) r(3) t | assumption)+
qed

theorem collect_topology_overflow_witness: "collect_topology (example_fs\<lparr>nprocs := 1025\<rparr>) = None"
proof (rule collect_topology_overflow)
  from example_online [of "''read_bitmap_parselist''"] show "opens (example_fs\<lparr>nprocs := 1025\<rparr>) ''read_bitmap_parselist'' ''/sys/devices/system/cpu/online'' (''0-1'' @ [NEWLINE])"
    by (simp add: opens_def)
qed (simp_all add: example_fs_def)

end
