(* ===== verification/Launcher.thy ===== *)
theory Launcher
  imports Protocol Sysfs
begin

text \<open>
\<^verbatim>\<open>main()\<close> of \<^verbatim>\<open>mpipin.c\<close> (lines 97 to 166 and 1131 to 1461) up to \<^verbatim>\<open>execvp()\<close>: the command line, the
  shared memory that the first process of a node initialises and the others join, and the printing
  of the final affinity. Every process holds the lock of the shared memory while it joins, so the
  processes of a node join one after the other (\<open>join_all\<close>); then they run the protocol of theory
  \<open>Protocol\<close> on it, the first with the topology that theory \<open>Sysfs\<close> collects. What the system calls give is the
  record \<open>machine\<close>; \<^verbatim>\<open>ftruncate()\<close>, whose result \<^verbatim>\<open>main()\<close> does not look at, is taken to succeed.
\<close>

section \<open>The command line\<close>

text \<open>\<^verbatim>\<open>has_arg\<close>, whether \<^verbatim>\<open>flag\<close> is set, and \<^verbatim>\<open>val\<close>.\<close>

record long_option =
  option_name :: string
  has_arg :: bool
  flag :: bool
  val :: int

definition options :: "long_option list" where
  "options =
    [\<lparr>option_name = ''compact'', has_arg = False, flag = True, val = 1\<rparr>,
     \<lparr>option_name = ''scatter'', has_arg = False, flag = True, val = 0\<rparr>,
     \<lparr>option_name = ''tpp'', has_arg = True, flag = False, val = int (code CHR ''t'')\<rparr>,
     \<lparr>option_name = ''cores-per-process'', has_arg = True, flag = False, val = int (code CHR ''t'')\<rparr>,
     \<lparr>option_name = ''threads-per-process'', has_arg = True, flag = False, val = int (code CHR ''t'')\<rparr>,
     \<lparr>option_name = ''ppn'', has_arg = True, flag = False, val = int (code CHR ''p'')\<rparr>,
     \<lparr>option_name = ''processes-per-node'', has_arg = True, flag = False, val = int (code CHR ''p'')\<rparr>,
     \<lparr>option_name = ''ranks-per-node'', has_arg = True, flag = False, val = int (code CHR ''p'')\<rparr>,
     \<lparr>option_name = ''exclude-cpus'', has_arg = True, flag = False, val = int (code CHR ''e'')\<rparr>,
     \<lparr>option_name = ''help'', has_arg = False, flag = False, val = 0\<rparr>,
     \<lparr>option_name = ''verbose'', has_arg = False, flag = False, val = int (code CHR ''v'')\<rparr>]"

text \<open>
  \<^verbatim>\<open>getopt_long(argc, argv, "+n:p:t:e:vh", options, NULL)\<close>: the rest of a cluster of short options
  and the arguments that are left. The result is what the call returns (\<open>None\<close> for -1, \<open>?\<close> for an unknown or ambiguous
  option or a missing argument), \<^verbatim>\<open>optarg\<close>, and the next rest and arguments. An option that sets a flag returns 0.
\<close>

type_synonym opt_result = "(int \<times> string) option \<times> string \<times> string list"

definition bad_option :: "string \<Rightarrow> string list \<Rightarrow> opt_result" where
  "bad_option nextchar args = (Some (int (code CHR ''?''), []), nextchar, args)"

fun short_option :: "string \<Rightarrow> string list \<Rightarrow> opt_result" where
  "short_option [] args = bad_option [] args"
| "short_option (c # nextchar) args =
     (if c \<in> {CHR ''n'', CHR ''p'', CHR ''t'', CHR ''e''} then
        (if nextchar \<noteq> [] then (Some (int (code c), nextchar), [], args)
         else (case args of [] \<Rightarrow> bad_option [] [] | a # args \<Rightarrow> (Some (int (code c), a), [], args)))
      else if c = CHR ''v'' \<or> c = CHR ''h'' then (Some (int (code c), []), nextchar, args)
      else bad_option nextchar args)"

definition same_effect :: "long_option \<Rightarrow> long_option \<Rightarrow> bool" where
  "same_effect o1 o2 \<longleftrightarrow> has_arg o1 = has_arg o2 \<and> \<not> flag o1 \<and> \<not> flag o2 \<and> val o1 = val o2"

definition find_long :: "string \<Rightarrow> long_option option" where
  "find_long name =
     (case filter (\<lambda>o1. option_name o1 = name) options of
        o1 # _ \<Rightarrow> Some o1
      | [] \<Rightarrow> (case filter (\<lambda>o1. take (length name) (option_name o1) = name) options of
          [] \<Rightarrow> None
        | o1 # os \<Rightarrow> if list_all (same_effect o1) os then Some o1 else None))"

definition take_long :: "string \<Rightarrow> string list \<Rightarrow> opt_result" where
  "take_long s args =
     (let name = takeWhile (\<lambda>c. c \<noteq> CHR ''='') s; arg = dropWhile (\<lambda>c. c \<noteq> CHR ''='') s in
      case find_long name of
        None \<Rightarrow> bad_option [] args
      | Some o1 \<Rightarrow>
          let ret = (if flag o1 then 0 else val o1) in
          if arg \<noteq> [] then (if has_arg o1 then (Some (ret, tl arg), [], args) else bad_option [] args)
          else if has_arg o1 then (case args of [] \<Rightarrow> bad_option [] [] | a # args \<Rightarrow> (Some (ret, a), [], args))
          else (Some (ret, []), [], args))"

definition getopt_long :: "string \<Rightarrow> string list \<Rightarrow> opt_result" where
  "getopt_long nextchar args =
     (if nextchar \<noteq> [] then short_option nextchar args
      else (case args of
          [] \<Rightarrow> (None, [], [])
        | a # args' \<Rightarrow>
            if a = ''--'' then (None, [], args')
            else if take 2 a = ''--'' then take_long (drop 2 a) args'
            else if take 1 a = ''-'' \<and> a \<noteq> ''-'' then short_option (tl a) args'
            else (None, [], args)))"

text \<open>\<^verbatim>\<open>strtol(s, &tmp, 0)\<close>: the value and the text from \<^verbatim>\<open>tmp\<close> on.\<close>

definition digit_of :: "char \<Rightarrow> int" where
  "digit_of c = (if isdigit c then int (code c - 48) else if isxdigit c then int (tolower (code c)) - 87 else 99)"

definition digits_value :: "int \<Rightarrow> string \<Rightarrow> int" where
  "digits_value base ds = foldl (\<lambda>v c. v * base + digit_of c) 0 ds"

definition strtol0 :: "string \<Rightarrow> int \<times> string" where
  "strtol0 str =
     (let s = dropWhile isspace str;
          neg = (s \<noteq> [] \<and> hd s = CHR ''-'');
          s = (if s \<noteq> [] \<and> (hd s = CHR ''-'' \<or> hd s = CHR ''+'') then tl s else s);
          hex = (2 < length s \<and> s ! 0 = CHR ''0'' \<and> (s ! 1 = CHR ''x'' \<or> s ! 1 = CHR ''X'') \<and> isxdigit (s ! 2));
          base = (if hex then 16 else if s \<noteq> [] \<and> hd s = CHR ''0'' then 8 else 10);
          s = (if hex then drop 2 s else s);
          ds = takeWhile (\<lambda>c. digit_of c < base) s;
          v = digits_value base ds;
          v = (if neg then - v else v)
      in if ds = [] then (0, str) else (max (- (2 ^ 63)) (min (2 ^ 63 - 1) v), drop (length ds) s))"

text \<open>The conversion of a \<^verbatim>\<open>long\<close> to \<^verbatim>\<open>int\<close>.\<close>

definition to_int :: "int \<Rightarrow> int" where
  "to_int v = signed_take_bit 31 v"

record launch =
  ppn :: int
  tpp :: int
  cpus_excluded :: cpu_set
  verbose :: bool

text \<open>
  One call of \<^verbatim>\<open>getopt_long()\<close> and the \<^verbatim>\<open>switch\<close> over its result. \<open>None\<close> stands for
  \<^verbatim>\<open>exit(EXIT_FAILURE)\<close>.
\<close>

definition handle_option :: "int \<Rightarrow> string \<Rightarrow> launch \<Rightarrow> launch option" where
  "handle_option opt optarg l =
     (if opt = int (code CHR ''p'') \<or> opt = int (code CHR ''n'') then
        (let (v, tmp) = strtol0 optarg; l = l\<lparr>ppn := to_int v\<rparr> in
         if tmp \<noteq> [] \<or> ppn l \<le> 0 then None else Some l)
      else if opt = int (code CHR ''t'') then
        (let (v, tmp) = strtol0 optarg; l = l\<lparr>tpp := to_int v\<rparr> in
         if tmp \<noteq> [] \<or> tpp l \<le> 0 then None else Some l)
      else if opt = int (code CHR ''e'') then do {
        (error, cpus) \<leftarrow> bitmap_parselist optarg (cpus_excluded l) 1024;
        if error \<noteq> 0 then None else Some (l\<lparr>cpus_excluded := cpus\<rparr>) }
      else if opt = int (code CHR ''v'') then Some (l\<lparr>verbose := True\<rparr>)
      else None)"

text \<open>Every call but the last consumes some of the arguments.\<close>

definition left_over :: "string \<Rightarrow> string list \<Rightarrow> nat" where
  "left_over nextchar args = length nextchar + (\<Sum>a\<leftarrow>args. Suc (length a))"

lemma short_progress:
  "short_option s args = (Some r, nextchar', args') \<Longrightarrow> s \<noteq> [] \<Longrightarrow> left_over nextchar' args' < left_over s args"
  by (cases s) (auto simp: left_over_def bad_option_def split: if_splits list.splits)

lemma long_progress: "take_long s args = (Some r, nextchar', args') \<Longrightarrow> left_over nextchar' args' \<le> left_over [] args"
  by (auto simp: take_long_def left_over_def bad_option_def Let_def split: if_splits list.splits option.splits)

lemma getopt_progress:
  assumes "getopt_long nextchar args = (Some r, nextchar', args')"
  shows "left_over nextchar' args' < left_over nextchar args"
proof (cases "nextchar = []")
  case False
  then show ?thesis using assms short_progress by (simp add: getopt_long_def)
next
  case True
  then obtain a as where a: "args = a # as" using assms by (cases args) (auto simp: getopt_long_def)
  show ?thesis
  proof (cases "take 2 a = ''--''")
    case True
    then have "take_long (drop 2 a) as = (Some r, nextchar', args')"
      using assms \<open>nextchar = []\<close> a by (auto simp: getopt_long_def split: if_splits)
    from long_progress [OF this] show ?thesis using a by (simp add: left_over_def)
  next
    case long: False
    then have s: "short_option (tl a) as = (Some r, nextchar', args')" "take 1 a = ''-''" "a \<noteq> ''-''"
      using assms \<open>nextchar = []\<close> a by (auto simp: getopt_long_def split: if_splits)
    then have "tl a \<noteq> []" by (cases a) auto
    from short_progress [OF s(1) this] show ?thesis using a by (simp add: left_over_def)
  qed
qed

function parse_options :: "string \<Rightarrow> string list \<Rightarrow> launch \<Rightarrow> (launch \<times> string list) option" where
  "parse_options nextchar args l =
     (case getopt_long nextchar args of
        (None, _, args) \<Rightarrow> Some (l, args)
      | (Some (opt, optarg), nextchar, args) \<Rightarrow> do {
          l \<leftarrow> handle_option opt optarg l;
          parse_options nextchar args l })"
  by pat_completeness auto
termination by (relation "measure (\<lambda>(nextchar, args, l). left_over nextchar args)") (auto dest: getopt_progress [OF sym])

declare parse_options.simps [simp del]

text \<open>The options and the checks that follow; the result is what is run and with which arguments.\<close>

definition main_options :: "string list \<Rightarrow> (launch \<times> string list) option" where
  "main_options args = do {
     (l, args) \<leftarrow> parse_options [] args \<lparr>ppn = 0, tpp = 0, cpus_excluded = CPU_ZERO, verbose = False\<rparr>;
     if args = [] then None
     else if ppn l = 0 then None
     else if ppn l = 1 then None
     else if ppn l > int MAX_PROCESSES then None
     else Some (l, args) }"

section \<open>The shared memory\<close>

text \<open>
  What \<^verbatim>\<open>main()\<close> gets from the system. \<open>can_run cpu\<close>: \<^verbatim>\<open>sched_setaffinity()\<close> to this CPU alone
  succeeds and \<^verbatim>\<open>sched_getcpu()\<close> is \<open>cpu\<close> afterwards.
\<close>

record machine =
  affinity :: "cpu_set option"
  shm_open_ok :: bool
  lock_ok :: bool
  fstat_ok :: bool
  mmap_ok :: bool
  unlock_ok :: bool
  configured :: nat
  can_run :: "nat \<Rightarrow> bool"

definition zero_item :: process_list_item where
  "zero_item = \<lparr>ready = 0, timeout = 0, pid = 0, start_ts = 0, next_process_ind = 0\<rparr>"

text \<open>Memory that \<^verbatim>\<open>ftruncate()\<close> or \<^verbatim>\<open>memset()\<close> has filled with zeros.\<close>

definition zero_shm :: part_exec where
  "zero_shm = \<lparr>nr_processes = 0, nr_processes_left = 0, nr_processes_left_in_init = 0, process_rank = 0,
     cpus_used = CPU_ZERO, cpus_available = CPU_ZERO, cpus_to_assign = 0, first_process_ind = 0,
     processes = replicate MAX_PROCESSES zero_item, affinities = replicate MAX_PROCESSES CPU_ZERO\<rparr>"

definition init_shm :: "int \<Rightarrow> cpu_set \<Rightarrow> part_exec" where
  "init_shm n avail =
     (let pe = zero_shm;
          pe = pe\<lparr>processes := foldl (\<lambda>ps pi. ps[pi := (ps ! pi)\<lparr>next_process_ind := -1\<rparr>]) (processes pe) [0..<MAX_PROCESSES]\<rparr>
      in pe\<lparr>nr_processes := -1, nr_processes_left := -1, first_process_ind := -1, nr_processes_left_in_init := n - 1,
            cpus_available := avail\<rparr>)"

text \<open>The last process looks for CPUs that no process was allowed to use before.\<close>

definition discover :: "machine \<Rightarrow> cpu_set \<Rightarrow> cpu_set \<Rightarrow> cpu_set" where
  "discover m excluded avail =
     foldl (\<lambda>avail cpu.
       if CPU_ISSET cpu excluded then avail
       else if CPU_ISSET cpu avail then avail
       else if can_run m cpu then CPU_SET cpu avail else avail) avail [0..<configured m]"

definition set_each :: "nat \<Rightarrow> cpu_set \<Rightarrow> (nat \<Rightarrow> cpu_set \<Rightarrow> cpu_set) \<Rightarrow> cpu_set \<Rightarrow> cpu_set option" where
  "set_each n cpus f s = do {
     r \<leftarrow> for_each_cpu n cpus (\<lambda>cpu s. Inl (f cpu s)) (-1) s;
     (case r of Inl s \<Rightarrow> Some s | Inr () \<Rightarrow> None) }"

definition attach_shm :: "machine \<Rightarrow> int \<Rightarrow> cpu_set \<Rightarrow> cpu_set \<Rightarrow> part_exec \<Rightarrow> part_exec option" where
  "attach_shm m n excluded avail pe = do {
     cpus \<leftarrow> set_each (configured m) avail CPU_SET (cpus_available pe);
     let pe = pe\<lparr>cpus_available := cpus, nr_processes_left_in_init := nr_processes_left_in_init pe - 1\<rparr>;
     if nr_processes_left_in_init pe = 0 then do {
       cpus \<leftarrow> set_each (configured m) excluded CPU_CLR (discover m excluded (cpus_available pe));
       Some (pe\<lparr>cpus_available := cpus, cpus_to_assign := int (CPU_COUNT cpus) div n\<rparr>) }
     else Some pe }"

text \<open>
  From \<^verbatim>\<open>flock(LOCK_EX)\<close> to \<^verbatim>\<open>flock(LOCK_UN)\<close>: \<open>seg\<close> is the contents of the shared memory object that was opened,
  \<open>None\<close> when its size is 0. The result is its contents after the call and whether the process goes on to
  \<^verbatim>\<open>pin_process()\<close>; every failure unlinks the name of the object, but those who have opened it still use it.
\<close>

definition join_locked :: "machine \<Rightarrow> launch \<Rightarrow> cpu_set \<Rightarrow> part_exec option \<Rightarrow> (part_exec option \<times> bool) option" where
  "join_locked m l avail seg =
     (if \<not> lock_ok m then Some (seg, False)
      else if \<not> fstat_ok m then Some (seg, False)
      else if \<not> mmap_ok m then Some (Some (case seg of None \<Rightarrow> zero_shm | Some pe \<Rightarrow> pe), False)
      else do {
        pe \<leftarrow> (case seg of
            None \<Rightarrow> Some (init_shm (ppn l) avail)
          | Some pe \<Rightarrow> attach_shm m (ppn l) (cpus_excluded l) avail pe);
        Some (Some pe, unlock_ok m) })"

text \<open>
  From \<^verbatim>\<open>sched_getaffinity()\<close> to \<^verbatim>\<open>flock(LOCK_UN)\<close>, when nobody else comes in between. There
  is no result when the affinity cannot be read: then the name that is unlinked is an uninitialised buffer.
\<close>

definition main_join :: "machine \<Rightarrow> launch \<Rightarrow> part_exec option \<Rightarrow> (part_exec option \<times> bool) option" where
  "main_join m l seg =
     (case affinity m of
        None \<Rightarrow> None
      | Some avail \<Rightarrow> if \<not> shm_open_ok m then Some (seg, False) else join_locked m l avail seg)"

text \<open>The processes of a node, in the order in which they get the lock; a process that fails leaves no name behind.\<close>

fun join_all :: "(machine \<times> launch) list \<Rightarrow> part_exec option \<Rightarrow> part_exec option option" where
  "join_all [] seg = Some seg"
| "join_all ((m, l) # ps) seg = do { (seg, on) \<leftarrow> main_join m l seg; join_all ps (if on then seg else None) }"

section \<open>The state after all processes have joined\<close>

lemma foldl_update: "foldl (\<lambda>ps pi. ps[pi := f (ps ! pi)]) ps [0..<length ps] = map f ps"
proof -
  have "foldl (\<lambda>ps pi. ps[pi := f (ps ! pi)]) ps [0..<k] = map f (take k ps) @ drop k ps" if "k \<le> length ps" for k
    using that
  proof (induction k)
    case (Suc k)
    then have "drop k ps = ps ! k # drop (Suc k) ps" by (simp add: Cons_nth_drop_Suc)
    then show ?case using Suc by (simp add: list_update_append nth_append take_Suc_conv_app_nth)
  qed simp
  from this [of "length ps"] show ?thesis by simp
qed

lemma init_shm_eq: "init_shm n avail = (initial_pe avail 0)\<lparr>nr_processes_left_in_init := n - 1\<rparr>"
  using foldl_update [of "\<lambda>it. it\<lparr>next_process_ind := -1\<rparr>" "replicate MAX_PROCESSES zero_item"]
  by (simp add: init_shm_def zero_shm_def initial_pe_def zero_item_def empty_slot_def Let_def del: upt_conv_Cons)

lemma set_each_eq:
  assumes "wf_cpus cpus" "n \<le> 1024"
  shows "set_each n cpus f s = Some (fold f (filter (bm_bit cpus) [0..<n]) s)"
proof -
  have "fold_until (\<lambda>cpu s. Inl (f cpu s)) cs s = (Inl (fold f cs s) :: cpu_set + unit)" for cs
    by (induction cs arbitrary: s) simp_all
  then show ?thesis unfolding set_each_def for_each_cpu_eq [OF assms] by simp
qed

lemma fold_SET:
  "wf_cpus s \<Longrightarrow> \<forall>c \<in> set cs. c < 1024 \<Longrightarrow> wf_cpus (fold CPU_SET cs s) \<and> cpus_of (fold CPU_SET cs s) = cpus_of s \<union> set cs"
  by (induction cs arbitrary: s) (simp_all add: cpus_of_SET)

lemma fold_CLR: "wf_cpus s \<Longrightarrow> wf_cpus (fold CPU_CLR cs s) \<and> cpus_of (fold CPU_CLR cs s) = cpus_of s - set cs"
proof (induction cs arbitrary: s)
  case (Cons c cs)
  then have "cpus_of (fold CPU_CLR (c # cs) s) = cpus_of s - {c} - set cs" by (simp add: cpus_of_CLR)
  then have "cpus_of (fold CPU_CLR (c # cs) s) = cpus_of s - set (c # cs)" by auto
  then show ?case using Cons by simp
qed simp

lemma members_below:
  assumes "wf_cpus cpus"
  shows "set (filter (bm_bit cpus) [0..<n]) = cpus_of cpus \<inter> {..<n}"
proof (rule set_eqI)
  fix c
  show "c \<in> set (filter (bm_bit cpus) [0..<n]) \<longleftrightarrow> c \<in> cpus_of cpus \<inter> {..<n}"
    unfolding Int_iff in_cpus_of [OF assms] by auto
qed

lemma set_each_SET:
  assumes "wf_cpus cpus" "n \<le> 1024" "wf_cpus s"
  shows "\<exists>s'. set_each n cpus CPU_SET s = Some s' \<and> wf_cpus s' \<and> cpus_of s' = cpus_of s \<union> (cpus_of cpus \<inter> {..<n})"
proof -
  have "\<forall>c \<in> set (filter (bm_bit cpus) [0..<n]). c < 1024" using assms(2) by simp
  from fold_SET [OF assms(3) this] show ?thesis
    unfolding set_each_eq [OF assms(1,2)] members_below [OF assms(1)] by blast
qed

lemma set_each_CLR:
  assumes "wf_cpus cpus" "n \<le> 1024" "wf_cpus s"
  shows "\<exists>s'. set_each n cpus CPU_CLR s = Some s' \<and> wf_cpus s' \<and> cpus_of s' = cpus_of s - (cpus_of cpus \<inter> {..<n})"
  using fold_CLR [OF assms(3), of "filter (bm_bit cpus) [0..<n]"]
  unfolding set_each_eq [OF assms(1,2)] members_below [OF assms(1)] by blast

lemma discover_eq:
  assumes "wf_cpus excluded" "wf_cpus avail" "configured m \<le> 1024"
  shows "wf_cpus (discover m excluded avail) \<and>
    cpus_of (discover m excluded avail) = cpus_of avail \<union> {c. c < configured m \<and> c \<notin> cpus_of excluded \<and> can_run m c}"
proof -
  define f where "f = (\<lambda>avail cpu. if CPU_ISSET cpu excluded then avail else if CPU_ISSET cpu avail then avail
    else if can_run m cpu then CPU_SET cpu avail else avail)"
  have "wf_cpus (foldl f avail cs) \<and> cpus_of (foldl f avail cs) = cpus_of avail \<union> {c \<in> set cs. c \<notin> cpus_of excluded \<and> can_run m c}"
    if "\<forall>c \<in> set cs. c < 1024" for cs
    using that assms(2)
  proof (induction cs arbitrary: avail)
    case (Cons c cs)
    have "wf_cpus (f avail c)" "cpus_of (f avail c) = cpus_of avail \<union> {x. x = c \<and> c \<notin> cpus_of excluded \<and> can_run m c}"
      using Cons.prems assms(1) by (auto simp: f_def cpus_of_SET CPU_ISSET_iff)
    then show ?case using Cons.IH [of "f avail c"] Cons.prems by auto
  qed simp
  from this [of "[0..<configured m]"] show ?thesis unfolding discover_def f_def [symmetric] using assms(3) by auto
qed


text \<open>A machine on which every call of \<^verbatim>\<open>main()\<close> succeeds.\<close>

definition working :: "machine \<Rightarrow> bool" where
  "working m \<longleftrightarrow> (\<exists>a. affinity m = Some a \<and> wf_cpus a) \<and> shm_open_ok m \<and> lock_ok m \<and> fstat_ok m \<and> mmap_ok m \<and> unlock_ok m \<and>
     configured m \<le> 1024"

definition own_cpus :: "machine \<Rightarrow> nat set" where
  "own_cpus m = (case affinity m of None \<Rightarrow> {} | Some a \<Rightarrow> cpus_of a)"

text \<open>After the first \<open>j\<close> of \<open>n\<close> processes, while some are still to come.\<close>

definition joining :: "int \<Rightarrow> int \<Rightarrow> cpu_set \<Rightarrow> part_exec" where
  "joining n j avail = (initial_pe avail 0)\<lparr>nr_processes_left_in_init := n - j\<rparr>"

lemma join_first:
  assumes "working m"
  shows "\<exists>a. main_join m l None = Some (Some (joining (ppn l) 1 a), True) \<and> wf_cpus a \<and> cpus_of a = own_cpus m"
  using assms by (auto simp: working_def main_join_def join_locked_def init_shm_eq joining_def own_cpus_def)

lemma attach_more:
  assumes "wf_cpus av" "configured m \<le> 1024" "wf_cpus (cpus_available pe)" "nr_processes_left_in_init pe \<noteq> 1"
  shows "\<exists>s. attach_shm m n ex av pe = Some (pe\<lparr>cpus_available := s, nr_processes_left_in_init := nr_processes_left_in_init pe - 1\<rparr>) \<and>
    wf_cpus s \<and> cpus_of s = cpus_of (cpus_available pe) \<union> (cpus_of av \<inter> {..<configured m})"
proof -
  obtain s where s: "set_each (configured m) av CPU_SET (cpus_available pe) = Some s" "wf_cpus s"
      "cpus_of s = cpus_of (cpus_available pe) \<union> (cpus_of av \<inter> {..<configured m})"
    using set_each_SET [OF assms(1-3)] by blast
  then have "attach_shm m n ex av pe = Some (pe\<lparr>cpus_available := s, nr_processes_left_in_init := nr_processes_left_in_init pe - 1\<rparr>)"
    using assms(4) by (simp add: attach_shm_def Let_def)
  then show ?thesis using s(2,3) by blast
qed

lemma attach_last:
  assumes "wf_cpus av" "configured m \<le> 1024" "wf_cpus (cpus_available pe)" "nr_processes_left_in_init pe = 1" "wf_cpus ex"
  shows "\<exists>a. attach_shm m n ex av pe =
      Some (pe\<lparr>cpus_available := a, nr_processes_left_in_init := 0, cpus_to_assign := int (card (cpus_of a)) div n\<rparr>) \<and> wf_cpus a \<and>
    cpus_of a = (cpus_of (cpus_available pe) \<union> (cpus_of av \<inter> {..<configured m}) \<union> {c. c < configured m \<and> c \<notin> cpus_of ex \<and> can_run m c})
      - (cpus_of ex \<inter> {..<configured m})"
proof -
  obtain s where s: "set_each (configured m) av CPU_SET (cpus_available pe) = Some s" "wf_cpus s"
      "cpus_of s = cpus_of (cpus_available pe) \<union> (cpus_of av \<inter> {..<configured m})"
    using set_each_SET [OF assms(1-3)] by blast
  define d where "d = discover m ex s"
  have d: "wf_cpus d" "cpus_of d = cpus_of s \<union> {c. c < configured m \<and> c \<notin> cpus_of ex \<and> can_run m c}"
    using discover_eq [OF assms(5) s(2) assms(2)] by (simp_all add: d_def)
  obtain a where a: "set_each (configured m) ex CPU_CLR d = Some a" "wf_cpus a" "cpus_of a = cpus_of d - (cpus_of ex \<inter> {..<configured m})"
    using set_each_CLR [OF assms(5,2) d(1)] by blast
  have "attach_shm m n ex av pe = Some (pe\<lparr>cpus_available := a, nr_processes_left_in_init := 0, cpus_to_assign := int (card (cpus_of a)) div n\<rparr>)"
    using s(1) a(1) assms(4) by (simp add: attach_shm_def Let_def d_def [symmetric] CPU_COUNT_eq [OF a(2)])
  then show ?thesis using a(2,3) s(3) d(2) by (intro exI [of _ a]) simp
qed

lemma join_next:
  assumes "working m" "wf_cpus b" "ppn l = n" "j + 1 < n"
  shows "\<exists>a. main_join m l (Some (joining n j b)) = Some (Some (joining n (j + 1) a), True) \<and> wf_cpus a \<and>
    cpus_of a = cpus_of b \<union> (own_cpus m \<inter> {..<configured m})"
proof -
  obtain av where av: "affinity m = Some av" "wf_cpus av" "configured m \<le> 1024" using assms(1) by (auto simp: working_def)
  have b: "cpus_available (joining n j b) = b" "nr_processes_left_in_init (joining n j b) \<noteq> 1"
    using assms(4) by (simp_all add: joining_def initial_pe_def)
  obtain s where "attach_shm m n (cpus_excluded l) av (joining n j b) = Some (joining n (j + 1) s)" "wf_cpus s"
      "cpus_of s = cpus_of b \<union> (cpus_of av \<inter> {..<configured m})"
    using attach_more [OF av(2,3), of "joining n j b" n "cpus_excluded l"] assms(2) b by (auto simp: joining_def initial_pe_def)
  then show ?thesis using av(1) assms(1,3) by (auto simp: main_join_def join_locked_def working_def own_cpus_def)
qed

lemma join_last:
  assumes "working m" "wf_cpus b" "ppn l = n" "wf_cpus (cpus_excluded l)"
  shows "\<exists>a. main_join m l (Some (joining n (n - 1) b)) = Some (Some (initial_pe a (int (card (cpus_of a)) div n)), True) \<and> wf_cpus a \<and>
    cpus_of a = (cpus_of b \<union> (own_cpus m \<inter> {..<configured m}) \<union> {c. c < configured m \<and> c \<notin> cpus_of (cpus_excluded l) \<and> can_run m c})
      - (cpus_of (cpus_excluded l) \<inter> {..<configured m})"
proof -
  obtain av where av: "affinity m = Some av" "wf_cpus av" "configured m \<le> 1024" using assms(1) by (auto simp: working_def)
  have b: "cpus_available (joining n (n - 1) b) = b" "nr_processes_left_in_init (joining n (n - 1) b) = 1"
    by (simp_all add: joining_def initial_pe_def)
  obtain a where a: "attach_shm m n (cpus_excluded l) av (joining n (n - 1) b) = Some (initial_pe a (int (card (cpus_of a)) div n))" "wf_cpus a"
      "cpus_of a = (cpus_of b \<union> (cpus_of av \<inter> {..<configured m}) \<union> {c. c < configured m \<and> c \<notin> cpus_of (cpus_excluded l) \<and> can_run m c})
      - (cpus_of (cpus_excluded l) \<inter> {..<configured m})"
    using attach_last [OF av(2,3), of "joining n (n - 1) b" "cpus_excluded l" n] assms(2,4) b by (auto simp: joining_def initial_pe_def)
  moreover have "own_cpus m = cpus_of av" using av(1) by (simp add: own_cpus_def)
  ultimately show ?thesis using av(1) assms(1,3) by (intro exI [of _ a]) (simp add: main_join_def join_locked_def working_def)
qed

text \<open>The CPUs of all processes but the last, as they are collected.\<close>

definition collected_cpus :: "(machine \<times> launch) list \<Rightarrow> nat set" where
  "collected_cpus js = (\<Union>(m, l) \<in> set js. own_cpus m)"

lemma join_middle:
  assumes "\<forall>(m, l) \<in> set js. working m \<and> ppn l = n \<and> own_cpus m \<subseteq> {..<configured m}" "wf_cpus b" "j + int (length js) < n"
  shows "\<exists>a. join_all (js @ rest) (Some (joining n j b)) = join_all rest (Some (joining n (j + int (length js)) a)) \<and> wf_cpus a \<and>
    cpus_of a = cpus_of b \<union> collected_cpus js"
  using assms
proof (induction js arbitrary: b j)
  case Nil
  then show ?case by (auto simp: collected_cpus_def)
next
  case (Cons p js)
  obtain m l where p: "p = (m, l)" by (cases p)
  have m: "working m" "ppn l = n" "own_cpus m \<subseteq> {..<configured m}" using Cons.prems(1) p by auto
  obtain a where a: "main_join m l (Some (joining n j b)) = Some (Some (joining n (j + 1) a), True)" "wf_cpus a"
      "cpus_of a = cpus_of b \<union> (own_cpus m \<inter> {..<configured m})"
    using join_next [OF m(1) Cons.prems(2) m(2), of j] Cons.prems(3) by auto
  have "\<forall>(m, l) \<in> set js. working m \<and> ppn l = n \<and> own_cpus m \<subseteq> {..<configured m}" "j + 1 + int (length js) < n"
    using Cons.prems(1,3) by auto
  from Cons.IH [OF this(1) a(2) this(2)] obtain a' where
      a': "join_all (js @ rest) (Some (joining n (j + 1) a)) = join_all rest (Some (joining n (j + 1 + int (length js)) a'))"
        "wf_cpus a'" "cpus_of a' = cpus_of a \<union> collected_cpus js" by blast
  have "j + int (length (p # js)) = j + 1 + int (length js)" by simp
  moreover have "collected_cpus (p # js) = own_cpus m \<union> collected_cpus js" by (simp add: collected_cpus_def p)
  moreover have "own_cpus m \<inter> {..<configured m} = own_cpus m" using m(3) by blast
  ultimately show ?case using a(1,3) a' unfolding p by (intro exI [of _ a']) (simp add: Un_assoc add.assoc)
qed


text \<open>A node: the processes that are started, in the order in which they join; the last one has the machine \<open>m\<close> and the options \<open>l\<close>.\<close>

definition node_cpus :: "(machine \<times> launch) list \<Rightarrow> machine \<Rightarrow> launch \<Rightarrow> nat set" where
  "node_cpus js m l = (collected_cpus (js @ [(m, l)]) \<union> {c. c < configured m \<and> can_run m c}) - cpus_of (cpus_excluded l)"

definition starts :: "(machine \<times> launch) list \<Rightarrow> nat \<Rightarrow> nat \<Rightarrow> bool" where
  "starts js n conf \<longleftrightarrow> length js = n \<and> 2 \<le> n \<and>
     (\<forall>(m, l) \<in> set js. working m \<and> configured m = conf \<and> own_cpus m \<subseteq> {..<conf} \<and> ppn l = int n \<and>
        wf_cpus (cpus_excluded l) \<and> cpus_of (cpus_excluded l) \<subseteq> {..<conf})"

lemma join_all_eq:
  assumes "starts (js @ [(m, l)]) n conf"
  shows "\<exists>a. join_all (js @ [(m, l)]) None = Some (Some (initial_pe a (int (card (node_cpus js m l)) div int n))) \<and>
    wf_cpus a \<and> cpus_of a = node_cpus js m l"
proof -
  have ne: "js \<noteq> []" "length js = n - 1" "2 \<le> n" using assms by (auto simp: starts_def)
  then obtain m0 l0 js' where js: "js = (m0, l0) # js'" by (metis list.exhaust surj_pair)
  have E: "working m' \<and> configured m' = conf \<and> own_cpus m' \<subseteq> {..<conf} \<and> ppn l' = int n \<and> wf_cpus (cpus_excluded l') \<and> cpus_of (cpus_excluded l') \<subseteq> {..<conf}"
    if "(m', l') \<in> set (js @ [(m, l)])" for m' l'
    using assms [unfolded starts_def, THEN conjunct2, THEN conjunct2, rule_format, OF that] by simp
  have all: "\<forall>(m, l) \<in> set js. working m \<and> ppn l = int n \<and> own_cpus m \<subseteq> {..<configured m}"
    proof (clarsimp, goal_cases)
    case (1 m' l')
    then show ?case using E [of m' l'] by simp
  qed
  have m: "working m" "ppn l = int n" "own_cpus m \<subseteq> {..<configured m}" "wf_cpus (cpus_excluded l)" "cpus_of (cpus_excluded l) \<subseteq> {..<configured m}"
    using E [of m l] by simp_all
  have m0: "working m0" "ppn l0 = int n" using all js by auto
  obtain b where b: "main_join m0 l0 None = Some (Some (joining (int n) 1 b), True)" "wf_cpus b" "cpus_of b = own_cpus m0"
    using join_first [OF m0(1), of l0] m0(2) by auto
  have all': "\<forall>(m, l) \<in> set js'. working m \<and> ppn l = int n \<and> own_cpus m \<subseteq> {..<configured m}" using all js by auto
  have len: "1 + int (length js') = int n - 1" using ne js by auto
  obtain c where c: "join_all (js' @ [(m, l)]) (Some (joining (int n) 1 b)) = join_all [(m, l)] (Some (joining (int n) (int n - 1) c))"
      "wf_cpus c" "cpus_of c = cpus_of b \<union> collected_cpus js'"
    using join_middle [OF all' b(2), of 1 "[(m, l)]"] unfolding len by auto
  obtain a where a: "main_join m l (Some (joining (int n) (int n - 1) c)) = Some (Some (initial_pe a (int (card (cpus_of a)) div int n)), True)"
      "wf_cpus a" "cpus_of a = (cpus_of c \<union> (own_cpus m \<inter> {..<configured m}) \<union>
        {x. x < configured m \<and> x \<notin> cpus_of (cpus_excluded l) \<and> can_run m x}) - (cpus_of (cpus_excluded l) \<inter> {..<configured m})"
    using join_last [OF m(1) c(2) m(2,4)] by blast
  have "own_cpus m \<inter> {..<configured m} = own_cpus m" "cpus_of (cpus_excluded l) \<inter> {..<configured m} = cpus_of (cpus_excluded l)"
    using m(3,5) by blast+
  then have "cpus_of a = node_cpus js m l"
    using a(3) c(3) b(3) by (auto simp: node_cpus_def collected_cpus_def js)
  moreover have "join_all (js @ [(m, l)]) None = Some (Some (initial_pe a (int (card (cpus_of a)) div int n)))"
    using b(1) c(1) a(1) by (simp add: js)
  ultimately show ?thesis using a(2) by auto
qed


section \<open>A whole node\<close>

text \<open>What \<^verbatim>\<open>pin_process()\<close> gets from the system, with the topology of the files.\<close>

definition env_of :: "sysfs \<Rightarrow> (cpu_set \<Rightarrow> bool) \<Rightarrow> environment" where
  "env_of fs sa = \<lparr>nprocs_conf = nprocs fs,
     topology = (case collect_topology fs of Some (Inr (tops, _)) \<Rightarrow> Some tops | _ \<Rightarrow> None),
     malloc_ok = True, setaffinity_ok = sa\<rparr>"

text \<open>The processes with the PIDs \<open>P\<close> call \<^verbatim>\<open>pin_process()\<close> on the shared memory \<open>pe\<close>.\<close>

definition enter_all :: "int set \<Rightarrow> part_exec \<Rightarrow> config" where
  "enter_all P pe = \<lparr>shm = pe, status = (\<lambda>p. if p \<in> P then Not_entered else Absent), signalled = {}\<rparr>"

definition node :: "(machine \<times> launch) list \<Rightarrow> machine \<Rightarrow> launch \<Rightarrow> sysfs \<Rightarrow> (cpu_set \<Rightarrow> bool) \<Rightarrow> int set \<Rightarrow> bool" where
  "node js m l fs sa P \<longleftrightarrow> starts (js @ [(m, l)]) (card P) (nprocs fs) \<and> finite P \<and> 0 \<notin> P \<and>
     card P \<le> card (node_cpus js m l) \<and>
     (\<exists>S F N. tree fs S F N \<and> node_cpus js m l \<subseteq> S) \<and>
     (\<forall>s. wf_cpus s \<and> cpus_of s \<noteq> {} \<and> cpus_of s \<subseteq> node_cpus js m l \<longrightarrow> sa s)"

lemma tree_node_ok:
  assumes "finite P" "0 \<notin> P" "2 \<le> card P" "wf_cpus a" "card P \<le> card (cpus_of a)" "tree fs S F Nf" "cpus_of a \<subseteq> S"
    and "\<forall>s. wf_cpus s \<and> cpus_of s \<noteq> {} \<and> cpus_of s \<subseteq> cpus_of a \<longrightarrow> sa s"
  shows "node_ok P a (int (card (cpus_of a) div card P)) (env_of fs sa) \<and>
    nat (max 1 (int (card (cpus_of a) div card P))) = card (cpus_of a) div card P"
proof -
  define k where "k = card (cpus_of a) div card P"
  have "card (cpus_of a) \<le> 1024"
  proof -
    have "cpus_of a \<subseteq> {..<1024}" using cpus_of_lt by blast
    from card_mono [OF _ this] show ?thesis by simp
  qed
  have k: "1 \<le> k" "card P * k \<le> card (cpus_of a)"
    using assms(3,5) div_greater_zero_iff [of "card (cpus_of a)" "card P"] unfolding k_def by (simp_all add: Suc_le_eq)
  obtain tops nodes where t: "collect_topology fs = ok (tops, nodes)" "map cpu_id tops = sorted_list_of_set S" "wf_topology tops"
    using collect_tree_facts [OF assms(6)] by blast
  have "covers tops S" using tree_covers [OF assms(6) t(2)] .
  then have cov: "covers tops (cpus_of a)" using covers_mono assms(7) by blast
  have "nprocs fs \<le> 1024" using assms(6) by (simp add: tree_def wf_sysfs_def)
  moreover have "topology (env_of fs sa) = Some tops" using t(1) by (simp add: env_of_def ok_def)
  ultimately have "good_env (env_of fs sa) (card P) a (int k)"
    using assms(4,8) k cov t(3) unfolding good_env_def by (simp add: env_of_def)
  moreover have "P \<noteq> {}" using assms(3) by auto
  ultimately have "node_ok P a (int k) (env_of fs sa)"
    using assms(1,2,5) \<open>card (cpus_of a) \<le> 1024\<close> by (simp add: node_ok_def MAX_PROCESSES_def)
  then show ?thesis using k(1) by (simp add: k_def [symmetric])
qed

lemma node_facts:
  assumes "node js m l fs sa P"
  shows "\<exists>a. join_all (js @ [(m, l)]) None = Some (Some (initial_pe a (int (card (node_cpus js m l) div card P)))) \<and>
    cpus_of a = node_cpus js m l \<and> node_ok P a (int (card (node_cpus js m l) div card P)) (env_of fs sa) \<and>
    nat (max 1 (int (card (node_cpus js m l) div card P))) = card (node_cpus js m l) div card P"
proof -
  define C where "C = node_cpus js m l"
  have N: "starts (js @ [(m, l)]) (card P) (nprocs fs)" "finite P" "0 \<notin> P" "card P \<le> card C"
      "\<forall>s. wf_cpus s \<and> cpus_of s \<noteq> {} \<and> cpus_of s \<subseteq> C \<longrightarrow> sa s"
    using assms by (simp_all add: node_def C_def)
  obtain S F Nf where T: "tree fs S F Nf" "C \<subseteq> S" using assms by (auto simp: node_def C_def)
  obtain a where a: "join_all (js @ [(m, l)]) None = Some (Some (initial_pe a (int (card C div card P))))" "wf_cpus a" "cpus_of a = C"
    using join_all_eq [OF N(1)] by (auto simp: C_def zdiv_int)
  have "2 \<le> card P" using N(1) by (simp add: starts_def)
  from tree_node_ok [OF N(2,3) this a(2) _ T(1)] show ?thesis
    using a(1,3) N(4,5) T(2) by (auto simp: C_def [symmetric])
qed

text \<open>
  From \<^verbatim>\<open>main()\<close> to the pinning: when all processes of a node have joined the shared memory, in any
  order, it holds the union of their CPUs and the discovered ones without the excluded ones, and
  an equal share of them for each process. Every run of \<^verbatim>\<open>pin_process()\<close> without timeouts then ends, and
  it ends with every process having its position in PID order as its rank and with disjoint sets
  of exactly that many CPUs.
\<close>

theorem node_pinned:
  assumes "node js m l fs sa P"
  shows "\<exists>pe. join_all (js @ [(m, l)]) None = Some (Some pe) \<and> cpus_of (cpus_available pe) = node_cpus js m l \<and>
    cpus_to_assign pe = int (card (node_cpus js m l) div card P) \<and>
    (\<exists>c. (calm (env_of fs sa) (\<lambda>_. int (card P)))\<^sup>*\<^sup>* (enter_all P pe) c \<and> (\<nexists>c'. calm (env_of fs sa) (\<lambda>_. int (card P)) c c')) \<and>
    (\<forall>c. (calm (env_of fs sa) (\<lambda>_. int (card P)))\<^sup>*\<^sup>* (enter_all P pe) c \<and> (\<nexists>c'. calm (env_of fs sa) (\<lambda>_. int (card P)) c c') \<longrightarrow>
       (\<forall>r < card P. status c (sorted_list_of_set P ! r) = Returned (int r)) \<and>
       (\<forall>r s. r < s \<and> s < card P \<longrightarrow> cpus_of (affinities (shm c) ! r) \<inter> cpus_of (affinities (shm c) ! s) = {}) \<and>
       (\<forall>r < card P. cpus_of (affinities (shm c) ! r) \<subseteq> node_cpus js m l \<and>
          card (cpus_of (affinities (shm c) ! r)) = card (node_cpus js m l) div card P))"
proof -
  define k where "k = card (node_cpus js m l) div card P"
  obtain a where a: "join_all (js @ [(m, l)]) None = Some (Some (initial_pe a (int k)))" "cpus_of a = node_cpus js m l"
      "node_ok P a (int k) (env_of fs sa)" "nat (max 1 (int k)) = k"
    using node_facts [OF assms] unfolding k_def by blast
  have init: "enter_all P (initial_pe a (int k)) = initial P a (int k)" by (simp add: enter_all_def initial_def)
  note F = calm_final [OF a(3), unfolded a(2,4)] and E = calm_completes [OF a(3)]
  show ?thesis unfolding k_def [symmetric]
  proof (intro exI [of _ "initial_pe a (int k)"] conjI)
    show "cpus_of (cpus_available (initial_pe a (int k))) = node_cpus js m l" "cpus_to_assign (initial_pe a (int k)) = int k"
      using a(2) by (simp_all add: initial_pe_def)
    show "join_all (js @ [(m, l)]) None = Some (Some (initial_pe a (int k)))" by (rule a(1))
    show "\<exists>c. (calm (env_of fs sa) (\<lambda>_. int (card P)))\<^sup>*\<^sup>* (enter_all P (initial_pe a (int k))) c \<and> (\<nexists>c'. calm (env_of fs sa) (\<lambda>_. int (card P)) c c')"
      unfolding init by (rule E)
    show "\<forall>c. (calm (env_of fs sa) (\<lambda>_. int (card P)))\<^sup>*\<^sup>* (enter_all P (initial_pe a (int k))) c \<and> (\<nexists>c'. calm (env_of fs sa) (\<lambda>_. int (card P)) c c') \<longrightarrow>
       (\<forall>r < card P. status c (sorted_list_of_set P ! r) = Returned (int r)) \<and>
       (\<forall>r s. r < s \<and> s < card P \<longrightarrow> cpus_of (affinities (shm c) ! r) \<inter> cpus_of (affinities (shm c) ! s) = {}) \<and>
       (\<forall>r < card P. cpus_of (affinities (shm c) ! r) \<subseteq> node_cpus js m l \<and> card (cpus_of (affinities (shm c) ! r)) = k)"
    proof (intro allI impI, elim conjE, goal_cases)
      case (1 c)
      from F [OF 1(1) [unfolded init] 1(2)] show ?case by simp
    qed
  qed
qed


section \<open>Properties of the command line\<close>

lemma hd_dec: "0 < n \<Longrightarrow> hd (dec n) \<noteq> CHR ''0''"
proof (induction n rule: dec.induct)
  case (1 n)
  show ?case
  proof (cases "n < 10")
    case True
    have "code CHR ''0'' = 48" by (simp add: code_def)
    then show ?thesis using True 1(2) by (auto simp: dec_digit code_eq_iff code_digit)
  next
    case False
    then have "0 < n div 10" by simp
    then show ?thesis using 1(1) [OF False] False dec_facts [of "n div 10"] by (simp add: dec_step)
  qed
qed

lemma digits_value_dec: "digits_value 10 (dec n) = int n"
proof -
  have "foldl (\<lambda>v c. v * 10 + digit_of c) v ds = foldl (\<lambda>v c. v * 10 + int (code c - 48)) v ds" if "list_all isdigit ds" for v ds
    using that by (induction ds arbitrary: v) (simp_all add: digit_of_def)
  from this [of "dec n" 0] show ?thesis using dec_facts [of n] by (simp add: digits_value_def dec_value)
qed

lemma strtol0_dec:
  assumes "0 < n" "n < 2 ^ 63"
  shows "strtol0 (dec n) = (int n, [])"
proof -
  obtain c cs where d: "dec n = c # cs" using dec_facts [of n] by (cases "dec n") auto
  have c: "isdigit c" "c \<noteq> CHR ''0''" using dec_facts [of n] hd_dec [OF assms(1)] by (simp_all add: d)
  note s = isdigit_not [OF c(1)]
  have plus: "c \<noteq> CHR ''+''" using c(1) by (auto simp: isdigit_def code_def)
  have "digit_of x < 10" if "isdigit x" for x using that by (auto simp: digit_of_def isdigit_def)
  then have tw: "takeWhile (\<lambda>x. digit_of x < 10) (c # cs) = c # cs"
    using dec_facts [of n] unfolding d by (intro takeWhile_eq_all_conv [THEN iffD2]) (auto simp: list_all_iff)
  have "int n \<le> 2 ^ 63 - 1" using assms(2) by simp
  then show ?thesis
    using s c(2) plus digits_value_dec [of n] unfolding strtol0_def d Let_def by (simp add: tw del: takeWhile.simps)
qed

definition no_option :: "string \<Rightarrow> bool" where
  "no_option prog \<longleftrightarrow> prog = ''-'' \<or> take 1 prog \<noteq> ''-''"

lemma getopt_prog: "no_option prog \<Longrightarrow> getopt_long [] (prog # args) = (None, [], prog # args)"
  by (cases prog) (auto simp: no_option_def getopt_long_def)

lemma getopt_short: "c \<in> {CHR ''n'', CHR ''p'', CHR ''t'', CHR ''e''} \<Longrightarrow>
  getopt_long [] ((CHR ''-'' # [c]) # a # args) = (Some (int (code c), a), [], args)"
  by (auto simp: getopt_long_def)

lemma option_codes [simp]: "code CHR ''p'' = 112" "code CHR ''n'' = 110" "code CHR ''t'' = 116" "code CHR ''e'' = 101" "code CHR ''v'' = 118"
  by (simp_all add: code_def)

lemma parse_short_p:
  assumes "0 < n" "n < 2 ^ 63" "c \<in> {CHR ''n'', CHR ''p''}"
  shows "parse_options [] ((CHR ''-'' # [c]) # dec n # args) l =
    (if to_int (int n) \<le> 0 then None else parse_options [] args (l\<lparr>ppn := to_int (int n)\<rparr>))"
  using getopt_short [of c "dec n" args] assms
  by (subst parse_options.simps) (auto simp: handle_option_def strtol0_dec Let_def)

lemma parse_short_e:
  assumes "bitmap_parselist s (cpus_excluded l) 1024 = Some (0, m)"
  shows "parse_options [] (''-e'' # s # args) l = parse_options [] args (l\<lparr>cpus_excluded := m\<rparr>)"
  using getopt_short [of "CHR ''e''" s args] assms
  by (subst parse_options.simps) (simp add: handle_option_def)

lemma parse_prog: "no_option prog \<Longrightarrow> parse_options [] (prog # args) l = Some (l, prog # args)"
  using getopt_prog by (subst parse_options.simps) simp

text \<open>
  C19. \<^verbatim>\<open>-n N -e LIST prog\<close> runs \<^verbatim>\<open>prog\<close> with the CPUs of the list excluded exactly when \<open>N\<close>, converted from
  \<^verbatim>\<open>long\<close> to \<^verbatim>\<open>int\<close>, is between 2 and 1024.
\<close>

theorem main_options_accepts:
  assumes "0 < n" "n < 2 ^ 63" "c \<in> {CHR ''n'', CHR ''p''}" "ranges_ok rs 1024" "rs \<noteq> []" "no_option prog"
  shows "if to_int (int n) \<in> {2..1024} then \<exists>ex. main_options ((CHR ''-'' # [c]) # dec n # ''-e'' # list_text rs # prog # args) =
      Some (\<lparr>ppn = to_int (int n), tpp = 0, cpus_excluded = ex, verbose = False\<rparr>, prog # args) \<and> wf_cpus ex \<and> cpus_of ex = ranges_set rs
    else main_options ((CHR ''-'' # [c]) # dec n # ''-e'' # list_text rs # prog # args) = None"
proof -
  obtain ex where ex: "bitmap_parselist (list_text rs) CPU_ZERO 1024 = Some (0, ex)" "length ex = length CPU_ZERO"
      "\<forall>j < 1024. bm_bit ex j \<longleftrightarrow> j \<in> ranges_set rs"
    using bitmap_parselist_ranges [OF assms(4,5), where m = CPU_ZERO and rest = "[]"] by (auto simp: CPU_ZERO_def)
  have wf: "wf_cpus ex" using ex(2) by (simp add: wf_cpus_def CPU_ZERO_def)
  have "ranges_set rs \<subseteq> {..<1024}" using assms(4) by (fastforce simp: ranges_set_def ranges_ok_def)
  then have "cpus_of ex = ranges_set rs" using ex(3) by (auto simp: cpus_of_def bm_set_def)
  moreover have "main_options ((CHR ''-'' # [c]) # dec n # ''-e'' # list_text rs # prog # args) =
      (if to_int (int n) \<in> {2..1024} then Some (\<lparr>ppn = to_int (int n), tpp = 0, cpus_excluded = ex, verbose = False\<rparr>, prog # args) else None)"
    using ex(1) by (auto simp: main_options_def parse_short_p [OF assms(1-3)] parse_short_e parse_prog [OF assms(6)] MAX_PROCESSES_def)
  ultimately show ?thesis using wf by simp
qed

text \<open>
  The options \<^verbatim>\<open>--compact\<close> and \<^verbatim>\<open>--scatter\<close>, also when shortened, end the program:
  \<^verbatim>\<open>getopt_long()\<close> returns 0 for an option that sets a flag, and the \<^verbatim>\<open>switch\<close> treats 0 as an unknown option.
\<close>

theorem layout_options_exit:
  "opt \<in> {''--compact'', ''--scatter'', ''--com'', ''--s''} \<Longrightarrow> main_options (opt # args) = None"
proof -
  have "getopt_long [] (opt # args) = (Some (0, []), [], args)" if "opt \<in> {''--compact'', ''--scatter'', ''--com'', ''--s''}"
    using that by (auto simp: getopt_long_def take_long_def find_long_def options_def)
  then show "opt \<in> {''--compact'', ''--scatter'', ''--com'', ''--s''} \<Longrightarrow> main_options (opt # args) = None"
    unfolding main_options_def by (subst parse_options.simps) (simp add: handle_option_def)
qed


lemma short_suffix: "short_option s args = (r, s', args') \<Longrightarrow> \<exists>pre. args = pre @ args'"
  by (cases s) (auto simp: bad_option_def Cons_eq_append_conv split: if_splits list.splits)

lemma getopt_suffix:
  assumes "getopt_long s args = (r, s', args')"
  shows "\<exists>pre. args = pre @ args'"
proof (cases "s = [] \<and> args \<noteq> []")
  case True
  then obtain a as where a: "args = a # as" by (cases args) auto
  have "(\<exists>pre. as = pre @ args') \<or> args' = args"
    using assms True short_suffix unfolding a
    by (auto simp: getopt_long_def take_long_def bad_option_def Let_def Cons_eq_append_conv split: if_splits list.splits option.splits)
  then show ?thesis unfolding a by (auto intro: exI [of _ "a # pre" for pre])
next
  case False
  then show ?thesis using assms short_suffix by (auto simp: getopt_long_def split: if_splits)
qed

definition wf_launch :: "launch \<Rightarrow> bool" where
  "wf_launch l \<longleftrightarrow> wf_cpus (cpus_excluded l) \<and> 0 \<le> ppn l \<and> 0 \<le> tpp l"

lemma handle_option_wf:
  assumes "handle_option opt optarg l = Some l'" "wf_launch l"
  shows "wf_launch l'"
proof -
  have "backed (cpus_excluded l) 1024" using assms(2) by (simp add: wf_launch_def wf_cpus_def)
  from bitmap_parselist_total [OF this, of optarg] obtain e m where
    "bitmap_parselist optarg (cpus_excluded l) 1024 = Some (e, m)" "length m = length (cpus_excluded l)" by blast
  then show ?thesis using assms by (auto simp: handle_option_def wf_launch_def wf_cpus_def Let_def split: if_splits prod.splits)
qed

lemma parse_options_sound:
  "parse_options s args l = Some (l', rest) \<Longrightarrow> wf_launch l \<Longrightarrow> wf_launch l' \<and> (\<exists>pre. args = pre @ rest)"
proof (induction s args l rule: parse_options.induct)
  case (1 s args l)
  obtain r s' args' where g: "getopt_long s args = (r, s', args')" by (cases "getopt_long s args")
  obtain pre where pre: "args = pre @ args'" using getopt_suffix [OF g] by blast
  show ?case
  proof (cases r)
    case None
    then show ?thesis using "1.prems" g pre by (simp add: parse_options.simps [of s])
  next
    case (Some p)
    obtain opt optarg where p: "p = (opt, optarg)" by (cases p)
    obtain l1 where l1: "handle_option opt optarg l = Some l1" "parse_options s' args' l1 = Some (l', rest)"
      using "1.prems"(1) g Some p by (auto simp: parse_options.simps [of s] bind_eq_Some_conv)
    have "wf_launch l' \<and> (\<exists>pre. args' = pre @ rest)"
      using "1.IH" [OF g [symmetric] Some p [symmetric] refl l1] handle_option_wf [OF l1(1) "1.prems"(2)] by blast
    then show ?thesis using pre by auto
  qed
qed


text \<open>
  C20. Whatever the command line is, \<^verbatim>\<open>main()\<close> exits or goes on with a program to run, which are the last
  arguments, a number of processes between 2 and 1024, and a complete set of excluded CPUs.
\<close>

theorem main_options_sound:
  assumes "main_options args = Some (l, rest)"
  shows "2 \<le> ppn l \<and> ppn l \<le> 1024 \<and> wf_cpus (cpus_excluded l) \<and> rest \<noteq> [] \<and> (\<exists>pre. args = pre @ rest)"
proof -
  have "parse_options [] args \<lparr>ppn = 0, tpp = 0, cpus_excluded = CPU_ZERO, verbose = False\<rparr> = Some (l, rest)"
    "rest \<noteq> []" "ppn l \<noteq> 0" "ppn l \<noteq> 1" "ppn l \<le> 1024"
    using assms by (auto simp: main_options_def bind_eq_Some_conv MAX_PROCESSES_def split: if_splits)
  moreover have "wf_launch \<lparr>ppn = 0, tpp = 0, cpus_excluded = CPU_ZERO, verbose = False\<rparr>" by (simp add: wf_launch_def)
  ultimately have "wf_launch l" "\<exists>pre. args = pre @ rest" using parse_options_sound by blast+
  moreover have "2 \<le> ppn l" using \<open>wf_launch l\<close> \<open>ppn l \<noteq> 0\<close> \<open>ppn l \<noteq> 1\<close> by (simp add: wf_launch_def)
  ultimately show ?thesis using \<open>rest \<noteq> []\<close> \<open>ppn l \<le> 1024\<close> by (simp add: wf_launch_def)
qed

section \<open>Printing the affinity\<close>

text \<open>
  With \<^verbatim>\<open>--verbose\<close> the affinity is printed into \<^verbatim>\<open>char mask[1024]\<close>; \<^verbatim>\<open>pin_process()\<close> prints it into
  \<^verbatim>\<open>char cpu_list[PAGE_SIZE]\<close>.
\<close>

definition print_affinity :: "string \<Rightarrow> cpu_set \<Rightarrow> (string \<times> nat) option" where
  "print_affinity buf cpus = bitmap_scnlistprintf buf 1024 (Some cpus) 1024"

definition print_cpu_list :: "string \<Rightarrow> cpu_set \<Rightarrow> (string \<times> nat) option" where
  "print_cpu_list buf cpus = bitmap_scnlistprintf buf PAGE_SIZE (Some cpus) 1024"

text \<open>
  The end of \<^verbatim>\<open>main()\<close>, after \<^verbatim>\<open>pin_process()\<close> has returned \<open>node_rank\<close>: \<open>cpus\<close> is what the second
  \<^verbatim>\<open>sched_getaffinity()\<close> gives, \<open>exec_ok\<close> whether \<^verbatim>\<open>execvp()\<close> succeeds.
\<close>

datatype outcome = Exit_failure | Runs "string list"

definition main_finish :: "launch \<Rightarrow> int \<Rightarrow> string \<Rightarrow> cpu_set option \<Rightarrow> bool \<Rightarrow> string list \<Rightarrow> outcome option" where
  "main_finish l node_rank buf cpus exec_ok args =
     (if node_rank < 0 then Some Exit_failure
      else if verbose l then
        (case cpus of
           None \<Rightarrow> Some Exit_failure
         | Some cpus \<Rightarrow> do { _ \<leftarrow> print_affinity buf cpus; Some (if exec_ok then Runs args else Exit_failure) })
      else Some (if exec_ok then Runs args else Exit_failure))"

text \<open>
  C23. The list of any CPU set fits into \<^verbatim>\<open>cpu_list\<close>. With \<^verbatim>\<open>--verbose\<close> the list is printed inside of \<^verbatim>\<open>mask\<close>, and the
  program runs, when it is shorter than 1024 characters; when already the list without its last range has 1024
  characters, the printing writes behind the end of \<^verbatim>\<open>mask\<close>.
\<close>

theorem print_affinity_bounds:
  assumes "length buf = 1024" "length cpu_list = PAGE_SIZE" "wf_cpus cpus" "ts = list_text (runs_of cpus 1024)"
    and "0 \<le> node_rank" "verbose l"
  shows "(\<exists>b. print_cpu_list cpu_list cpus = Some (b, length ts) \<and> printed ts b \<and> length b = PAGE_SIZE) \<and>
    (length ts < 1024 \<longrightarrow> (\<exists>b. print_affinity buf cpus = Some (b, length ts) \<and> printed ts b \<and> length b = 1024) \<and>
       main_finish l node_rank buf (Some cpus) True args = Some (Runs args)) \<and>
    (1024 \<le> length (list_text (butlast (runs_of cpus 1024))) \<longrightarrow>
       print_affinity buf cpus = None \<and> main_finish l node_rank buf (Some cpus) True args = None)"
proof -
  have b: "backed cpus 1024" using assms(3) by (simp add: wf_cpus_def)
  have "length ts < PAGE_SIZE" using runs_of_length [of 1024 cpus] by (simp add: assms(4) PAGE_SIZE_def)
  then have "\<exists>b. print_cpu_list cpu_list cpus = Some (b, length ts) \<and> printed ts b \<and> length b = PAGE_SIZE"
    using scnlistprintf_fits [OF b, of PAGE_SIZE cpu_list] assms(2,4) by (auto simp: print_cpu_list_def PAGE_SIZE_def)
  moreover have "length ts < 1024 \<longrightarrow> (\<exists>b. print_affinity buf cpus = Some (b, length ts) \<and> printed ts b \<and> length b = 1024)"
    using scnlistprintf_fits [OF b, of 1024 buf] assms(1,4) by (auto simp: print_affinity_def)
  moreover have "1024 \<le> length (list_text (butlast (runs_of cpus 1024))) \<longrightarrow> print_affinity buf cpus = None"
    using scnlistprintf_overflow [OF b, of buf 1024] assms(1) by (simp add: print_affinity_def)
  moreover have "main_finish l node_rank buf (Some cpus) True args = do { _ \<leftarrow> print_affinity buf cpus; Some (Runs args) }"
    using assms(5,6) by (simp add: main_finish_def)
  ultimately show ?thesis by auto
qed

section \<open>A concrete node\<close>

definition example_machine :: "nat \<Rightarrow> machine" where
  "example_machine cpu = \<lparr>affinity = Some (CPU_SET cpu CPU_ZERO), shm_open_ok = True, lock_ok = True, fstat_ok = True, mmap_ok = True,
     unlock_ok = True, configured = 2, can_run = (\<lambda>_. False)\<rparr>"

definition example_launch :: launch where
  "example_launch = \<lparr>ppn = 2, tpp = 0, cpus_excluded = CPU_ZERO, verbose = False\<rparr>"

lemma example_starts: "starts [(example_machine 0, example_launch), (example_machine 1, example_launch)] 2 2"
  by (simp add: starts_def working_def own_cpus_def example_machine_def example_launch_def cpus_of_SET)

lemma example_node_cpus: "node_cpus [(example_machine 0, example_launch)] (example_machine 1) example_launch = {0, 1}"
  by (auto simp: node_cpus_def collected_cpus_def own_cpus_def example_machine_def example_launch_def cpus_of_SET)

lemma example_node: "node [(example_machine 0, example_launch)] (example_machine 1) example_launch example_fs (\<lambda>_. True) {101, 102}"
proof -
  have c: "card {101, 102 :: int} = 2" "nprocs example_fs = 2" "card {0, 1 :: nat} = 2" by (simp_all add: example_fs_def)
  have "\<exists>S F N. tree example_fs S F N \<and> {0, 1} \<subseteq> S" using example_tree by blast
  then show ?thesis unfolding node_def example_node_cpus c append_Cons append_Nil
    by (intro conjI example_starts) simp_all
qed

theorem node_pinned_witness:
  "\<exists>pe c. join_all [(example_machine 0, example_launch), (example_machine 1, example_launch)] None = Some (Some pe) \<and>
     (calm (env_of example_fs (\<lambda>_. True)) (\<lambda>_. 2))\<^sup>*\<^sup>* (enter_all {101, 102} pe) c \<and> status c 101 = Returned 0 \<and> status c 102 = Returned 1 \<and>
     card (cpus_of (affinities (shm c) ! 0)) = 1 \<and> card (cpus_of (affinities (shm c) ! 1)) = 1"
proof -
  have s: "sorted_list_of_set {101, 102 :: int} = [101, 102]" "card {101, 102 :: int} = 2" by simp_all
  have k: "card {0, 1 :: nat} div 2 = 1" by simp
  note T = node_pinned [OF example_node, unfolded example_node_cpus s k of_nat_numeral append_Cons append_Nil]
  from T obtain pe where pe: "join_all [(example_machine 0, example_launch), (example_machine 1, example_launch)] None = Some (Some pe)"
    and run: "\<exists>c. (calm (env_of example_fs (\<lambda>_. True)) (\<lambda>_. 2))\<^sup>*\<^sup>* (enter_all {101, 102} pe) c \<and> (\<nexists>c'. calm (env_of example_fs (\<lambda>_. True)) (\<lambda>_. 2) c c')"
    and final: "\<And>c. (calm (env_of example_fs (\<lambda>_. True)) (\<lambda>_. 2))\<^sup>*\<^sup>* (enter_all {101, 102} pe) c \<Longrightarrow> \<nexists>c'. calm (env_of example_fs (\<lambda>_. True)) (\<lambda>_. 2) c c' \<Longrightarrow>
      (\<forall>r < 2. status c ([101, 102] ! r) = Returned (int r)) \<and> (\<forall>r < 2. card (cpus_of (affinities (shm c) ! r)) = 1)"
    by (elim exE conjE) (rule that, assumption, rule exI, rule conjI, assumption+, simp)
  from run obtain c where c0: "(calm (env_of example_fs (\<lambda>_. True)) (\<lambda>_. 2))\<^sup>*\<^sup>* (enter_all {101, 102} pe) c"
      "\<nexists>c'. calm (env_of example_fs (\<lambda>_. True)) (\<lambda>_. 2) c c'" by (elim exE conjE)
  note c = c0(1) final [OF c0, THEN conjunct1] final [OF c0, THEN conjunct2]
  show ?thesis using pe c(1) c(2) [rule_format, of 0] c(2) [rule_format, of 1] c(3) by (intro exI [of _ pe] exI [of _ c]) simp
qed

theorem main_options_accepts_witness:
  "\<exists>ex. main_options [''-p'', dec (2 ^ 32 + 4), ''-e'', ''0-1'', ''app''] =
     Some (\<lparr>ppn = 4, tpp = 0, cpus_excluded = ex, verbose = False\<rparr>, [''app'']) \<and> cpus_of ex = {0, 1}"
proof -
  have t: "list_text [(0, 1)] = ''0-1''" by code_simp
  have r: "ranges_ok [(0, 1)] 1024" "ranges_set [(0, 1)] = {0, 1}" by (auto simp: ranges_ok_def ranges_set_def)
  have i: "to_int (int (2 ^ 32 + 4)) = 4" by (simp add: to_int_def signed_take_bit_def take_bit_eq_mod)
  show ?thesis
    using main_options_accepts [of "2 ^ 32 + 4" "CHR ''p''" "[(0, 1)]" "''app''" "[]", OF _ _ _ r(1)] unfolding t r(2) i
    by (auto simp: no_option_def)
qed

theorem layout_options_exit_witness: "main_options [''--compact'', ''-p'', ''2'', ''app''] = None"
  by (rule layout_options_exit) simp

theorem main_options_sound_witness:
  "\<exists>l rest. main_options [''-p'', ''4'', ''app''] = Some (l, rest) \<and> ppn l \<le> 1024 \<and> rest \<noteq> []"
proof -
  have d: "dec 4 = ''4''" by code_simp
  have i: "to_int 4 = 4" by (simp add: to_int_def signed_take_bit_def take_bit_eq_mod)
  have "main_options [''-p'', dec 4, ''app''] = Some (\<lparr>ppn = 4, tpp = 0, cpus_excluded = CPU_ZERO, verbose = False\<rparr>, [''app''])"
    using parse_short_p [of 4 "CHR ''p''"] parse_prog [of "''app''" "[]"] by (simp add: main_options_def i no_option_def MAX_PROCESSES_def)
  from this [unfolded d] main_options_sound [OF this [unfolded d]] show ?thesis by auto
qed


text \<open>Every second CPU: the list of these CPUs has more than 1024 characters.\<close>

definition even_cpus :: cpu_set where
  "even_cpus = replicate 16 0x5555555555555555"

lemma even_cpus_bit: "bm_bit even_cpus i \<longleftrightarrow> i < 1024 \<and> even i"
proof -
  have b: "bit (0x5555555555555555 :: ulong) k \<longleftrightarrow> even k" if "k < 64" for k
  proof -
    have "\<forall>k \<in> set [0..<64]. bit (0x5555555555555555 :: ulong) k \<longleftrightarrow> even k" by code_simp
    then show ?thesis using that by simp
  qed
  show ?thesis
  proof (cases "i < 1024")
    case True
    then have "i div 64 < 16" by (simp add: less_mult_imp_div_less)
    moreover have "even (i mod 64) \<longleftrightarrow> even i" by (simp add: dvd_mod_iff)
    ultimately show ?thesis using True b [of "i mod 64"] by (simp add: bm_bit_def even_cpus_def)
  next
    case False
    then show ?thesis by (auto simp: bm_bit_def even_cpus_def)
  qed
qed

lemma runs_even:
  assumes "\<And>i. P i \<longleftrightarrow> i < 2 * n \<and> even i" "k \<le> n"
  shows "runs P (2 * n) (2 * (n - k)) (2 * (n - k)) = map (\<lambda>i. (2 * i, 2 * i)) [n - k..<n]"
  using assms(2)
proof (induction k)
  case 0
  then show ?case by (simp add: runs_end)
next
  case (Suc k)
  define c where "c = n - Suc k"
  have c: "c < n" "n - k = Suc c" using Suc.prems by (auto simp: c_def)
  have "next_from P (2 * n) (Suc (2 * c)) = 2 * Suc c"
  proof (rule next_from_eqI)
    fix j assume "Suc (2 * c) \<le> j" "j < 2 * Suc c"
    then have "j = Suc (2 * c)" by simp
    then show "\<not> P j" unfolding assms(1) by simp
  next
    assume "2 * Suc c < 2 * n"
    then show "P (2 * Suc c)" unfolding assms(1) by simp
  qed (use c(1) in simp_all)
  then have "runs P (2 * n) (2 * c) (2 * c) = (2 * c, 2 * c) # runs P (2 * n) (2 * Suc c) (2 * Suc c)"
    using c(1) by (intro runs_new) auto
  also have "\<dots> = map (\<lambda>i. (2 * i, 2 * i)) [c..<n]"
    using Suc.IH Suc.prems c by (simp add: upt_conv_Cons)
  finally show ?case by (simp add: c_def)
qed


lemma list_text_long:
  assumes "\<forall>r \<in> set rs. k \<le> length (range_text r)" "rs \<noteq> []"
  shows "length rs * Suc k \<le> Suc (length (list_text (rs0 @ rs)))"
proof (induction rs0)
  case Nil
  from assms have "length rs * Suc k \<le> Suc (length (list_text rs))"
  proof (induction rs)
    case (Cons r rs)
    then show ?case by (cases "rs = []") (auto simp: list_text_Cons)
  qed simp
  then show ?case by simp
next
  case (Cons r rs0)
  then show ?case using assms(2) by (simp add: list_text_Cons)
qed

lemma upt_split_last: "a \<le> b \<Longrightarrow> [0..<Suc b] = [0..<a] @ [a..<b] @ [b]"
  using upt_add_eq_append [of 0 a "b - a"] by simp

theorem print_affinity_bounds_witness:
  "main_finish (example_launch\<lparr>verbose := True\<rparr>) 0 (replicate 1024 NUL) (Some even_cpus) True [''app''] = None"
proof -
  have v: "(0 :: int) \<le> 0" "verbose (example_launch\<lparr>verbose := True\<rparr>)" by simp_all
  have wf: "wf_cpus even_cpus" by (simp add: wf_cpus_def even_cpus_def)
  have bit: "bm_bit even_cpus i \<longleftrightarrow> i < 2 * 512 \<and> even i" for i using even_cpus_bit by simp
  have "next_from (bm_bit even_cpus) 1024 0 = 0" by (rule next_from_eqI) (simp_all add: even_cpus_bit)
  then have "runs_of even_cpus 1024 = map (\<lambda>i. (2 * i, 2 * i)) [0..<512]"
    using runs_even [OF bit order_refl] by (simp add: runs_of_def)
  moreover have "[0..<512] = [0..<5] @ [5..<511] @ [511 :: nat]"
  proof -
    have "(512 :: nat) = Suc 511" by simp
    then show ?thesis using upt_split_last [of 5 511] by (simp only:)
  qed
  ultimately have "runs_of even_cpus 1024 = (map (\<lambda>i. (2 * i, 2 * i)) [0..<5] @ map (\<lambda>i. (2 * i, 2 * i)) [5..<511]) @ [(2 * 511, 2 * 511)]"
    by (simp only: map_append list.map append_assoc)
  then have runs: "butlast (runs_of even_cpus 1024) = map (\<lambda>i. (2 * i, 2 * i)) [0..<5] @ map (\<lambda>i. (2 * i, 2 * i)) [5..<511]"
    by (simp only: butlast_snoc)
  have "2 \<le> length (dec n)" if "10 \<le> n" for n 
    using that dec_facts [of "n div 10"] dec_step [of n] by (cases "dec (n div 10)") simp_all
  then have "\<forall>r \<in> (\<lambda>i. (2 * i, 2 * i)) ` {5..<511}. 2 \<le> length (range_text r)" by auto
  then have "\<forall>r \<in> set (map (\<lambda>i. (2 * i, 2 * i)) [5..<511]). 2 \<le> length (range_text r)" unfolding set_map set_upt .
  from list_text_long [OF this, of "map (\<lambda>i. (2 * i, 2 * i)) [0..<5]"]
  have "1024 \<le> length (list_text (butlast (runs_of even_cpus 1024)))"
    unfolding runs length_map length_upt map_is_Nil_conv upt_eq_Nil_conv by simp
  then show ?thesis using print_affinity_bounds [OF _ _ wf refl v, of "replicate 1024 NUL" "replicate PAGE_SIZE NUL"]
    by (simp only: length_replicate simp_thms)
qed

end
