(* ===== verification/Pin_Faults.thy ===== *)
theory Pin_Faults
  imports Protocol
begin

text \<open>
  Faults in the middle of the protocol of theory \<open>Protocol\<close>: a return of \<^verbatim>\<open>pthread_cond_timedwait()\<close> without a signal,
  and a failing \<^verbatim>\<open>sched_setaffinity()\<close>. After a spurious wake-up the run of the others is the run in which
  the process still waits but never runs (\<open>still_waits\<close>), so the simulation of theory \<open>Protocol\<close> says where it stops.
\<close>


section \<open>Spurious wake-ups\<close>

lemma not_ready:
  assumes "slot pe i = Some it" "timeout it = 0" "ready it = 0"
  shows "after_wait env pe p i 0 = Some (pe, [], - EINVAL)"
  using assms by (simp add: after_wait_def ETIMEDOUT_def)

lemma waiting_not_ready:
  assumes ok: "node_ok P avail k env" and r: "represents P avail k c ph" and st: "status c p = Waiting i" "i \<notin> signalled c"
  shows "\<exists>it. slot (shm c) i = Some it \<and> timeout it = 0 \<and> ready it = 0"
proof (cases ph)
  case (Gather E)
  then obtain w where g: "gathered (card P) E w avail k (shm c)" and wt: "\<forall>p \<in> E. status c p = Waiting (int (w p))"
    using r by auto
  have "p \<in> E" using gather_status(4) [of P avail k c E p i] r Gather st(1) by blast
  then have "i = int (w p)" "w p < length (processes (shm c))" "timeout (processes (shm c) ! w p) = 0" "ready (processes (shm c) ! w p) = 0"
    using wt g st(1) by (auto simp: gathered_def laid_def)
  then show ?thesis by (simp add: slot_in)
next
  case (Drain m)
  note PF = pids_facts [OF ok] and fin = node_okD(1) [OF ok]
  obtain w where w: "turn (pids P) w avail k m (shm c)"
      "\<forall>j < card P. status c (pids P ! j) = (if j < m then Returned (int j) else Waiting (int (w (pids P ! j))))"
      "signalled c = (if m < card P then {int (w (pids P ! m))} else {})" "\<forall>p. p \<notin> P \<longrightarrow> status c p = Absent"
    using r Drain by auto
  obtain j where j: "j < card P" "m \<le> j" "p = pids P ! j" "i = int (w (pids P ! j))"
    using drain_waiting [OF w(1) fin w(2,4) st(1)] by blast
  have "m \<noteq> j" using w(3) st(2) j by auto
  then have "w (pids P ! j) < length (processes (shm c))" "timeout (processes (shm c) ! w (pids P ! j)) = 0"
      "ready (processes (shm c) ! w (pids P ! j)) = 0"
    using w(1) j PF(1,3) by (auto simp: turn_def laid_def)
  then show ?thesis using j(4) by (simp add: slot_in)
qed

text \<open>A state in which \<open>p\<close> has left is, for everyone else, the state in which it still waits.\<close>

definition still_waits :: "int \<Rightarrow> int \<Rightarrow> config \<Rightarrow> config" where
  "still_waits p i c = c\<lparr>status := (status c)(p := Waiting i)\<rparr>"

fun actor :: "label \<Rightarrow> int" where
  "actor (Enter p) = p"
| "actor (Wake p) = p"
| "actor (Spurious p) = p"
| "actor (Timeout p) = p"

lemma step_actor_status:
  assumes "step env ppn c l c'"
  shows "\<forall>r. status c (actor l) \<noteq> Returned r" "p \<noteq> actor l \<Longrightarrow> status c' p = status c p"
  using assms by (cases; simp)+

lemma still_waits_sel [simp]:
  "shm (still_waits p i c) = shm c" "signalled (still_waits p i c) = signalled c"
  "status (still_waits p i c) p = Waiting i" "q \<noteq> p \<Longrightarrow> status (still_waits p i c) q = status c q"
  by (simp_all add: still_waits_def)

lemma still_waits_update:
  "q \<noteq> p \<Longrightarrow> still_waits p i (c\<lparr>shm := pe, status := (status c)(q := x), signalled := S\<rparr>) =
     (still_waits p i c)\<lparr>shm := pe, status := (status (still_waits p i c))(q := x), signalled := S\<rparr>"
  "q \<noteq> p \<Longrightarrow> still_waits p i (c\<lparr>shm := pe, status := (status c)(q := x)\<rparr>) =
     (still_waits p i c)\<lparr>shm := pe, status := (status (still_waits p i c))(q := x)\<rparr>"
  by (simp_all add: still_waits_def fun_upd_twist)

lemma step_without:
  assumes "step env ppn c l c'" "actor l \<noteq> p"
  shows "step env ppn (still_waits p i c) l (still_waits p i c')"
  using assms(1)
proof cases
  case (enter_refused q pe sig e)
  then have "q \<noteq> p" using assms(2) by simp
  then show ?thesis unfolding enter_refused(1,2) still_waits_update [OF \<open>q \<noteq> p\<close>] still_waits_sel(2) [of p i c, symmetric] using enter_refused by (intro step.enter_refused) simp_all
next
  case (enter_waits q pe sig j)
  then have "q \<noteq> p" using assms(2) by simp
  then show ?thesis unfolding enter_waits(1,2) still_waits_update [OF \<open>q \<noteq> p\<close>] still_waits_sel(2) [of p i c, symmetric] using enter_waits by (intro step.enter_waits) simp_all
next
  case (enter_proceeds q pe sig j pe' sig' r)
  then have "q \<noteq> p" using assms(2) by simp
  then show ?thesis unfolding enter_proceeds(1,2) still_waits_update [OF \<open>q \<noteq> p\<close>] still_waits_sel(2) [of p i c, symmetric] using enter_proceeds by (intro step.enter_proceeds) simp_all
next
  case (wake q j pe sig r)
  then have "q \<noteq> p" using assms(2) by simp
  then show ?thesis unfolding wake(1,2) still_waits_update [OF \<open>q \<noteq> p\<close>] still_waits_sel(2) [of p i c, symmetric] using wake by (intro step.wake) simp_all
next
  case (spurious q j pe sig r)
  then have "q \<noteq> p" using assms(2) by simp
  then show ?thesis unfolding spurious(1,2) still_waits_update [OF \<open>q \<noteq> p\<close>] still_waits_sel(2) [of p i c, symmetric] using spurious by (intro step.spurious) simp_all
next
  case (timed_out q j pe sig r)
  then have "q \<noteq> p" using assms(2) by simp
  then show ?thesis unfolding timed_out(1,2) still_waits_update [OF \<open>q \<noteq> p\<close>] still_waits_sel(2) [of p i c, symmetric] using timed_out by (intro step.timed_out) simp_all
qed

lemma step_with:
  assumes "step env ppn (still_waits p i c) l d" "actor l \<noteq> p"
  shows "\<exists>c'. step env ppn c l c'"
  using assms(1)
proof cases
  case (enter_refused q pe sig e)
  then have "q \<noteq> p" using assms(2) by simp
  then show ?thesis using enter_refused step.enter_refused [where c = c and p = q and ppn = ppn and env = env and pe = pe and sig = sig and e = e] by auto
next
  case (enter_waits q pe sig j)
  then have "q \<noteq> p" using assms(2) by simp
  then show ?thesis using enter_waits step.enter_waits [where c = c and p = q and ppn = ppn and env = env and pe = pe and sig = sig and i = j] by auto
next
  case (enter_proceeds q pe sig j pe' sig' r)
  then have "q \<noteq> p" using assms(2) by simp
  then show ?thesis using enter_proceeds step.enter_proceeds [where c = c and p = q and ppn = ppn and env = env and pe = pe and sig = sig and i = j and pe' = pe' and sig' = sig' and r = r] by auto
next
  case (wake q j pe sig r)
  then have "q \<noteq> p" using assms(2) by simp
  then show ?thesis using wake step.wake [where c = c and p = q and ppn = ppn and env = env and i = j and pe = pe and sig = sig and r = r] by auto
next
  case (spurious q j pe sig r)
  then have "q \<noteq> p" using assms(2) by simp
  then show ?thesis using spurious step.spurious [where c = c and p = q and ppn = ppn and env = env and i = j and pe = pe and sig = sig and r = r] by auto
next
  case (timed_out q j pe sig r)
  then have "q \<noteq> p" using assms(2) by simp
  then show ?thesis using timed_out step.timed_out [where c = c and p = q and ppn = ppn and env = env and i = j and pe = pe and sig = sig and r = r] by auto
qed

lemma calm_without:
  assumes "calm env ppn c c'" "status c p = Returned r"
  shows "calm env ppn (still_waits p i c) (still_waits p i c') \<and> status c' p = Returned r"
proof -
  obtain l where l: "calm_label l" "step env ppn c l c'" using assms(1) by (auto simp: calm_def)
  have "actor l \<noteq> p" using step_actor_status(1) [OF l(2)] assms(2) by auto
  then show ?thesis using l step_without [OF l(2)] step_actor_status(2) [OF l(2), of p] assms(2) by (auto simp: calm_def)
qed

lemma calm_power_without:
  "(calm env ppn ^^ m) c c' \<Longrightarrow> status c p = Returned r \<Longrightarrow>
   (calm env ppn ^^ m) (still_waits p i c) (still_waits p i c') \<and> status c' p = Returned r"
proof (induction m arbitrary: c')
  case (Suc m)
  then obtain c1 where c1: "(calm env ppn ^^ m) c c1" "calm env ppn c1 c'" by auto
  then show ?case using Suc.IH [OF c1(1) Suc.prems(2)] calm_without [OF c1(2)] by auto
qed simp

text \<open>Who can run in a state of a calm run: in the draining phase only the process whose turn it is.\<close>

lemma wake_turn:
  assumes ok: "node_ok P avail k env" and r: "represents P avail k c ph" and w: "status c p = Waiting i" "i \<in> signalled c"
  shows "\<exists>m. ph = Drain m \<and> m < card P \<and> p = pids P ! m"
proof (cases ph)
  case (Gather E)
  then show ?thesis using r w(2) by auto
next
  case (Drain m)
  note PF = pids_facts [OF ok] and fin = node_okD(1) [OF ok]
  obtain v where v: "turn (pids P) v avail k m (shm c)"
      "\<forall>j < card P. status c (pids P ! j) = (if j < m then Returned (int j) else Waiting (int (v (pids P ! j))))"
      "signalled c = (if m < card P then {int (v (pids P ! m))} else {})" "\<forall>p. p \<notin> P \<longrightarrow> status c p = Absent"
    using r Drain by auto
  obtain j where j: "j < card P" "m \<le> j" "p = pids P ! j" "i = int (v (pids P ! j))"
    using drain_waiting [OF v(1) fin v(2,4) w(1)] by blast
  have m: "m < card P" "v (pids P ! j) = v (pids P ! m)" using v(3) w(2) j(4) by (auto split: if_splits)
  moreover have "inj_on v P" using v(1) PF(1) by (simp add: turn_def laid_def)
  ultimately have "p = pids P ! m" using j(1,3) PF(1,3) by (metis inj_onD nth_mem)
  then show ?thesis using Drain m(1) by blast
qed

lemma stuck_without:
  assumes ok: "node_ok P avail k env" and r: "represents P avail k (still_waits p i c) ph"
    and stuck: "\<nexists>c'. calm env (\<lambda>_. int (card P)) c c'"
  shows "\<exists>m. ph = Drain m \<and> m < card P \<and> p = pids P ! m"
proof -
  have st: "status (still_waits p i c) p = Waiting i" by (simp add: still_waits_def)
  have "0 < remaining (card P) ph"
  proof (cases "remaining (card P) ph")
    case 0
    then have "ph = Drain (card P)" using remaining_0 [OF r node_okD(1) [OF ok]] by simp
    then have d: "represents P avail k (still_waits p i c) (Drain (card P))" using r by simp
    have "p \<in> P" using d st by (metis represents.simps(2) status.distinct(3))
    then obtain j where "j < card P" "p = pids P ! j" using pids_index [OF node_okD(1) [OF ok]] by blast
    then show ?thesis using drain_status(2) [OF d node_okD(1) [OF ok], of j] st by simp
  qed simp
  from progress [OF ok r this] obtain d l where d: "calm_label l" "step env (\<lambda>_. int (card P)) (still_waits p i c) l d"
    by (auto simp: calm_def)
  have "actor l = p" using step_with [OF d(2)] d(1) stuck by (auto simp: calm_def)
  then have "l = Wake p" using d st by (cases l) (auto elim!: step_EnterE)
  then have "i \<in> signalled (still_waits p i c)" using d(2) st by (auto elim!: step_WakeE)
  from wake_turn [OF ok r st this] show ?thesis .
qed


text \<open>
  C15. \<^verbatim>\<open>pthread_cond_timedwait()\<close> may return without a signal, and \<^verbatim>\<open>pin_process()\<close> does not wait again:
  the process returns \<^verbatim>\<open>-EINVAL\<close> and stays in the list. However the others run on, without timeouts they stop when its turn comes:
  those before it in PID order have their ranks, all behind it wait for a signal that nobody will send.
\<close>

theorem pin_process_spurious:
  assumes "node_ok P avail k env" "(calm env (\<lambda>_. int (card P)))\<^sup>*\<^sup>* (initial P avail k) c"
    and "status c p = Waiting i" "i \<notin> signalled c"
  shows "\<exists>c1. step env (\<lambda>_. int (card P)) c (Spurious p) c1 \<and> status c1 p = Returned (- EINVAL) \<and>
    (\<forall>m c2. (calm env (\<lambda>_. int (card P)) ^^ m) c1 c2 \<longrightarrow> m \<le> 2 * card P + 1 \<and>
      ((\<nexists>c3. calm env (\<lambda>_. int (card P)) c2 c3) \<longrightarrow>
        (\<forall>r < card P. (pids P ! r < p \<longrightarrow> status c2 (pids P ! r) = Returned (int r)) \<and>
                       (p < pids P ! r \<longrightarrow> (\<exists>j. status c2 (pids P ! r) = Waiting j)))))"
proof -
  let ?cm = "calm env (\<lambda>_. int (card P))"
  note ok = assms(1)
  note fin = node_okD(1) [OF ok] and PF = pids_facts [OF ok]
  obtain ph where ph: "represents P avail k c ph" using calm_reach [OF assms(1,2)] by blast
  obtain it where it: "slot (shm c) i = Some it" "timeout it = 0" "ready it = 0" using waiting_not_ready [OF ok ph assms(3,4)] by blast
  define c1 where "c1 = c\<lparr>shm := shm c, status := (status c)(p := Returned (- EINVAL)), signalled := signalled c \<union> set []\<rparr>"
  have s1: "step env (\<lambda>_. int (card P)) c (Spurious p) c1"
    unfolding c1_def by (rule step.spurious [OF assms(3,4) not_ready [OF it]])
  have c: "still_waits p i c1 = c" using assms(3) by (simp add: still_waits_def c1_def fun_upd_idem)
  have r1: "status c1 p = Returned (- EINVAL)" by (simp add: c1_def)
  have run: "m \<le> 2 * card P + 1 \<and> ((\<nexists>c3. ?cm c2 c3) \<longrightarrow>
        (\<forall>r < card P. (pids P ! r < p \<longrightarrow> status c2 (pids P ! r) = Returned (int r)) \<and>
                       (p < pids P ! r \<longrightarrow> (\<exists>j. status c2 (pids P ! r) = Waiting j))))"
    if "(?cm ^^ m) c1 c2" for m c2
  proof -
    have d: "(?cm ^^ m) c (still_waits p i c2)" using calm_power_without [OF that r1, of i] c by simp
    have reach: "?cm\<^sup>*\<^sup>* (initial P avail k) (still_waits p i c2)"
      using assms(2) relpowp_imp_rtranclp [OF d] by (rule rtranclp_trans)
    obtain n where "(?cm ^^ n) (initial P avail k) c" using rtranclp_imp_relpowp [OF assms(2)] by blast
    then have "(?cm ^^ (n + m)) (initial P avail k) (still_waits p i c2)" using d by (auto simp: relpowp_add)
    then have "n + m \<le> 2 * card P + 1"
      using protocol.bounded [of "(P, avail, k, env)" "initial P avail k" "Gather {}" "n + m"] represents_initial [OF ok] ok by simp
    moreover have "(pids P ! r < p \<longrightarrow> status c2 (pids P ! r) = Returned (int r)) \<and> (p < pids P ! r \<longrightarrow> (\<exists>j. status c2 (pids P ! r) = Waiting j))"
      if r: "r < card P" and stuck: "\<nexists>c3. ?cm c2 c3" for r
    proof -
      obtain ph2 where ph2: "represents P avail k (still_waits p i c2) ph2" using calm_reach [OF ok reach] by blast
      obtain m where m: "ph2 = Drain m" "m < card P" "p = pids P ! m" using stuck_without [OF ok ph2 stuck] by blast
      obtain w where w: "\<forall>j < card P. status (still_waits p i c2) (pids P ! j) = (if j < m then Returned (int j) else Waiting (int (w (pids P ! j))))"
        using ph2 m(1) by auto
      have lt: "pids P ! a < pids P ! b \<longleftrightarrow> a < b" if "a < card P" "b < card P" for a b
        using that PF(3) sorted_wrt_nth_less [OF strict_sorted_list_of_set [of P]] by (metis linorder_neqE_nat order_less_asym order_less_irrefl)
      show ?thesis
        using w [rule_format, OF r] lt [OF r m(2)] lt [OF m(2) r] still_waits_sel(4) [of "pids P ! r" p i c2] m(3)
        by (auto split: if_splits) metis
    qed
    ultimately show ?thesis by simp
  qed
  then show ?thesis using s1 r1 by blast
qed


section \<open>A failing system call\<close>

lemma wake_first_keeps:
  assumes "wake_first pe = Some (pe', i)"
  shows "process_rank pe' = process_rank pe" "affinities pe' = affinities pe" "cpus_available pe' = cpus_available pe"
  using assms by (auto simp: wake_first_def upd_slot_def slot_def Let_def bind_eq_Some_conv split: if_splits)

lemma wake_first_defined:
  assumes "first_process_ind pe = int x" "x < length (processes pe)"
  shows "\<exists>pe' i. wake_first pe = Some (pe', i)"
  using assms by (simp add: wake_first_def slot_in upd_slot_in)

text \<open>The set of the rank of a process is what it asks the kernel for; only when that fails the rank is not counted.\<close>

lemma finish_fails:
  assumes "finish env pe = Some (pe', sig, r)" "r \<noteq> - EINVAL"
  shows "finish (env\<lparr>setaffinity_ok := \<lambda>_. False\<rparr>) pe = Some (pe'\<lparr>process_rank := r\<rparr>, sig, - EINVAL) \<and> r = process_rank pe \<and>
    affinities pe' = affinities pe \<and> (nr_processes_left pe \<noteq> 0 \<longrightarrow> cpus_available pe' = cpus_available pe)"
proof -
  obtain pe1 sig1 where s1: "(if nr_processes_left pe = 0 then Some (pe\<lparr>nr_processes := -1, cpus_available := CPU_ZERO\<rparr>, [])
        else do { (pe, next_i) \<leftarrow> wake_first pe; Some (pe, [next_i]) }) = Some (pe1, sig1)"
    and rest: "do { affinity \<leftarrow> (if 0 \<le> process_rank pe1 then rd (affinities pe1) (nat (process_rank pe1)) else None);
       if \<not> setaffinity_ok env affinity then Some (pe1, sig1, - EINVAL)
       else Some (pe1\<lparr>process_rank := process_rank pe1 + 1\<rparr>, sig1, process_rank pe1) } = Some (pe', sig, r)"
    using assms(1) by (auto simp: finish_def bind_eq_Some_conv simp del: upd_slot_in)
  have same: "process_rank pe1 = process_rank pe \<and> affinities pe1 = affinities pe \<and> (nr_processes_left pe \<noteq> 0 \<longrightarrow> cpus_available pe1 = cpus_available pe)"
    using s1 wake_first_keeps by (fastforce simp: bind_eq_Some_conv split: if_splits)
  obtain aff where aff: "0 \<le> process_rank pe1" "rd (affinities pe1) (nat (process_rank pe1)) = Some aff"
    using rest by (auto simp: bind_eq_Some_conv split: if_splits)
  have "setaffinity_ok env aff" using rest aff assms(2) by (auto split: if_splits)
  then have pe': "pe' = pe1\<lparr>process_rank := process_rank pe1 + 1\<rparr>" "sig = sig1" "r = process_rank pe1" using rest aff by auto
  have "finish (env\<lparr>setaffinity_ok := \<lambda>_. False\<rparr>) pe = Some (pe1, sig1, - EINVAL)"
    unfolding finish_def s1 using aff by (simp del: rd_eq_Some)
  moreover have "pe'\<lparr>process_rank := r\<rparr> = pe1" by (simp add: pe')
  ultimately show ?thesis using same by (simp add: pe')
qed

lemma finish_asks:
  assumes "process_rank pe = int m" "m < length (affinities pe)"
    and "nr_processes_left pe = 0 \<or> (\<exists>pe' i. wake_first pe = Some (pe', i))"
  shows "\<exists>pe2 sig2. finish (env\<lparr>setaffinity_ok := f\<rparr>) pe = Some (pe2, sig2, if f (affinities pe ! m) then int m else - EINVAL)"
proof -
  obtain pe1 sig1 where s1: "(if nr_processes_left pe = 0 then Some (pe\<lparr>nr_processes := -1, cpus_available := CPU_ZERO\<rparr>, [])
        else do { (pe, next_i) \<leftarrow> wake_first pe; Some (pe, [next_i]) }) = Some (pe1, sig1)"
    using assms(3) by (cases "nr_processes_left pe = 0") auto
  have "process_rank pe1 = process_rank pe \<and> affinities pe1 = affinities pe"
    using s1 wake_first_keeps by (fastforce simp: bind_eq_Some_conv split: if_splits)
  then show ?thesis unfolding finish_def s1 using assms(1,2) by (simp add: rd_in del: rd_eq_Some)
qed

text \<open>The process whose turn it is reaches the end of its turn; the first one has divided the CPUs before.\<close>

lemma turn_to_finish:
  assumes L: "m < length L" "length L \<le> MAX_PROCESSES" and env: "good_env env (length L) avail k" and t: "turn L w avail k m pe"
  shows "\<exists>X affs0 av. (\<forall>f. after_wait (env\<lparr>setaffinity_ok := f\<rparr>) pe p (int (w (L ! m))) 0 = finish (env\<lparr>setaffinity_ok := f\<rparr>) X) \<and>
    nr_processes_left X = nr_processes_left pe - 1 \<and> process_rank X = int m \<and>
    committed k 0 (length L) avail affs0 av (affinities X) \<and> (m = 0 \<longrightarrow> cpus_available X = av) \<and> (0 < m \<longrightarrow> affinities X = affinities pe)"
proof -
  have slot: "w (L ! m) < length (processes pe)" "timeout (processes pe ! w (L ! m)) = 0" "ready (processes pe ! w (L ! m)) = 1" "process_rank pe = int m"
    using t L(1) by (auto simp: turn_def laid_def)
  let ?pe = "pe\<lparr>nr_processes_left := nr_processes_left pe - 1\<rparr>"
  show ?thesis
  proof (cases "m = 0")
    case False
    then have "after_wait (env\<lparr>setaffinity_ok := f\<rparr>) pe p (int (w (L ! m))) 0 = finish (env\<lparr>setaffinity_ok := f\<rparr>) ?pe" for f
      using slot by (simp add: after_wait_def ETIMEDOUT_def slot_in proceed_def)
    moreover obtain affs0 av where "committed k 0 (length L) avail affs0 av (affinities pe)" using t False by (auto simp: turn_def)
    ultimately show ?thesis using slot(4) False by (intro exI [of _ ?pe] exI [of _ affs0] exI [of _ av]) simp
  next
    case True
    obtain tops where tops: "topology env = Some tops" "wf_topology tops" "covers tops (cpus_of avail)"
      and e: "nprocs_conf env \<le> 1024" "malloc_ok env" "wf_cpus avail" "length L * nat (max 1 k) \<le> card (cpus_of avail)"
      using env by (auto simp: good_env_def)
    have len: "length (affinities pe) = MAX_PROCESSES" using t by (simp add: turn_def laid_def)
    obtain av affs where as: "assign_ranks (nprocs_conf env) tops k (int (length L)) 0 avail (affinities pe) = Some (None, int (length L), av, affs)"
      using assign_ranks_total [OF e(1) tops(2) e(3) tops(3), of "length L" 0 k "affinities pe"] e(4) len L(2) by auto
    have c: "committed k 0 (length L) avail (affinities pe) av affs"
      using assign_ranks_committed(2) [OF e(1) tops(2) e(3) as] by simp
    have r: "nr_processes pe = int (length L)" "cpus_to_assign pe = k" "cpus_available pe = avail"
      using t True L by (auto simp: turn_def)
    let ?X = "?pe\<lparr>process_rank := int (length L), cpus_available := av, affinities := affs, process_rank := 0\<rparr>"
    have "after_wait (env\<lparr>setaffinity_ok := f\<rparr>) pe p (int (w (L ! m))) 0 = finish (env\<lparr>setaffinity_ok := f\<rparr>) ?X" for f
      using slot True tops(1) e(2) as r by (simp add: after_wait_def ETIMEDOUT_def slot_in proceed_def)
    then show ?thesis using c True by (intro exI [of _ ?X] exI [of _ "affinities pe"] exI [of _ av]) simp
  qed
qed

text \<open>CPUs that are divided a second time are those left over by the first division.\<close>

lemma second_division:
  assumes e: "nprocs \<le> 1024" "wf_topology tops" "covers tops (cpus_of avail)" and c: "committed k 0 n avail affs0 av affs"
    and enough: "2 * (n * nat (max 1 k)) \<le> card (cpus_of avail)" and n: "0 < n" "n \<le> length affs"
  shows "\<exists>av2 affs2. assign_ranks nprocs tops k (int n) 0 av affs = Some (None, int n, av2, affs2) \<and> length affs2 = length affs \<and>
    cpus_of (affs2 ! 0) \<subseteq> cpus_of avail \<and> card (cpus_of (affs2 ! 0)) = nat (max 1 k) \<and>
    (\<forall>r < n. cpus_of (affs2 ! 0) \<inter> cpus_of (affs ! r) = {})"
proof -
  let ?m = "nat (max 1 k)"
  note D = committedD [OF c]
  have "card (\<Union>r \<in> {0..<n}. cpus_of (affs ! r)) \<le> (\<Sum>r \<in> {0..<n}. card (cpus_of (affs ! r)))" by (rule card_UN_le) simp
  also have "\<dots> \<le> (\<Sum>r \<in> {0..<n}. ?m)" by (rule sum_mono) (simp add: D(9))
  finally have "card (\<Union>r \<in> {0..<n}. cpus_of (affs ! r)) \<le> n * ?m" by simp
  moreover have "card (cpus_of avail) \<le> card (cpus_of av) + card (\<Union>r \<in> {0..<n}. cpus_of (affs ! r))"
    unfolding D(7) by (rule card_Un_le)
  ultimately have m: "n * ?m \<le> card (cpus_of av)" using enough by linarith
  have sub: "cpus_of av \<subseteq> cpus_of avail" using D(7) by blast
  obtain av2 affs2 where as: "assign_ranks nprocs tops k (int n) 0 av affs = Some (None, int n, av2, affs2)"
    using assign_ranks_total [OF e(1,2) D(3) covers_mono [OF e(3) sub], of n 0 k affs] m n(2) by auto
  have "committed k 0 n av affs av2 affs2" using assign_ranks_committed(2) [OF e(1,2) D(3) as] by simp
  note D2 = committedD [OF this]
  have "cpus_of (affs2 ! 0) \<subseteq> cpus_of av" using D2(7) n(1) by force
  moreover have "1 * ?m \<le> n * ?m" using n(1) by (intro mult_le_mono1) simp
  then have "?m \<le> card (cpus_of av)" using m by linarith
  then have "card (cpus_of (affs2 ! 0)) = ?m" using D2(9) [of 0] n(1) by simp
  moreover have "cpus_of av \<inter> cpus_of (affs ! r) = {}" if "r < n" for r using D(8) [of r] that by simp
  ultimately show ?thesis using as D2(2) sub by blast
qed

text \<open>The process behind one that failed: it finds the rank uncounted, and the first one's CPUs divided already.\<close>

lemma turn_setaffinity:
  assumes L: "distinct L" "Suc m < length L" "length L \<le> MAX_PROCESSES" and env: "good_env env (length L) avail k"
    and t: "turn L w avail k m pe"
  shows "\<exists>pe1. after_wait (env\<lparr>setaffinity_ok := \<lambda>_. False\<rparr>) pe (L ! m) (int (w (L ! m))) 0 = Some (pe1, [int (w (L ! Suc m))], - EINVAL) \<and>
    process_rank pe1 = int m \<and>
    (0 < m \<longrightarrow> (\<forall>f. \<exists>pe2 sig2. after_wait (env\<lparr>setaffinity_ok := f\<rparr>) pe1 (L ! Suc m) (int (w (L ! Suc m))) 0 =
       Some (pe2, sig2, if f (affinities pe ! m) then int m else - EINVAL))) \<and>
    (m = 0 \<and> 2 * (length L * nat (max 1 k)) \<le> card (cpus_of avail) \<longrightarrow> (\<exists>a. cpus_of a \<subseteq> cpus_of avail \<and> card (cpus_of a) = nat (max 1 k) \<and>
       (\<forall>r < length L. cpus_of a \<inter> cpus_of (affinities pe1 ! r) = {}) \<and>
       (\<forall>f. \<exists>pe2 sig2. after_wait (env\<lparr>setaffinity_ok := f\<rparr>) pe1 (L ! Suc m) (int (w (L ! Suc m))) 0 =
          Some (pe2, sig2, if f a then 0 else - EINVAL))))"
proof -
  let ?y = "w (L ! Suc m)" and ?q = "L ! Suc m"
  have m': "m < length L" using L(2) by simp
  obtain X affs0 av where go: "\<And>f. after_wait (env\<lparr>setaffinity_ok := f\<rparr>) pe (L ! m) (int (w (L ! m))) 0 = finish (env\<lparr>setaffinity_ok := f\<rparr>) X"
    and X: "nr_processes_left X = nr_processes_left pe - 1" "process_rank X = int m"
      "committed k 0 (length L) avail affs0 av (affinities X)" "m = 0 \<longrightarrow> cpus_available X = av" "0 < m \<longrightarrow> affinities X = affinities pe"
    using turn_to_finish [OF m' L(3) env t, of "L ! m"] by blast
  have same: "env\<lparr>setaffinity_ok := setaffinity_ok env\<rparr> = env" by simp
  obtain peT where a: "finish env X = Some (peT, [int ?y], int m)" and tT: "turn L w avail k (Suc m) peT"
    using after_wait_turn [OF L(1) m' L(3) env t, of "L ! m"] go [of "setaffinity_ok env", unfolded same] L(2) by auto
  have left: "nr_processes_left X \<noteq> 0" using t L(2) X(1) by (simp add: turn_def)
  have F: "finish (env\<lparr>setaffinity_ok := \<lambda>_. False\<rparr>) X = Some (peT\<lparr>process_rank := int m\<rparr>, [int ?y], - EINVAL)"
      "affinities peT = affinities X" "cpus_available peT = cpus_available X"
    using finish_fails [OF a] left by (simp_all add: EINVAL_def)
  let ?pe1 = "peT\<lparr>process_rank := int m\<rparr>"
  have T: "?y < length (processes peT)" "timeout (processes peT ! ?y) = 0" "ready (processes peT ! ?y) = 1"
      "nr_processes peT = int (length L)" "cpus_to_assign peT = k" "nr_processes_left peT = int (length L) - int (Suc m)"
      "length (affinities peT) = MAX_PROCESSES"
    using tT L(2) by (auto simp: turn_def laid_def)
  have wake: "nr_processes_left peT - 1 = 0 \<or> (\<exists>x. first_process_ind peT = int x \<and> x < length (processes peT))"
  proof (cases "Suc (Suc m) < length L")
    case True
    then have "lseg (processes peT) (first_process_ind peT) (w (L ! Suc (Suc m)) # map w (drop (Suc (Suc (Suc m))) L)) (-1)"
      using tT drop_Suc_map [of "Suc m" L w] by (simp add: turn_def)
    then show ?thesis by auto
  qed (use T(6) L(2) in auto)
  have ask: "\<exists>pe2 sig2. finish (env\<lparr>setaffinity_ok := f\<rparr>) Y = Some (pe2, sig2, if f (affinities Y ! m) then int m else - EINVAL)"
    if "process_rank Y = int m" "length (affinities Y) = MAX_PROCESSES" "nr_processes_left Y = nr_processes_left peT - 1"
      "first_process_ind Y = first_process_ind peT" "processes Y = processes peT" for Y f
    using finish_asks [OF that(1), where f = f and env = env] wake wake_first_defined [of Y] that(2-5) m' L(3) by fastforce
  let ?Y = "?pe1\<lparr>nr_processes_left := nr_processes_left peT - 1\<rparr>"
  have pos: "\<exists>pe2 sig2. after_wait (env\<lparr>setaffinity_ok := f\<rparr>) ?pe1 ?q (int ?y) 0 = Some (pe2, sig2, if f (affinities pe ! m) then int m else - EINVAL)"
    if "0 < m" for f
  proof -
    have "after_wait (env\<lparr>setaffinity_ok := f\<rparr>) ?pe1 ?q (int ?y) 0 = finish (env\<lparr>setaffinity_ok := f\<rparr>) ?Y"
      using T(1-3) that by (simp add: after_wait_def ETIMEDOUT_def slot_in proceed_def)
    then show ?thesis using ask [of ?Y f] T(7) F(2) X(5) that by simp
  qed
  have zero: "\<exists>a. cpus_of a \<subseteq> cpus_of avail \<and> card (cpus_of a) = nat (max 1 k) \<and>
       (\<forall>r < length L. cpus_of a \<inter> cpus_of (affinities ?pe1 ! r) = {}) \<and>
       (\<forall>f. \<exists>pe2 sig2. after_wait (env\<lparr>setaffinity_ok := f\<rparr>) ?pe1 ?q (int ?y) 0 = Some (pe2, sig2, if f a then 0 else - EINVAL))"
    if z: "m = 0" and enough: "2 * (length L * nat (max 1 k)) \<le> card (cpus_of avail)"
  proof -
    obtain tops where tops: "topology env = Some tops" "wf_topology tops" "covers tops (cpus_of avail)"
      and e: "nprocs_conf env \<le> 1024" "malloc_ok env"
      using env by (auto simp: good_env_def)
    have length_pos: "0 < length L" using m' by linarith
    obtain av2 affs2 where as: "assign_ranks (nprocs_conf env) tops k (int (length L)) 0 av (affinities X) = Some (None, int (length L), av2, affs2)"
      and A: "length affs2 = length (affinities X)" "cpus_of (affs2 ! 0) \<subseteq> cpus_of avail" "card (cpus_of (affs2 ! 0)) = nat (max 1 k)"
        "\<forall>r < length L. cpus_of (affs2 ! 0) \<inter> cpus_of (affinities X ! r) = {}"
      using second_division [OF e(1) tops(2,3) X(3) enough length_pos] L(3) T(7) F(2) by auto
    let ?Z = "?Y\<lparr>process_rank := int (length L), cpus_available := av2, affinities := affs2, process_rank := 0\<rparr>"
    have "after_wait (env\<lparr>setaffinity_ok := f\<rparr>) ?pe1 ?q (int ?y) 0 = finish (env\<lparr>setaffinity_ok := f\<rparr>) ?Z" for f
      using T z tops(1) e(2) as X(4) F(2,3) by (simp add: after_wait_def ETIMEDOUT_def slot_in proceed_def)
    then have "\<exists>pe2 sig2. after_wait (env\<lparr>setaffinity_ok := f\<rparr>) ?pe1 ?q (int ?y) 0 = Some (pe2, sig2, if f (affs2 ! 0) then 0 else - EINVAL)" for f
      using ask [of ?Z f] A(1) T(7) F(2) unfolding z by (simp split: if_splits)
    then show ?thesis using A(2-4) F(2) by (intro exI [of _ "affs2 ! 0"]) simp
  qed
  show ?thesis using go [of "\<lambda>_. False"] F(1) pos zero by (intro exI [of _ ?pe1]) simp
qed

text \<open>
  C17. When \<^verbatim>\<open>sched_setaffinity()\<close> fails for the process with rank \<open>m\<close>, it returns \<^verbatim>\<open>-EINVAL\<close> without counting the rank, and has
  woken the next process, which runs with rank \<open>m\<close> again: for \<open>0 < m\<close> it asks for the very set of CPUs the failed process had
  asked for. For \<open>m = 0\<close> the next process divides the CPUs again, although they have been divided: when there are twice as many as the
  processes need it asks for as many CPUs as are due, none of which is in the first division. The set that the process asks for is the one on which its
  return value depends, whichever sets the kernel accepts.
\<close>

theorem pin_process_setaffinity_failure:
  assumes "node_ok P avail k env" "(calm env (\<lambda>_. int (card P)))\<^sup>*\<^sup>* (initial P avail k) c"
    and "Suc m < card P" "status c (pids P ! m) = Waiting i" "i \<in> signalled c"
  shows "\<exists>j pe1. status c (pids P ! Suc m) = Waiting j \<and>
    after_wait (env\<lparr>setaffinity_ok := \<lambda>_. False\<rparr>) (shm c) (pids P ! m) i 0 = Some (pe1, [j], - EINVAL) \<and> process_rank pe1 = int m \<and>
    (0 < m \<longrightarrow> (\<forall>f. \<exists>pe2 sig2. after_wait (env\<lparr>setaffinity_ok := f\<rparr>) pe1 (pids P ! Suc m) j 0 =
       Some (pe2, sig2, if f (affinities (shm c) ! m) then int m else - EINVAL))) \<and>
    (m = 0 \<and> 2 * (card P * nat (max 1 k)) \<le> card (cpus_of avail) \<longrightarrow> (\<exists>a. cpus_of a \<subseteq> cpus_of avail \<and> card (cpus_of a) = nat (max 1 k) \<and>
       (\<forall>r < card P. cpus_of a \<inter> cpus_of (affinities pe1 ! r) = {}) \<and>
       (\<forall>f. \<exists>pe2 sig2. after_wait (env\<lparr>setaffinity_ok := f\<rparr>) pe1 (pids P ! Suc m) j 0 = Some (pe2, sig2, if f a then 0 else - EINVAL))))"
proof -
  note ok = assms(1)
  note PF = pids_facts [OF ok]
  obtain ph where ph: "represents P avail k c ph" using calm_reach [OF assms(1,2)] by blast
  obtain n where n: "ph = Drain n" "n < card P" "pids P ! m = pids P ! n" using wake_turn [OF ok ph assms(4,5)] by blast
  then have "n = m" using assms(3) PF(2,3) by (simp add: nth_eq_iff_index_eq)
  then obtain w where w: "turn (pids P) w avail k m (shm c)"
      "\<forall>j < card P. status c (pids P ! j) = (if j < m then Returned (int j) else Waiting (int (w (pids P ! j))))"
    using ph n(1) by auto
  have st: "i = int (w (pids P ! m))" "status c (pids P ! Suc m) = Waiting (int (w (pids P ! Suc m)))" using w(2) assms(3,4) by auto
  from turn_setaffinity [OF PF(2) _ _ node_okD(5) [OF ok] w(1)] assms(3) PF(3) node_okD(3) [OF ok]
  show ?thesis unfolding st(1) by (intro exI [of _ "int (w (pids P ! Suc m))"]) (simp add: st(2))
qed


text \<open>
  C16. When \<^verbatim>\<open>malloc()\<close> fails for the first process, it returns \<^verbatim>\<open>-ENOMEM\<close> and wakes nobody: all others wait, and without timeouts
  nothing happens any more.
\<close>

theorem pin_process_leader_fails:
  assumes "node_ok P avail k env" "(calm env (\<lambda>_. int (card P)))\<^sup>*\<^sup>* (initial P avail k) c"
    and "status c (pids P ! 0) = Waiting i" "i \<in> signalled c"
  shows "\<exists>c1. step (env\<lparr>malloc_ok := False\<rparr>) (\<lambda>_. int (card P)) c (Wake (pids P ! 0)) c1 \<and> status c1 (pids P ! 0) = Returned (- ENOMEM) \<and>
    (\<forall>r. 0 < r \<and> r < card P \<longrightarrow> (\<exists>j. status c1 (pids P ! r) = Waiting j)) \<and> (\<nexists>c2. calm env (\<lambda>_. int (card P)) c1 c2)"
proof -
  note ok = assms(1)
  note PF = pids_facts [OF ok] and fin = node_okD(1) [OF ok]
  obtain ph where ph: "represents P avail k c ph" using calm_reach [OF assms(1,2)] by blast
  obtain m where "ph = Drain m" "m < card P" "pids P ! 0 = pids P ! m" using wake_turn [OF ok ph assms(3,4)] by blast
  then have m: "ph = Drain 0" using PF(2,3) node_okD(6) [OF ok] by (simp add: nth_eq_iff_index_eq)
  obtain w where t: "turn (pids P) w avail k 0 (shm c)"
      and st: "\<forall>j < card P. status c (pids P ! j) = Waiting (int (w (pids P ! j)))"
      and sg: "signalled c = {int (w (pids P ! 0))}" and out: "\<forall>p. p \<notin> P \<longrightarrow> status c p = Absent"
    using ph m node_okD(6) [OF ok] by auto
  let ?p = "pids P ! 0" and ?env = "env\<lparr>malloc_ok := False\<rparr>"
  have i: "i = int (w ?p)" using st assms(3) node_okD(6) [OF ok] by auto
  have slot: "w ?p < length (processes (shm c))" "timeout (processes (shm c) ! w ?p) = 0" "ready (processes (shm c) ! w ?p) = 1" "process_rank (shm c) = 0"
    using t PF(3) node_okD(6) [OF ok] nth_mem [of 0 "pids P"] by (auto simp: turn_def laid_def)
  obtain tops where tops: "topology env = Some tops" using ok by (auto simp: node_ok_def good_env_def)
  let ?pe = "(shm c)\<lparr>nr_processes_left := nr_processes_left (shm c) - 1\<rparr>"
  have "after_wait ?env (shm c) ?p i 0 = Some (?pe, [], - ENOMEM)"
    using slot tops by (simp add: i after_wait_def ETIMEDOUT_def slot_in proceed_def)
  note s = step.wake [where ppn = "\<lambda>_. int (card P)", OF assms(3,4) this]
  define c1 where "c1 = c\<lparr>shm := ?pe, status := (status c)(?p := Returned (- ENOMEM)), signalled := (signalled c - {i}) \<union> set []\<rparr>"
  have sel: "signalled c1 = {}" "status c1 q = (if q = ?p then Returned (- ENOMEM) else status c q)" for q
    using sg i by (simp_all add: c1_def)
  have "pids P ! r \<noteq> ?p" if "0 < r" "r < card P" for r using that PF(2,3) node_okD(6) [OF ok] by (simp add: nth_eq_iff_index_eq)
  then have others: "\<exists>j. status c1 (pids P ! r) = Waiting j" if "0 < r" "r < card P" for r using that st sel(2) by simp
  have no: "status c1 q \<noteq> Not_entered" for q
    using sel(2) [of q] st out pids_index [OF fin, of q] by (cases "q \<in> P") auto
  have "\<not> calm env (\<lambda>_. int (card P)) c1 c2" for c2
  proof
    assume "calm env (\<lambda>_. int (card P)) c1 c2"
    then obtain l where "calm_label l" "step env (\<lambda>_. int (card P)) c1 l c2" by (auto simp: calm_def)
    then show False using no sel(1) by (cases l) (auto elim!: step_EnterE step_WakeE)
  qed
  then show ?thesis using s others sel(2) unfolding c1_def [symmetric] by (intro exI [of _ c1]) auto
qed


text \<open>When the first process in PID order has entered, the last one to enter leaves the turn to it.\<close>

lemma reaches_first_turn:
  assumes ok: "node_ok P avail k env" and "represents P avail k c (Gather E)" "Min P \<in> E"
  shows "\<exists>c'. (calm env (\<lambda>_. int (card P)))\<^sup>*\<^sup>* c c' \<and> represents P avail k c' (Drain 0)"
  using assms(2,3)
proof (induction "card P - card E" arbitrary: E c rule: less_induct)
  case less
  have E: "E \<subseteq> P" "E \<noteq> P" using less.prems(1) by auto
  then have cE: "card E < card P" "finite E" using node_okD(1) [OF ok] by (auto intro: psubset_card_mono finite_subset)
  then have "0 < remaining (card P) (Gather E)" by simp
  then obtain c1 where c1: "calm env (\<lambda>_. int (card P)) c c1" using progress [OF ok less.prems(1)] by blast
  then obtain ph where ph: "phase_step P (Gather E) ph" "represents P avail k c1 ph" using simulate_gather [OF ok less.prems(1)] by blast
  from ph(1) show ?case
  proof cases
    case (join p)
    then have "card P - card (insert p E) < card P - card E" using cE by simp
    from less.hyps [OF this ph(2) [unfolded join(1)] insertI2 [OF less.prems(2)]] show ?thesis
      using c1 by (meson converse_rtranclp_into_rtranclp)
  next
    case (join_last p)
    then have "p \<noteq> Min P" using less.prems(2) by blast
    then have "represents P avail k c1 (Drain 0)" using ph(2) join_last(1) by simp
    then show ?thesis using c1 by blast
  qed
qed


section \<open>The concrete node\<close>

lemma example_waiting:
  "\<exists>c p i. example_step\<^sup>*\<^sup>* example_initial c \<and> status c p = Waiting i \<and> i \<notin> signalled c \<and> p \<in> example_pids"
proof -
  obtain c p i where c: "example_step example_initial c" "p \<in> example_pids" "status c p = Waiting i" "\<exists>q \<in> example_pids. status c q = Not_entered"
    using example_first_step by blast
  then have r: "example_step\<^sup>*\<^sup>* example_initial c" by blast
  obtain ph where ph: "represents example_pids (example_cpus [0, 1, 2, 3]) 1 c ph" using calm_reach [OF example_ok r] by blast
  have "i \<notin> signalled c"
  proof
    assume "i \<in> signalled c"
    from wake_turn [OF example_ok ph c(3) this] obtain m where "ph = Drain m" by blast
    then show False using drain_status(1) [of example_pids _ _ c m] ph c(4) by (auto simp: example_pids_def)
  qed
  then show ?thesis using r c(2,3) by blast
qed

lemma example_second_turn:
  "\<exists>c i. example_step\<^sup>*\<^sup>* example_initial c \<and> status c 102 = Waiting i \<and> i \<in> signalled c"
proof -
  obtain c m where c: "example_step\<^sup>*\<^sup>* example_initial c" "m \<le> 1" "represents example_pids (example_cpus [0, 1, 2, 3]) 1 c (Drain m)"
    using reaches_drain [OF example_ok represents_initial [OF example_ok]] by blast
  obtain d where d: "example_step\<^sup>*\<^sup>* example_initial d" "represents example_pids (example_cpus [0, 1, 2, 3]) 1 d (Drain 1)"
  proof (cases "m = 0")
    case True
    then obtain c' where c': "example_step c c'" using progress [OF example_ok c(3)] by (auto simp: example_card)
    have "represents example_pids (example_cpus [0, 1, 2, 3]) 1 c' (Drain 1)" using simulate_drain [OF example_ok c(3) c'] True by simp
    then show ?thesis by (rule that [OF rtranclp.rtrancl_into_rtrancl [OF c(1) c']])
  next
    case False
    then have "m = 1" using c(2) by simp
    show ?thesis by (rule that [OF c(1) c(3) [unfolded \<open>m = 1\<close>]])
  qed
  obtain w where w: "\<forall>j < 3. status d ([101, 102, 103 :: int] ! j) = (if j < 1 then Returned (int j) else Waiting (int (w ([101, 102, 103 :: int] ! j))))"
      "signalled d = (if (1 :: nat) < 3 then {int (w ([101, 102, 103 :: int] ! 1))} else {})"
    using d(2) unfolding represents.simps example_sorted example_card by blast
  have "status d 102 = Waiting (int (w 102))" "int (w 102) \<in> signalled d" using w(1) [rule_format, of 1] w(2) by simp_all
  then show ?thesis using d(1) by blast
qed

lemma example_first_turn:
  "\<exists>c i. example_step\<^sup>*\<^sup>* example_initial c \<and> status c 101 = Waiting i \<and> i \<in> signalled c"
proof -
  note r0 = represents_initial [OF example_ok]
  have g: "gathered 3 {} w (example_cpus [0, 1, 2, 3]) 1 (shm example_initial)" for w
    using r0 by (auto simp: gathered_def laid_def example_card)
  obtain s pe where "pin_enter (shm example_initial) 101 3 = Some (pe, [], Waits (int s))"
    using pin_enter_gathered [OF g [where w = "\<lambda>_. 0"], of 101] by (fastforce simp: MAX_PROCESSES_def)
  then have st: "step example_env (\<lambda>_. int (card example_pids)) example_initial (Enter 101)
      (example_initial\<lparr>shm := pe, status := (status example_initial)(101 := Waiting (int s)), signalled := signalled example_initial \<union> set []\<rparr>)"
    by (intro step.enter_waits) (simp_all add: example_card initial_def example_pids_def)
  define c1 where "c1 = example_initial\<lparr>shm := pe, status := (status example_initial)(101 := Waiting (int s)), signalled := signalled example_initial \<union> set []\<rparr>"
  have c1: "example_step example_initial c1" using calm_enter [OF st] by (simp add: c1_def)
  obtain ph where ph: "phase_step example_pids (Gather {}) ph" "represents example_pids (example_cpus [0, 1, 2, 3]) 1 c1 ph"
    using simulate_gather [OF example_ok r0 c1] by blast
  have w1: "status c1 101 = Waiting (int s)" by (simp add: c1_def)
  from ph(1) have r1: "represents example_pids (example_cpus [0, 1, 2, 3]) 1 c1 (Gather {101})"
  proof cases
    case (join p)
    have "p = 101" using gather_status(4) [OF ph(2) [unfolded join(1)] w1] by simp
    then show ?thesis using ph(2) join(1) by simp
  next
    case (join_last p)
    then have "card example_pids = card {p}" by simp
    then show ?thesis by (simp add: example_card)
  qed
  have "Min example_pids = 101" using pids_facts(5) [OF example_ok] by (simp add: example_sorted)
  then obtain d where d: "example_step\<^sup>*\<^sup>* c1 d" "represents example_pids (example_cpus [0, 1, 2, 3]) 1 d (Drain 0)"
    using reaches_first_turn [OF example_ok r1] by auto
  obtain w where w: "\<forall>j < 3. status d ([101, 102, 103 :: int] ! j) = (if j < 0 then Returned (int j) else Waiting (int (w ([101, 102, 103 :: int] ! j))))"
      "signalled d = (if (0 :: nat) < 3 then {int (w ([101, 102, 103 :: int] ! 0))} else {})"
    using d(2) unfolding represents.simps example_sorted example_card by blast
  have "status d 101 = Waiting (int (w 101))" "int (w 101) \<in> signalled d" using w(1) [rule_format, of 0] w(2) by simp_all
  moreover have "example_step\<^sup>*\<^sup>* example_initial d" using c1 d(1) by (meson converse_rtranclp_into_rtranclp)
  ultimately show ?thesis by blast
qed

theorem pin_process_spurious_witness:
  "\<exists>c p c1. example_step\<^sup>*\<^sup>* example_initial c \<and> step example_env (\<lambda>_. int (card example_pids)) c (Spurious p) c1 \<and>
     status c1 p = Returned (- EINVAL) \<and> (\<forall>m c2. (example_step ^^ m) c1 c2 \<longrightarrow> m \<le> 2 * card example_pids + 1)"
proof -
  obtain c p i where c: "example_step\<^sup>*\<^sup>* example_initial c" "status c p = Waiting i" "i \<notin> signalled c" using example_waiting by blast
  from pin_process_spurious [OF example_ok c] c(1) show ?thesis by blast
qed

theorem pin_process_setaffinity_failure_witness:
  "\<exists>c i j pe1 pe2 sig2. example_step\<^sup>*\<^sup>* example_initial c \<and>
     after_wait (example_env\<lparr>setaffinity_ok := \<lambda>_. False\<rparr>) (shm c) 102 i 0 = Some (pe1, [j], - EINVAL) \<and>
     after_wait (example_env\<lparr>setaffinity_ok := \<lambda>s. s = affinities (shm c) ! 1\<rparr>) pe1 103 j 0 = Some (pe2, sig2, 1)"
proof -
  obtain c i where c: "example_step\<^sup>*\<^sup>* example_initial c" "status c 102 = Waiting i" "i \<in> signalled c" using example_second_turn by blast
  have p: "pids example_pids ! 1 = 102" "pids example_pids ! Suc 1 = 103" by (simp_all add: example_sorted)
  obtain j pe1 where f: "after_wait (example_env\<lparr>setaffinity_ok := \<lambda>_. False\<rparr>) (shm c) 102 i 0 = Some (pe1, [j], - EINVAL)"
    and g: "0 < (1 :: nat) \<longrightarrow> (\<forall>f. \<exists>pe2 sig2. after_wait (example_env\<lparr>setaffinity_ok := f\<rparr>) pe1 103 j 0 =
       Some (pe2, sig2, if f (affinities (shm c) ! 1) then int 1 else - EINVAL))"
    using pin_process_setaffinity_failure [OF example_ok c(1) _ c(2) [folded p(1)] c(3)] unfolding p example_card by auto
  have "\<exists>pe2 sig2. after_wait (example_env\<lparr>setaffinity_ok := \<lambda>s. s = affinities (shm c) ! 1\<rparr>) pe1 103 j 0 = Some (pe2, sig2, 1)"
    using g [rule_format, of "\<lambda>s. s = affinities (shm c) ! 1"] by simp
  then show ?thesis using c(1) f by blast
qed

theorem pin_process_leader_fails_witness:
  "\<exists>c c1. example_step\<^sup>*\<^sup>* example_initial c \<and>
     step (example_env\<lparr>malloc_ok := False\<rparr>) (\<lambda>_. int (card example_pids)) c (Wake 101) c1 \<and>
     status c1 101 = Returned (- ENOMEM) \<and> (\<nexists>c2. example_step c1 c2)"
proof -
  obtain c i where c: "example_step\<^sup>*\<^sup>* example_initial c" "status c 101 = Waiting i" "i \<in> signalled c" using example_first_turn by blast
  have p: "pids example_pids ! 0 = 101" by (simp add: example_sorted)
  from pin_process_leader_fails [OF example_ok c(1) c(2) [folded p] c(3), unfolded p] c(1) show ?thesis by blast
qed

end
