(* ===== verification/Pin_Invariant.thy ===== *)
theory Pin_Invariant
  imports Pin_Faults
begin

text \<open>
  What holds in every state that the processes of theory \<open>Protocol\<close> can reach, with timeouts, spurious wake-ups,
  failing system calls and any numbers of processes asked for. \<open>shm_inv\<close> is the invariant of the shared memory, kept by
  every critical section; \<open>config_inv\<close> adds who owns which slot.
\<close>

section \<open>Invariants of a step relation\<close>

locale kept_invariant =
  fixes ok :: "'e \<Rightarrow> bool" and start :: "'e \<Rightarrow> 'c \<Rightarrow> bool" and move :: "'e \<Rightarrow> 'c \<Rightarrow> 'c \<Rightarrow> bool" and inv :: "'e \<Rightarrow> 'c \<Rightarrow> bool"
  assumes initially: "ok e \<Longrightarrow> start e c \<Longrightarrow> inv e c"
    and preserved: "ok e \<Longrightarrow> inv e c \<Longrightarrow> move e c c' \<Longrightarrow> inv e c'"
begin

lemma always: "ok e \<Longrightarrow> start e c \<Longrightarrow> (move e)\<^sup>*\<^sup>* c c' \<Longrightarrow> inv e c'"
  by (rotate_tac 2, induction rule: rtranclp_induct) (blast intro: initially preserved)+

end

section \<open>The shared memory\<close>
definition slot_pids :: "part_exec \<Rightarrow> int list" where
  "slot_pids pe = map pid (processes pe)"

definition in_list :: "part_exec \<Rightarrow> nat list \<Rightarrow> bool" where
  "in_list pe xs \<longleftrightarrow> lseg (processes pe) (first_process_ind pe) xs (-1) \<and>
     sorted_wrt (<) (map ((!) (slot_pids pe)) xs) \<and> 0 \<notin> set (map ((!) (slot_pids pe)) xs)"

definition cpus_apart :: "cpu_set \<Rightarrow> part_exec \<Rightarrow> bool" where
  "cpus_apart avail pe \<longleftrightarrow> wf_cpus (cpus_available pe) \<and> cpus_of (cpus_available pe) \<subseteq> cpus_of avail \<and>
     (\<forall>r < MAX_PROCESSES. wf_cpus (affinities pe ! r) \<and> cpus_of (affinities pe ! r) \<subseteq> cpus_of avail \<and>
        cpus_of (affinities pe ! r) \<inter> cpus_of (cpus_available pe) = {}) \<and>
     (\<forall>r s. r < s \<and> s < MAX_PROCESSES \<longrightarrow> cpus_of (affinities pe ! r) \<inter> cpus_of (affinities pe ! s) = {})"

definition shm_inv :: "cpu_set \<Rightarrow> part_exec \<Rightarrow> bool" where
  "shm_inv avail pe \<longleftrightarrow> length (processes pe) = MAX_PROCESSES \<and> length (affinities pe) = MAX_PROCESSES \<and>
     0 \<le> process_rank pe \<and> (\<exists>xs. in_list pe xs) \<and> cpus_apart avail pe"

lemma slot_pids_nth: "x < length (processes pe) \<Longrightarrow> slot_pids pe ! x = pid (processes pe ! x)"
  by (simp add: slot_pids_def)

lemma slot_pids_update:
  assumes "processes pe' = (processes pe)[x := f (processes pe ! x)]" "\<And>it. pid (f it) = pid it"
  shows "slot_pids pe' = slot_pids pe"
  unfolding slot_pids_def assms(1)
  by (cases "x < length (processes pe)") (simp_all add: map_update assms(2) list_update_beyond not_less list_update_same_conv)

lemma lseg_update:
  assumes "\<And>it. next_process_ind (f it) = next_process_ind it"
  shows "lseg (ps[x := f (ps ! x)]) i xs j = lseg ps i xs j"
proof (rule lseg_cong)
  show "next_process_ind (ps[x := f (ps ! x)] ! y) = next_process_ind (ps ! y)" for y
    using assms by (cases "x < length ps") (simp_all add: nth_list_update list_update_beyond not_less)
qed simp

lemma cpus_apart_cong:
  "affinities pe' = affinities pe \<Longrightarrow> cpus_available pe' = cpus_available pe \<or> cpus_available pe' = CPU_ZERO \<Longrightarrow>
   cpus_apart avail pe \<Longrightarrow> cpus_apart avail pe'"
  unfolding cpus_apart_def by (elim disjE) simp_all

lemma in_list_distinct: "in_list pe xs \<Longrightarrow> distinct xs"
  by (simp add: in_list_def strict_sorted_iff distinct_map)

lemma in_list_bound: "in_list pe xs \<Longrightarrow> x \<in> set xs \<Longrightarrow> x < length (processes pe)"
  unfolding in_list_def by (auto dest: lseg_bound)

lemma in_list_cong:
  assumes "in_list pe xs" "first_process_ind pe' = first_process_ind pe" "processes pe' = processes pe"
  shows "in_list pe' xs"
  using assms by (simp add: in_list_def slot_pids_def)

lemma wake_first_inv:
  assumes "shm_inv avail pe" "wake_first pe = Some (pe', i)"
  shows "shm_inv avail pe' \<and> slot_pids pe' = slot_pids pe \<and> process_rank pe' = process_rank pe"
proof -
  obtain xs where xs: "in_list pe xs" using assms(1) by (auto simp: shm_inv_def)
  show ?thesis
  proof (cases xs)
    case Nil
    then show ?thesis using xs assms(2) by (simp add: in_list_def wake_first_def slot_def)
  next
    case (Cons x ys)
    then have x: "first_process_ind pe = int x" "x < length (processes pe)" using xs by (simp_all add: in_list_def)
    let ?f = "\<lambda>it. it\<lparr>ready := 1\<rparr>"
    have pe': "pe' = pe\<lparr>first_process_ind := next_process_ind (processes pe ! x), processes := (processes pe)[x := ?f (processes pe ! x)]\<rparr>"
      using assms(2) x by (simp add: wake_first_def slot_in upd_slot_in)
    have pids: "slot_pids pe' = slot_pids pe" by (rule slot_pids_update [where f = ?f and x = x]) (simp_all add: pe')
    have "in_list pe' ys"
      using xs lseg_update [of ?f "processes pe" x] unfolding in_list_def pids Cons by (simp add: pe')
    moreover have "cpus_apart avail pe'" using assms(1) by (intro cpus_apart_cong [of pe' pe]) (simp_all add: shm_inv_def pe')
    ultimately show ?thesis using assms(1) pids by (auto simp: shm_inv_def pe')
  qed
qed

lemma abort_all_inv:
  assumes "shm_inv avail pe" "abort_all pe me = Some (pe', sig, r)"
  shows "shm_inv avail pe' \<and> slot_pids pe' = slot_pids pe \<and> r = - ETIMEDOUT"
proof -
  obtain xs where xs: "in_list pe xs" using assms(1) by (auto simp: shm_inv_def)
  then have "lseg (processes pe) (first_process_ind pe) xs (-1)" by (simp add: in_list_def)
  from abort_all_eq [OF this in_list_distinct [OF xs], of me] assms(2)
  have r: "r = - ETIMEDOUT" and pe': "pe' = pe\<lparr>processes := processes pe', first_process_ind := -1, nr_processes := -1\<rparr>"
    and len: "length (processes pe') = length (processes pe)"
    and ps: "\<forall>x < length (processes pe). processes pe' ! x =
       (if x \<in> set xs \<and> pid (processes pe ! x) \<noteq> me then (processes pe ! x)\<lparr>ready := 1, timeout := 1\<rparr> else processes pe ! x)"
    by auto
  have pids: "slot_pids pe' = slot_pids pe"
    unfolding slot_pids_def by (rule nth_equalityI) (use len ps in auto)
  have sel: "first_process_ind pe' = -1" "affinities pe' = affinities pe" "cpus_available pe' = cpus_available pe" "process_rank pe' = process_rank pe"
    by (subst pe', simp)+
  have "in_list pe' []" using sel by (simp add: in_list_def)
  moreover have "cpus_apart avail pe'" using assms(1) by (intro cpus_apart_cong [of pe' pe]) (simp_all add: shm_inv_def sel)
  ultimately show ?thesis using assms(1) pids r by (auto simp: shm_inv_def sel len)
qed

lemma assign_ranks_apart:
  assumes "nprocs \<le> 1024" "wf_topology tops" "cpus_apart avail pe" "length (affinities pe) = MAX_PROCESSES"
    and "assign_ranks nprocs tops k nr 0 (cpus_available pe) (affinities pe) = Some (err, hi, av, affs)"
    and "cpus_available pe' = av" "affinities pe' = affs"
  shows "cpus_apart avail pe' \<and> 0 \<le> hi \<and> length affs = MAX_PROCESSES"
proof -
  have wf: "wf_cpus (cpus_available pe)" and sub: "cpus_of (cpus_available pe) \<subseteq> cpus_of avail"
    and old: "\<And>r. r < MAX_PROCESSES \<Longrightarrow> wf_cpus (affinities pe ! r) \<and> cpus_of (affinities pe ! r) \<subseteq> cpus_of avail \<and>
        cpus_of (affinities pe ! r) \<inter> cpus_of (cpus_available pe) = {}"
    and dis: "\<And>r s. r < s \<Longrightarrow> s < MAX_PROCESSES \<Longrightarrow> cpus_of (affinities pe ! r) \<inter> cpus_of (affinities pe ! s) = {}"
    using assms(3) by (simp_all add: cpus_apart_def)
  note h = assign_ranks_committed [OF assms(1,2) wf assms(5)]
  note c = committedD [OF h(2)]
  let ?h = "nat hi"
  have new: "wf_cpus (affs ! r) \<and> cpus_of (affs ! r) \<subseteq> cpus_of (cpus_available pe) \<and> cpus_of (affs ! r) \<inter> cpus_of av = {}" if "r < ?h" for r
    using c(5) [of r] c(7) c(8) [of r] that by auto
  have keep: "affs ! r = affinities pe ! r" if "r < MAX_PROCESSES" "\<not> r < ?h" for r
    using c(4) [of r] that assms(4) by simp
  have av: "cpus_of av \<subseteq> cpus_of (cpus_available pe)" using c(7) by blast
  have "wf_cpus (affs ! r) \<and> cpus_of (affs ! r) \<subseteq> cpus_of avail \<and> cpus_of (affs ! r) \<inter> cpus_of av = {}" if "r < MAX_PROCESSES" for r
  proof (cases "r < ?h")
    case True
    then show ?thesis using new [OF True] sub by (meson subset_trans)
  next
    case False
    then show ?thesis using keep [OF that False] old [OF that] av by (simp add: disjoint_iff subset_iff) blast
  qed
  moreover have "cpus_of (affs ! r) \<inter> cpus_of (affs ! s) = {}" if "r < s" "s < MAX_PROCESSES" for r s
  proof (cases "s < ?h")
    case True
    then show ?thesis using c(6) [of r s] that by simp
  next
    case s: False
    have s': "affs ! s = affinities pe ! s" using keep that s by simp
    show ?thesis
    proof (cases "r < ?h")
      case True
      then have "cpus_of (affs ! r) \<subseteq> cpus_of (cpus_available pe)" using new by simp
      moreover have "cpus_of (affs ! s) \<inter> cpus_of (cpus_available pe) = {}" using old [OF that(2)] s' by simp
      ultimately show ?thesis by blast
    next
      case False
      then show ?thesis using keep [of r] that dis [OF that] s' by simp
    qed
  qed
  ultimately have "cpus_apart avail pe'" using c(3) av sub by (simp add: cpus_apart_def assms(6,7))
  then show ?thesis using h(1) c(2) assms(4) by simp
qed


lemma cpus_apart_sel:
  assumes "cpus_apart avail pe" "cpus_available pe' = cpus_available pe" "affinities pe' = affinities pe"
  shows "cpus_apart avail pe'"
  using assms by (simp add: cpus_apart_def)

lemma takeWhile_less: "x \<in> set (takeWhile P xs) \<Longrightarrow> P x"
  by (auto dest: set_takeWhileD)

lemma dropWhile_above:
  "sorted_wrt (<) (map f xs) \<Longrightarrow> x \<in> set (dropWhile (\<lambda>x. f x \<le> (p :: int)) xs) \<Longrightarrow> p < f x"
  by (induction xs) (auto split: if_splits)

lemma add_to_list_inv:
  assumes "in_list pe xs" "m < length (processes pe)" "m \<notin> set xs" "next_process_ind (processes pe ! m) = -1"
    and "slot_pids pe ! m = p" "p \<noteq> 0" "\<forall>x \<in> set xs. slot_pids pe ! x \<noteq> p" "add_to_list pe p (int m) = Some pe'"
  shows "same_but_links pe pe' \<and> slot_pids pe' = slot_pids pe \<and> (\<exists>ys. in_list pe' ys)"
proof -
  let ?f = "(!) (slot_pids pe)"
  let ?t = "takeWhile (\<lambda>x. ?f x \<le> p) xs" and ?d = "dropWhile (\<lambda>x. ?f x \<le> p) xs"
  have chain: "lseg (processes pe) (first_process_ind pe) xs (-1)" and sort: "sorted_wrt (<) (map ?f xs)" "0 \<notin> set (map ?f xs)"
    using assms(1) by (simp_all add: in_list_def)
  have f: "pid (processes pe ! x) = ?f x" if "x \<in> set xs" for x
    using in_list_bound [OF assms(1) that] by (simp add: slot_pids_nth)
  have tw: "takeWhile (\<lambda>x. pid (processes pe ! x) \<le> p) xs = ?t" "dropWhile (\<lambda>x. pid (processes pe ! x) \<le> p) xs = ?d"
    by (rule takeWhile_cong dropWhile_cong, simp, simp add: f)+
  from add_to_list_eq [OF chain in_list_distinct [OF assms(1)] assms(2-4), of p] assms(8)
  have same: "same_but_links pe pe'" and chain': "lseg (processes pe') (first_process_ind pe') (?t @ m # ?d) (-1)"
    unfolding tw by auto
  have pids: "slot_pids pe' = slot_pids pe"
    unfolding slot_pids_def
    by (rule nth_equalityI) (use same_but_linksD(1,8) [OF same] in simp_all)
  have "sorted_wrt (<) (map ?f (?t @ ?d))" using sort(1) by simp
  then have "sorted_wrt (<) (map ?f ?t)" "sorted_wrt (<) (map ?f ?d)" unfolding map_append sorted_wrt_append by blast+
  moreover have lt: "?f x < p" if "x \<in> set ?t" for x
    using that assms(7) by (auto dest: set_takeWhileD simp: order.strict_iff_order)
  moreover have gt: "p < ?f x" if "x \<in> set ?d" for x using sort(1) that by (rule dropWhile_above)
  ultimately have "sorted_wrt (<) (map ?f (?t @ m # ?d))"
    using assms(5) by (fastforce simp: sorted_wrt_append)
  moreover have "0 \<notin> set (map ?f (?t @ m # ?d))"
    using sort(2) assms(5,6) by (auto dest: set_takeWhileD set_dropWhileD simp: image_iff)
  ultimately have "in_list pe' (?t @ m # ?d)" unfolding in_list_def pids using chain' by blast
  then show ?thesis using same pids by blast
qed

lemma find_empty_slotD:
  assumes "find_empty_slot pe = i" "0 \<le> i" "length (processes pe) = MAX_PROCESSES"
  shows "\<exists>s < MAX_PROCESSES. i = int s \<and> slot_pids pe ! s = 0"
  using assms by (auto simp: find_empty_slot_def find_Some_iff slot_pids_nth split: option.splits)

lemma upd_slot_0: "upd_slot pe i f = Some pe' \<Longrightarrow> 0 \<le> i"
  by (auto simp: upd_slot_def slot_def split: if_splits)



lemma shm_inv_sel:
  assumes "shm_inv avail pe" "processes pe' = processes pe" "first_process_ind pe' = first_process_ind pe"
    "affinities pe' = affinities pe" "cpus_available pe' = cpus_available pe" "0 \<le> process_rank pe'"
  shows "shm_inv avail pe' \<and> slot_pids pe' = slot_pids pe"
proof -
  obtain xs where "in_list pe xs" using assms(1) by (auto simp: shm_inv_def)
  then have "in_list pe' xs" by (rule in_list_cong [OF _ assms(3,2)])
  moreover have old: "length (processes pe) = MAX_PROCESSES" "length (affinities pe) = MAX_PROCESSES" "cpus_apart avail pe"
    using assms(1) unfolding shm_inv_def by blast+
  moreover have "cpus_apart avail pe'" by (rule cpus_apart_sel [OF old(3) assms(5,4)])
  ultimately have "shm_inv avail pe'"
    using assms(6) unfolding shm_inv_def assms(2,4) by blast
  then show ?thesis using assms(2) by (simp add: slot_pids_def)
qed

fun entered_slot :: "entered \<Rightarrow> int option" where
  "entered_slot (Refused e) = None"
| "entered_slot (Waits i) = Some i"
| "entered_slot (Proceeds i) = Some i"

lemma new_slot_inv:
  assumes inv: "shm_inv avail pe" and p: "p \<notin> set (slot_pids pe)" "p \<noteq> 0"
    and upd: "upd_slot pe (find_empty_slot pe) (\<lambda>it. it\<lparr>pid := p, ready := 0, timeout := 0, next_process_ind := -1\<rparr>) = Some peB"
    and add: "add_to_list peB p (find_empty_slot pe) = Some peC"
  shows "\<exists>s < MAX_PROCESSES. find_empty_slot pe = int s \<and> slot_pids pe ! s = 0 \<and> slot_pids peC = (slot_pids pe)[s := p] \<and>
    shm_inv avail peC \<and> nr_processes_left peC = nr_processes_left pe \<and> nr_processes peC = nr_processes pe"
proof -
  let ?f = "\<lambda>it. it\<lparr>pid := p, ready := 0, timeout := 0, next_process_ind := -1\<rparr>"
  have len: "length (processes pe) = MAX_PROCESSES" using inv by (simp add: shm_inv_def)
  obtain s where s: "s < MAX_PROCESSES" "find_empty_slot pe = int s" "slot_pids pe ! s = 0"
    using find_empty_slotD [OF refl upd_slot_0 [OF upd] len] by blast
  obtain xs where xs: "in_list pe xs" using inv by (auto simp: shm_inv_def)
  have peB: "peB = pe\<lparr>processes := (processes pe)[s := ?f (processes pe ! s)]\<rparr>"
    using upd s len by (simp add: upd_slot_in)
  have pids: "slot_pids peB = (slot_pids pe)[s := p]" by (simp add: slot_pids_def peB map_update)
  have sxs: "s \<notin> set xs" using xs s(3) by (auto simp: in_list_def)
  have same: "slot_pids peB ! x = slot_pids pe ! x" "next_process_ind (processes peB ! x) = next_process_ind (processes pe ! x)" if "x \<in> set xs" for x
  proof -
    have "x \<noteq> s" using that sxs by blast
    then show "slot_pids peB ! x = slot_pids pe ! x" "next_process_ind (processes peB ! x) = next_process_ind (processes pe ! x)"
      unfolding pids by (simp_all add: peB)
  qed
  have "in_list peB xs"
  proof -
    have "lseg (processes peB) (first_process_ind peB) xs (-1)"
      using xs same(2) by (subst lseg_cong [of _ "processes pe"]) (simp_all add: peB in_list_def)
    moreover have "map ((!) (slot_pids peB)) xs = map ((!) (slot_pids pe)) xs" using same(1) by simp
    ultimately show ?thesis using xs unfolding in_list_def by metis
  qed
  moreover have "slot_pids peB ! x \<noteq> p" if "x \<in> set xs" for x
  proof -
    have "x < length (slot_pids pe)" using in_list_bound [OF xs that] by (simp add: slot_pids_def)
    then show ?thesis using p(1) same(1) [OF that] by (metis nth_mem)
  qed
  moreover have "slot_pids peB ! s = p" "next_process_ind (processes peB ! s) = -1" "s < length (processes peB)"
    using s(1) len by (simp_all add: pids slot_pids_def peB)
  ultimately have *: "same_but_links peB peC" "slot_pids peC = slot_pids peB" "\<exists>ys. in_list peC ys"
    using add_to_list_inv [of peB xs s p peC] sxs p(2) add s(2) by simp_all
  note sel = same_but_linksD [OF *(1)]
  have "cpus_apart avail peC"
    using inv sel(2,5) by (intro cpus_apart_sel [of avail pe peC]) (simp_all add: shm_inv_def peB)
  then have "shm_inv avail peC"
    using inv *(3) sel(1,2,7) len unfolding shm_inv_def by (simp add: peB)
  then show ?thesis using s pids *(2) sel(3,4) by (auto simp: peB)
qed

lemma pin_enter_inv:
  assumes inv: "shm_inv avail pe" and p: "p \<notin> set (slot_pids pe)" "p \<noteq> 0" and en: "pin_enter pe p n = Some (pe', sig, r)"
  shows "shm_inv avail pe' \<and>
    (case entered_slot r of None \<Rightarrow> slot_pids pe' = slot_pids pe \<and> r = Refused (- EINVAL)
     | Some i \<Rightarrow> \<exists>s < MAX_PROCESSES. i = int s \<and> slot_pids pe ! s = 0 \<and> slot_pids pe' = (slot_pids pe)[s := p])"
proof -
  let ?pe1 = "if nr_processes pe = -1 then pe\<lparr>nr_processes := n, nr_processes_left := n\<rparr> else pe"
  let ?peA = "?pe1\<lparr>nr_processes_left := nr_processes_left ?pe1 - 1\<rparr>"
  let ?f = "\<lambda>it. it\<lparr>pid := p, ready := 0, timeout := 0, next_process_ind := -1\<rparr>"
  have inv1: "shm_inv avail ?pe1" "slot_pids ?pe1 = slot_pids pe"
    using inv shm_inv_sel [OF inv, of ?pe1] by (auto simp: shm_inv_def)
  show ?thesis
  proof (cases "nr_processes ?pe1 = n")
    case False
    then have "pe' = ?pe1" "r = Refused (- EINVAL)" using en by (simp_all add: pin_enter_def Let_def)
    then show ?thesis using inv1 by simp
  next
    case True
    have inv2: "shm_inv avail ?peA" "slot_pids ?peA = slot_pids pe"
      using shm_inv_sel [OF inv1(1), of ?peA] inv1 by (simp_all add: shm_inv_def)
    obtain peB peC where BC: "upd_slot ?peA (find_empty_slot ?peA) ?f = Some peB" "add_to_list peB p (find_empty_slot ?peA) = Some peC"
      and rest: "(if nr_processes_left peC = 0 then do {
            (pe, next_i) \<leftarrow> wake_first peC;
            Some (pe\<lparr>nr_processes_left := nr_processes pe, process_rank := 0\<rparr>, [next_i],
                  if next_i \<noteq> find_empty_slot ?peA then Waits (find_empty_slot ?peA) else Proceeds (find_empty_slot ?peA)) }
          else Some (peC, [], if -1 \<noteq> find_empty_slot ?peA then Waits (find_empty_slot ?peA) else Proceeds (find_empty_slot ?peA)))
        = Some (pe', sig, r)"
      using en True unfolding pin_enter_def Let_def by (auto simp: bind_eq_Some_conv simp del: upd_slot_in)
    obtain s where s: "s < MAX_PROCESSES" "find_empty_slot ?peA = int s" "slot_pids pe ! s = 0" "slot_pids peC = (slot_pids pe)[s := p]"
      and invC: "shm_inv avail peC"
      using new_slot_inv [OF inv2(1) _ p(2) BC] inv2(2) p(1) by auto
    show ?thesis
    proof (cases "nr_processes_left peC = 0")
      case False
      then show ?thesis using rest s invC by (auto split: if_splits)
    next
      case True
      then obtain pe2 i where w: "wake_first peC = Some (pe2, i)" using rest by (auto simp: bind_eq_Some_conv)
      have inv3: "shm_inv avail pe2" "slot_pids pe2 = slot_pids peC" using wake_first_inv [OF invC w] by blast+
      have pe': "pe' = pe2\<lparr>nr_processes_left := nr_processes pe2, process_rank := 0\<rparr>" and r: "entered_slot r = Some (int s)"
        using rest True w s(2) by auto
      have "shm_inv avail pe'" "slot_pids pe' = slot_pids pe2"
        using shm_inv_sel [OF inv3(1), of pe'] by (simp_all add: pe')
      then show ?thesis using r s inv3(2) by auto
    qed
  qed
qed



definition sane_env :: "environment \<Rightarrow> bool" where
  "sane_env env \<longleftrightarrow> nprocs_conf env \<le> 1024 \<and> (\<forall>tops. topology env = Some tops \<longrightarrow> wf_topology tops)"

definition result_ok :: "int \<Rightarrow> bool" where
  "result_ok r \<longleftrightarrow> r \<in> {- EINVAL, - ENOMEM, - ETIMEDOUT} \<or> 0 \<le> r \<and> r < int MAX_PROCESSES"

lemma fold_until_Inr: "fold_until f cs s = Inr v \<Longrightarrow> \<exists>c \<in> set cs. \<exists>s. f c s = Inr v"
  by (induction cs arbitrary: s) (auto split: sum.splits)

lemma choose_cpu_error:
  assumes "nprocs \<le> 1024" "wf_cpus avail" "choose_cpu nprocs tops prev avail = Some (Inl e)"
  shows "e = - EINVAL"
proof (cases "find_cpu_top tops prev")
  case None
  then show ?thesis using assms(3) by (simp add: choose_cpu_def)
next
  case (Some t)
  obtain n where n: "same_cache nprocs (cache_topology_list t) avail = Some n" using assms(3) Some by (auto simp: choose_cpu_def bind_eq_Some_conv)
  then have n0: "n = None" using assms(3) Some by (auto simp: choose_cpu_def split: option.splits)
  then obtain r where r: "same_node nprocs tops (node_id t) avail = Some r" using assms(3) Some n by (auto simp: choose_cpu_def bind_eq_Some_conv)
  have "same_node nprocs tops (node_id t) avail = Some (Inr (Inl e))"
    using assms(3) Some n n0 r by (cases r) (auto simp: choose_cpu_def bind_eq_Some_conv)
  then show ?thesis
    unfolding same_node_def for_each_cpu_eq [OF assms(2,1)]
    by (auto dest!: fold_until_Inr split: option.splits if_splits)
qed

lemma assign_cpus_error:
  assumes "nprocs \<le> 1024" "wf_cpus avail" "assign_cpus nprocs tops n prev avail use = Some (Inl e)"
  shows "e = - EINVAL"
  using assms(2,3)
proof (induction n arbitrary: prev avail use)
  case (Suc n)
  then obtain r where r: "choose_cpu nprocs tops prev avail = Some r" by (auto simp: bind_eq_Some_conv)
  then show ?case
  proof (cases r)
    case (Inl e')
    then show ?thesis using Suc.prems r choose_cpu_error [OF assms(1) Suc.prems(1), of tops prev e] by simp
  next
    case (Inr b)
    then have "assign_cpus nprocs tops n b (CPU_CLR b avail) (CPU_SET b use) = Some (Inl e)" using Suc.prems(2) r by simp
    then show ?thesis by (rule Suc.IH [rotated]) (simp add: Suc.prems(1))
  qed
qed simp

lemma assign_ranks_error:
  assumes "nprocs \<le> 1024" "wf_topology tops" "wf_cpus avail"
    and "assign_ranks nprocs tops k nr rank avail affs = Some (Some e, hi, avail', affs')"
  shows "e = - EINVAL"
  using assms(3,4)
proof (induction "nat (nr - rank)" arbitrary: rank avail affs rule: less_induct)
  case less
  have lt: "rank < nr" using less.prems(2) by (auto simp: assign_ranks.simps [of _ _ _ _ rank] split: if_splits)
  obtain r where r: "assign_rank nprocs tops k avail = Some r"
    using assign_rank_defined [OF assms(1,2) less.prems(1)] by auto
  show ?case
  proof (cases r)
    case (Inl e')
    then have "e' = e" using less.prems(2) r lt by (simp add: assign_ranks.simps [of _ _ _ _ rank])
    then show ?thesis
      using r Inl assign_cpus_error [OF assms(1) wf_CPU_CLR [THEN iffD2, OF less.prems(1)]] by (auto simp: assign_rank_def bind_eq_Some_conv)
  next
    case (Inr p)
    then obtain a1 u where p: "r = Inr (a1, u)" by (cases p) auto
    then obtain affs1 where rest: "assign_ranks nprocs tops k nr (rank + 1) a1 affs1 = Some (Some e, hi, avail', affs')"
      using less.prems(2) r lt by (auto simp: assign_ranks.simps [of _ _ _ _ rank] bind_eq_Some_conv)
    have "wf_cpus a1" using assign_rank_sound [OF assms(1,2) less.prems(1) r [unfolded p]] by blast
    then show ?thesis using less.hyps [OF _ _ rest] lt by simp
  qed
qed

lemma finish_inv:
  assumes inv: "shm_inv avail pe" and fin: "finish env pe = Some (pe', sig, r)"
  shows "shm_inv avail pe' \<and> slot_pids pe' = slot_pids pe \<and> result_ok r"
proof -
  obtain pe1 sig1 where s1: "(if nr_processes_left pe = 0 then Some (pe\<lparr>nr_processes := -1, cpus_available := CPU_ZERO\<rparr>, [])
        else do { (pe, next_i) \<leftarrow> wake_first pe; Some (pe, [next_i]) }) = Some (pe1, sig1)"
    and rest: "do { affinity \<leftarrow> (if 0 \<le> process_rank pe1 then rd (affinities pe1) (nat (process_rank pe1)) else None);
       if \<not> setaffinity_ok env affinity then Some (pe1, sig1, - EINVAL)
       else Some (pe1\<lparr>process_rank := process_rank pe1 + 1\<rparr>, sig1, process_rank pe1) } = Some (pe', sig, r)"
    using fin by (auto simp: finish_def bind_eq_Some_conv simp del: upd_slot_in)
  have inv1: "shm_inv avail pe1 \<and> slot_pids pe1 = slot_pids pe"
  proof (cases "nr_processes_left pe = 0")
    case True
    then have pe1: "pe1 = pe\<lparr>nr_processes := -1, cpus_available := CPU_ZERO\<rparr>" using s1 by simp
    obtain xs where "in_list pe xs" using inv by (auto simp: shm_inv_def)
    then have "in_list pe1 xs" by (rule in_list_cong) (simp_all add: pe1)
    moreover have "cpus_apart avail pe1" by (rule cpus_apart_cong [of _ pe]) (use inv in \<open>simp_all add: pe1 shm_inv_def\<close>)
    ultimately show ?thesis using inv unfolding shm_inv_def by (auto simp: pe1 slot_pids_def)
  next
    case False
    then obtain i where "wake_first pe = Some (pe1, i)" using s1 by (auto simp: bind_eq_Some_conv)
    from wake_first_inv [OF inv this] show ?thesis by blast
  qed
  obtain aff where aff: "0 \<le> process_rank pe1" "rd (affinities pe1) (nat (process_rank pe1)) = Some aff"
    using rest by (auto simp: bind_eq_Some_conv split: if_splits)
  show ?thesis
  proof (cases "setaffinity_ok env aff")
    case False
    then show ?thesis using rest aff inv1 by (simp add: result_ok_def)
  next
    case True
    then have pe': "pe' = pe1\<lparr>process_rank := process_rank pe1 + 1\<rparr>" "r = process_rank pe1" using rest aff by auto
    have "nat (process_rank pe1) < MAX_PROCESSES" using aff(2) inv1 by (simp add: shm_inv_def)
    then have "result_ok r" using aff(1) nat_less_iff by (simp add: result_ok_def pe'(2))
    then show ?thesis using shm_inv_sel [of avail pe1 pe'] inv1 aff(1) by (simp add: pe'(1))
  qed
qed



lemma proceed_inv:
  assumes env: "sane_env env" and inv: "shm_inv avail pe" and pr: "proceed env pe me = Some (pe', sig, r)"
  shows "shm_inv avail pe' \<and> slot_pids pe' = slot_pids pe \<and> result_ok r"
proof -
  let ?pe = "pe\<lparr>nr_processes_left := nr_processes_left pe - 1\<rparr>"
  have rank: "0 \<le> process_rank pe" using inv by (simp add: shm_inv_def)
  have inv1: "shm_inv avail ?pe" "slot_pids ?pe = slot_pids pe" using shm_inv_sel [OF inv, of ?pe] rank by simp_all
  show ?thesis
  proof (cases "process_rank pe = 0")
    case False
    then have "finish env ?pe = Some (pe', sig, r)" using pr by (simp add: proceed_def)
    from finish_inv [OF inv1(1) this] show ?thesis using inv1(2) by simp
  next
    case rank0: True
    show ?thesis
    proof (cases "topology env")
      case None
      then have "abort_all ?pe me = Some (pe', sig, r)" using pr rank0 by (simp add: proceed_def)
      from abort_all_inv [OF inv1(1) this] show ?thesis using inv1(2) by (simp add: result_ok_def)
    next
      case (Some tops)
      have np: "nprocs_conf env \<le> 1024" "wf_topology tops" using env Some by (simp_all add: sane_env_def)
      show ?thesis
      proof (cases "malloc_ok env")
        case False
        then have "pe' = ?pe" "r = - ENOMEM" using pr rank0 Some by (simp_all add: proceed_def)
        then show ?thesis using inv1 by (simp add: result_ok_def)
      next
        case mem: True
        obtain err hi av affs where a: "assign_ranks (nprocs_conf env) tops (cpus_to_assign pe) (nr_processes pe) 0
            (cpus_available ?pe) (affinities ?pe) = Some (err, hi, av, affs)"
          using pr rank0 Some mem by (auto simp: proceed_def bind_eq_Some_conv)
        have parts: "cpus_apart avail ?pe" "length (affinities ?pe) = MAX_PROCESSES" "wf_cpus (cpus_available ?pe)"
          using inv1(1) by (simp_all add: shm_inv_def cpus_apart_def)
        let ?pe2 = "?pe\<lparr>process_rank := hi, cpus_available := av, affinities := affs\<rparr>"
        have ap: "cpus_apart avail ?pe2" "0 \<le> hi" "length affs = MAX_PROCESSES"
          using assign_ranks_apart [OF np parts(1,2) a, of ?pe2] by simp_all
        obtain xs where "in_list pe xs" using inv by (auto simp: shm_inv_def)
        then have "in_list ?pe2 xs" by (rule in_list_cong) simp_all
        moreover have "length (processes ?pe2) = MAX_PROCESSES" "length (affinities ?pe2) = MAX_PROCESSES" "0 \<le> process_rank ?pe2"
          using inv ap(2,3) by (simp_all add: shm_inv_def)
        ultimately have inv2: "shm_inv avail ?pe2" unfolding shm_inv_def using ap(1) by blast
        have pids2: "slot_pids ?pe2 = slot_pids pe" by (simp add: slot_pids_def)
        show ?thesis
        proof (cases err)
          case (Some e)
          then have "pe' = ?pe2" "r = e" using pr rank0 \<open>topology env = Some tops\<close> mem a by (simp_all add: proceed_def)
          moreover have "e = - EINVAL" using assign_ranks_error [OF np parts(3) a [unfolded Some]] .
          ultimately show ?thesis using inv2 pids2 by (simp add: result_ok_def)
        next
          case None
          have "finish env (?pe2\<lparr>process_rank := 0\<rparr>) = Some (pe', sig, r)"
            using pr rank0 \<open>topology env = Some tops\<close> mem a None by (simp add: proceed_def)
          moreover have "shm_inv avail (?pe2\<lparr>process_rank := 0\<rparr>)" "slot_pids (?pe2\<lparr>process_rank := 0\<rparr>) = slot_pids pe"
            using shm_inv_sel [OF inv2, of "?pe2\<lparr>process_rank := 0\<rparr>"] pids2 by simp_all
          ultimately show ?thesis using finish_inv by metis
        qed
      qed
    qed
  qed
qed

lemma after_wait_inv:
  assumes "sane_env env" "shm_inv avail pe" "after_wait env pe me i ret = Some (pe', sig, r)"
  shows "shm_inv avail pe' \<and> slot_pids pe' = slot_pids pe \<and> result_ok r"
proof (cases "ret = ETIMEDOUT")
  case True
  then show ?thesis using abort_all_inv [OF assms(2), of me pe' sig r] assms(3) by (simp add: after_wait_def result_ok_def)
next
  case False
  then obtain pli where "slot pe i = Some pli" using assms(3) by (auto simp: after_wait_def bind_eq_Some_conv)
  then have "pe' = pe \<and> r \<in> {- ETIMEDOUT, - EINVAL} \<or> proceed env pe me = Some (pe', sig, r)"
    using assms(3) False by (auto simp: after_wait_def split: if_splits)
  then show ?thesis using proceed_inv [OF assms(1,2)] assms(2) by (auto simp: result_ok_def)
qed

text \<open>The processes: who owns which slot.\<close>

definition config_inv :: "cpu_set \<Rightarrow> config \<Rightarrow> bool" where
  "config_inv avail c \<longleftrightarrow> shm_inv avail (shm c) \<and>
     (\<forall>p i. status c p = Waiting i \<longrightarrow> (\<exists>s < MAX_PROCESSES. i = int s \<and> slot_pids (shm c) ! s = p)) \<and>
     (\<forall>p r. status c p = Returned r \<longrightarrow> result_ok r) \<and>
     (\<forall>p \<in> set (slot_pids (shm c)). p \<noteq> 0 \<longrightarrow> status c p \<noteq> Absent \<and> status c p \<noteq> Not_entered) \<and>
     (\<forall>r s. r < s \<and> s < MAX_PROCESSES \<and> slot_pids (shm c) ! s \<noteq> 0 \<longrightarrow> slot_pids (shm c) ! r \<noteq> slot_pids (shm c) ! s) \<and>
     (status c 0 = Absent)"

lemma config_inv_initial:
  assumes "wf_cpus avail" "0 \<notin> P"
  shows "config_inv avail (initial P avail k)"
proof -
  have pids: "slot_pids (initial_pe avail k) = replicate MAX_PROCESSES 0" by (simp add: slot_pids_def initial_pe_def empty_slot_def)
  have "in_list (initial_pe avail k) []" by (simp add: in_list_def initial_pe_def)
  moreover have "cpus_apart avail (initial_pe avail k)" using assms(1) by (simp add: cpus_apart_def initial_pe_def)
  ultimately have "shm_inv avail (initial_pe avail k)" by (auto simp: shm_inv_def initial_pe_def)
  then show ?thesis using pids assms(2) by (simp add: config_inv_def initial_def)
qed

lemma config_invD:
  assumes "config_inv avail c"
  shows "shm_inv avail (shm c)" "status c p = Waiting i \<Longrightarrow> \<exists>s < MAX_PROCESSES. i = int s \<and> slot_pids (shm c) ! s = p"
    "status c p = Returned r \<Longrightarrow> result_ok r"
    "p \<in> set (slot_pids (shm c)) \<Longrightarrow> p \<noteq> 0 \<Longrightarrow> status c p \<noteq> Absent \<and> status c p \<noteq> Not_entered"
    "a < b \<Longrightarrow> b < MAX_PROCESSES \<Longrightarrow> slot_pids (shm c) ! b \<noteq> 0 \<Longrightarrow> slot_pids (shm c) ! a \<noteq> slot_pids (shm c) ! b"
    "status c 0 = Absent"
  using assms unfolding config_inv_def by simp_all

lemma config_inv_same_slots:
  assumes inv: "config_inv avail c" and "status c p \<noteq> Absent" "shm_inv avail pe" "slot_pids pe = slot_pids (shm c)" "result_ok r"
  shows "config_inv avail (c\<lparr>shm := pe, status := (status c)(p := Returned r), signalled := S\<rparr>)"
proof -
  note D = config_invD [OF inv]
  have "p \<noteq> 0" using assms(2) D(6) by auto
  then show ?thesis using assms(3-5) D(2-6) by (auto simp: config_inv_def split: if_splits)
qed

lemma config_inv_new_slot:
  assumes inv: "config_inv avail c" and p: "status c p = Not_entered" and "shm_inv avail pe"
    and s: "s < MAX_PROCESSES" "slot_pids pe = (slot_pids (shm c))[s := p]" "slot_pids (shm c) ! s = 0"
    and st: "st = Waiting (int s) \<or> (\<exists>r. st = Returned r \<and> result_ok r)"
  shows "config_inv avail (c\<lparr>shm := pe, status := (status c)(p := st), signalled := S\<rparr>)"
proof -
  note D = config_invD [OF inv]
  have p0: "p \<noteq> 0" "p \<notin> set (slot_pids (shm c))" using p D(4,6) by force+
  have len: "length (slot_pids (shm c)) = MAX_PROCESSES" using D(1) by (simp add: shm_inv_def slot_pids_def)
  have ps: "slot_pids pe ! x = (if x = s then p else slot_pids (shm c) ! x)" for x
    using s len by (simp add: nth_list_update)
  have other: "slot_pids (shm c) ! x \<noteq> p" if "x < MAX_PROCESSES" for x using p0(2) that len by (metis nth_mem)
  have old: "q = p \<or> q \<in> set (slot_pids (shm c))" if "q \<in> set (slot_pids pe)" for q
    using that set_update_subset_insert [of "slot_pids (shm c)" s p] by (auto simp: s(2))
  show ?thesis
    unfolding config_inv_def
  proof (intro conjI allI impI ballI, goal_cases)
    case 1
    then show ?case using assms(3) by simp
  next
    case (2 q i)
    show ?case
    proof (cases "q = p")
      case True
      then show ?thesis using 2 st s(1) ps by auto
    next
      case False
      then obtain x where "x < MAX_PROCESSES" "i = int x" "slot_pids (shm c) ! x = q" using 2 D(2) [of q i] by auto
      moreover have "q \<noteq> 0" using 2 False D(6) by auto
      then have "x \<noteq> s" using calculation(3) s(3) by auto
      ultimately show ?thesis using ps [of x] by auto
    qed
  next
    case (3 q r)
    then show ?case using st D(3) by (auto split: if_splits)
  next
    case (4 q)
    then show ?case using old [of q] D(4) [of q] st by auto
  next
    case (5 q)
    then show ?case using old [of q] D(4) [of q] st by auto
  next
    case (6 a b)
    then show ?case using ps [of a] ps [of b] other [of a] other [of b] D(5) [of a b] by (auto split: if_splits)
  qed (use st p p0 D(6) in \<open>auto split: if_splits\<close>)
qed


lemma config_inv_step:
  assumes env: "sane_env env" and inv: "config_inv avail c" and "step env ppn c l c'"
  shows "config_inv avail c'"
proof -
  note D = config_invD [OF inv]
  have fresh: "p \<notin> set (slot_pids (shm c)) \<and> p \<noteq> 0" if "status c p = Not_entered" for p
    using that D(4,6) by force
  from assms(3) show ?thesis
  proof cases
    case (enter_refused p pe sig e)
    have "shm_inv avail pe" "slot_pids pe = slot_pids (shm c)" "e = - EINVAL"
      using pin_enter_inv [OF D(1) _ _ enter_refused(4)] fresh [OF enter_refused(3)] by simp_all
    then show ?thesis
      using config_inv_same_slots [OF inv, of p pe e "signalled c"] enter_refused by (simp add: result_ok_def)
  next
    case (enter_waits p pe sig i)
    then obtain s where "s < MAX_PROCESSES" "i = int s" "slot_pids (shm c) ! s = 0" "slot_pids pe = (slot_pids (shm c))[s := p]" "shm_inv avail pe"
      using pin_enter_inv [OF D(1) _ _ enter_waits(4)] fresh [OF enter_waits(3)] by auto
    then show ?thesis using config_inv_new_slot [OF inv enter_waits(3)] enter_waits(2) by simp
  next
    case (enter_proceeds p pe sig i pe' sig' r)
    then obtain s where s: "s < MAX_PROCESSES" "slot_pids (shm c) ! s = 0" "slot_pids pe = (slot_pids (shm c))[s := p]" "shm_inv avail pe"
      using pin_enter_inv [OF D(1) _ _ enter_proceeds(4)] fresh [OF enter_proceeds(3)] by auto
    then have "shm_inv avail pe'" "slot_pids pe' = slot_pids pe" "result_ok r"
      using proceed_inv [OF env _ enter_proceeds(5)] by blast+
    then show ?thesis using config_inv_new_slot [OF inv enter_proceeds(3)] s enter_proceeds(2) by simp
  next
    case (wake p i pe sig r)
    then show ?thesis using config_inv_same_slots [OF inv] after_wait_inv [OF env D(1) wake(5)] by simp
  next
    case (spurious p i pe sig r)
    then show ?thesis using config_inv_same_slots [OF inv] after_wait_inv [OF env D(1) spurious(5)] by simp
  next
    case (timed_out p i pe sig r)
    then show ?thesis using config_inv_same_slots [OF inv] after_wait_inv [OF env D(1) timed_out(4)] by simp
  qed
qed


text \<open>Every critical section meets an environment of its own: a call that fails once may succeed later.\<close>

definition any_step :: "(int \<Rightarrow> int) \<Rightarrow> config \<Rightarrow> config \<Rightarrow> bool" where
  "any_step ppn c c' \<longleftrightarrow> (\<exists>env l. sane_env env \<and> step env ppn c l c')"

interpretation node: kept_invariant
  "\<lambda>(ppn, P, avail, k). wf_cpus avail \<and> 0 \<notin> P"
  "\<lambda>(ppn, P, avail, k) c. c = initial P avail k"
  "\<lambda>(ppn, P, avail, k). any_step ppn"
  "\<lambda>(ppn, P, avail, k). config_inv avail"
  by unfold_locales (auto simp: any_step_def intro: config_inv_initial config_inv_step)

section \<open>The invariant\<close>

lemma owner_unique:
  assumes "config_inv avail c" "status c p = Waiting i" "status c q = Waiting i"
  shows "p = q"
  using config_invD(2) [OF assms(1,2)] config_invD(2) [OF assms(1,3)] by auto

text \<open>
  C12. In every state that can be reached, whatever times out, wakes up spuriously or fails, and however many processes each one
  asks for: the process list ends, its slots exist and are in strictly ascending PID order, so none is twice in it; every
  waiting process has a slot of its own; the affinities of different ranks are disjoint CPUs of the node; and what
  a process returned is a rank below 1024 or one of \<^verbatim>\<open>-EINVAL\<close>, \<^verbatim>\<open>-ENOMEM\<close> and \<^verbatim>\<open>-ETIMEDOUT\<close>.
\<close>

theorem pin_process_invariant:
  assumes "wf_cpus avail" "0 \<notin> P" "(any_step ppn)\<^sup>*\<^sup>* (initial P avail k) c"
  shows "(\<exists>xs. lseg (processes (shm c)) (first_process_ind (shm c)) xs (-1) \<and>
      sorted_wrt (\<lambda>x y. pid (processes (shm c) ! x) < pid (processes (shm c) ! y)) xs) \<and>
    (\<forall>p i. status c p = Waiting i \<longrightarrow> 0 \<le> i \<and> i < int MAX_PROCESSES \<and> pid (processes (shm c) ! nat i) = p) \<and>
    (\<forall>p q i. status c p = Waiting i \<and> status c q = Waiting i \<longrightarrow> p = q) \<and>
    (\<forall>r < MAX_PROCESSES. cpus_of (affinities (shm c) ! r) \<subseteq> cpus_of avail) \<and>
    (\<forall>r s. r < s \<and> s < MAX_PROCESSES \<longrightarrow> cpus_of (affinities (shm c) ! r) \<inter> cpus_of (affinities (shm c) ! s) = {}) \<and>
    (\<forall>p r. status c p = Returned r \<longrightarrow> r \<in> {- EINVAL, - ENOMEM, - ETIMEDOUT} \<or> 0 \<le> r \<and> r < int MAX_PROCESSES)"
proof -
  have inv: "config_inv avail c" using node.always [of "(ppn, P, avail, k)"] assms by simp
  note D = config_invD [OF inv]
  have shm: "length (processes (shm c)) = MAX_PROCESSES" "cpus_apart avail (shm c)" using D(1) by (simp_all add: shm_inv_def)
  obtain xs where xs: "in_list (shm c) xs" using D(1) by (auto simp: shm_inv_def)
  then have "sorted_wrt (\<lambda>x y. slot_pids (shm c) ! x < slot_pids (shm c) ! y) xs" by (simp add: in_list_def sorted_wrt_map)
  then have "sorted_wrt (\<lambda>x y. pid (processes (shm c) ! x) < pid (processes (shm c) ! y)) xs"
    by (rule sorted_wrt_mono_rel [rotated]) (simp add: slot_pids_nth in_list_bound [OF xs])
  moreover have "0 \<le> i \<and> i < int MAX_PROCESSES \<and> pid (processes (shm c) ! nat i) = p" if "status c p = Waiting i" for p i
    using D(2) [OF that] shm(1) by (auto simp: slot_pids_nth)
  moreover have "lseg (processes (shm c)) (first_process_ind (shm c)) xs (-1)" using xs by (simp add: in_list_def)
  moreover have "\<forall>r < MAX_PROCESSES. cpus_of (affinities (shm c) ! r) \<subseteq> cpus_of avail"
      "\<forall>r s. r < s \<and> s < MAX_PROCESSES \<longrightarrow> cpus_of (affinities (shm c) ! r) \<inter> cpus_of (affinities (shm c) ! s) = {}"
    using shm(2) by (simp_all add: cpus_apart_def)
  moreover have "r \<in> {- EINVAL, - ENOMEM, - ETIMEDOUT} \<or> 0 \<le> r \<and> r < int MAX_PROCESSES" if "status c p = Returned r" for p r
    using D(3) [OF that] by (simp only: result_ok_def)
  ultimately show ?thesis using owner_unique [OF inv] by (intro conjI; metis)
qed

lemma example_env_sane: "sane_env example_env"
  using example_topology by (simp add: sane_env_def example_env_def)

lemma calm_any: "sane_env env \<Longrightarrow> calm env ppn c c' \<Longrightarrow> any_step ppn c c'"
  unfolding calm_def any_step_def by blast

theorem pin_process_invariant_witness:
  "\<exists>c p xs. (any_step (\<lambda>_. int (card example_pids)))\<^sup>*\<^sup>* example_initial c \<and> status c p = Returned (- EINVAL) \<and>
     lseg (processes (shm c)) (first_process_ind (shm c)) xs (-1)"
proof -
  obtain c p i where c: "example_step\<^sup>*\<^sup>* example_initial c" "status c p = Waiting i" "i \<notin> signalled c" using example_waiting by blast
  obtain ph where ph: "represents example_pids (example_cpus [0, 1, 2, 3]) 1 c ph" using calm_reach [OF example_ok c(1)] by blast
  obtain it where "slot (shm c) i = Some it" "timeout it = 0" "ready it = 0" using waiting_not_ready [OF example_ok ph c(2,3)] by blast
  note sp = step.spurious [where ppn = "\<lambda>_. int (card example_pids)" and env = example_env, OF c(2,3) not_ready [OF this]]
  define c1 where "c1 = c\<lparr>shm := shm c, status := (status c)(p := Returned (- EINVAL)), signalled := signalled c \<union> set []\<rparr>"
  have c1: "any_step (\<lambda>_. int (card example_pids)) c c1" "status c1 p = Returned (- EINVAL)"
    using example_env_sane sp unfolding any_step_def c1_def by (blast, simp)
  have "(any_step (\<lambda>_. int (card example_pids)))\<^sup>*\<^sup>* example_initial c"
    using c(1) by (rule rtranclp_mono [THEN predicate2D, rotated]) (use calm_any [OF example_env_sane] in blast)
  then have r: "(any_step (\<lambda>_. int (card example_pids)))\<^sup>*\<^sup>* example_initial c1" using c1(1) by (rule rtranclp.rtrancl_into_rtrancl)
  have "wf_cpus (example_cpus [0, 1, 2, 3])" "(0 :: int) \<notin> example_pids" using example_wf(1) by (simp_all add: example_pids_def)
  from pin_process_invariant [OF this r, THEN conjunct1] r c1(2) show ?thesis by blast
qed

end
