(* ===== verification/Node.thy ===== *)
theory Node
  imports Launcher Pin_Invariant
begin

text \<open>
  A whole node as one step relation: every process runs \<^verbatim>\<open>main()\<close> of \<^verbatim>\<open>mpipin.c\<close>, and the steps of all of them interleave
  freely. A process opens the shared memory object with the name \<^verbatim>\<open>/mpipin.<ppid>.shm\<close>, or creates it, joins under the
  lock of the file, runs the critical sections of \<^verbatim>\<open>pin_process()\<close> on the object it has opened, and unlinks the
  name. An object stays in use after its name is gone, so an opener that comes later creates another one.
  The lemmas show that with working machines the node is always in one of two phases, still joining (\<open>collecting\<close>) or in
  a run of theory \<open>Protocol\<close> (\<open>running\<close>), however the processes interleave.
\<close>

section \<open>The state and the steps\<close>

text \<open>The number is the object that the process has opened.\<close>

datatype proc_status = No_process | Not_started | Opened nat | Ready nat | Sleeps nat int | Pinned nat int | Done nat int | Failed

record node_state =
  named :: "nat option"
  objects :: "nat \<Rightarrow> part_exec option"
  fresh_object :: nat
  wakeups :: "nat \<Rightarrow> int set"
  proc :: "int \<Rightarrow> proc_status"

definition node_start :: "int set \<Rightarrow> node_state" where
  "node_start P = \<lparr>named = None, objects = (\<lambda>_. None), fresh_object = 0, wakeups = (\<lambda>_. {}),
     proc = (\<lambda>p. if p \<in> P then Not_started else No_process)\<rparr>"

text \<open>What \<^verbatim>\<open>pin_process()\<close> sees of the processes that use the object \<open>ob\<close>, and how a step of it shows in the node.\<close>

fun status_in :: "nat \<Rightarrow> proc_status \<Rightarrow> status" where
  "status_in ob (Ready o1) = (if o1 = ob then Not_entered else Absent)"
| "status_in ob (Sleeps o1 i) = (if o1 = ob then Waiting i else Absent)"
| "status_in ob (Pinned o1 r) = (if o1 = ob then Returned r else Absent)"
| "status_in ob (Done o1 r) = (if o1 = ob then Returned r else Absent)"
| "status_in ob _ = Absent"

definition view :: "nat \<Rightarrow> part_exec \<Rightarrow> node_state \<Rightarrow> config" where
  "view ob pe N = \<lparr>shm = pe, status = (\<lambda>p. status_in ob (proc N p)), signalled = wakeups N ob\<rparr>"

fun proc_of :: "nat \<Rightarrow> status \<Rightarrow> proc_status" where
  "proc_of ob (Waiting i) = Sleeps ob i"
| "proc_of ob (Returned r) = Pinned ob r"
| "proc_of ob Not_entered = Ready ob"
| "proc_of ob Absent = No_process"

definition after_pin :: "nat \<Rightarrow> int \<Rightarrow> config \<Rightarrow> node_state \<Rightarrow> node_state" where
  "after_pin ob p c N = N\<lparr>objects := (objects N)(ob \<mapsto> shm c), wakeups := (wakeups N)(ob := signalled c),
     proc := (proc N)(p := proc_of ob (status c p))\<rparr>"

text \<open>A process whose \<^verbatim>\<open>sched_getaffinity()\<close> fails stays as it is. The first failing call after it of \<^verbatim>\<open>main()\<close> or the return of \<^verbatim>\<open>pin_process()\<close> leads to \<^verbatim>\<open>shm_unlink(shm_path)\<close>.\<close>

datatype node_label = Open int | Join int | Pin label | Unlink int

inductive node_step :: "(int \<Rightarrow> machine) \<Rightarrow> (int \<Rightarrow> launch) \<Rightarrow> environment \<Rightarrow> node_state \<Rightarrow> node_label \<Rightarrow> node_state \<Rightarrow> bool"
  for mach :: "int \<Rightarrow> machine" and opts :: "int \<Rightarrow> launch" and env :: environment where
  opens:
    "proc N p = Not_started \<Longrightarrow> affinity (mach p) \<noteq> None \<Longrightarrow> shm_open_ok (mach p) \<Longrightarrow> named N = Some ob \<Longrightarrow>
     node_step mach opts env N (Open p) (N\<lparr>proc := (proc N)(p := Opened ob)\<rparr>)"
| creates:
    "proc N p = Not_started \<Longrightarrow> affinity (mach p) \<noteq> None \<Longrightarrow> shm_open_ok (mach p) \<Longrightarrow> named N = None \<Longrightarrow> ob = fresh_object N \<Longrightarrow>
     node_step mach opts env N (Open p)
       (N\<lparr>named := Some ob, objects := (objects N)(ob := None), wakeups := (wakeups N)(ob := {}), fresh_object := Suc ob,
          proc := (proc N)(p := Opened ob)\<rparr>)"
| open_fails:
    "proc N p = Not_started \<Longrightarrow> affinity (mach p) \<noteq> None \<Longrightarrow> \<not> shm_open_ok (mach p) \<Longrightarrow>
     node_step mach opts env N (Open p) (N\<lparr>named := None, proc := (proc N)(p := Failed)\<rparr>)"
| joins:
    "proc N p = Opened ob \<Longrightarrow> affinity (mach p) = Some a \<Longrightarrow> join_locked (mach p) (opts p) a (objects N ob) = Some (seg, True) \<Longrightarrow>
     node_step mach opts env N (Join p) (N\<lparr>objects := (objects N)(ob := seg), proc := (proc N)(p := Ready ob)\<rparr>)"
| join_fails:
    "proc N p = Opened ob \<Longrightarrow> affinity (mach p) = Some a \<Longrightarrow> join_locked (mach p) (opts p) a (objects N ob) = Some (seg, False) \<Longrightarrow>
     node_step mach opts env N (Join p) (N\<lparr>named := None, objects := (objects N)(ob := seg), proc := (proc N)(p := Failed)\<rparr>)"
| pins:
    "objects N ob = Some pe \<Longrightarrow> step env (\<lambda>p. ppn (opts p)) (view ob pe N) l c \<Longrightarrow>
     node_step mach opts env N (Pin l) (after_pin ob (actor l) c N)"
| unlinks:
    "proc N p = Pinned ob r \<Longrightarrow> node_step mach opts env N (Unlink p) (N\<lparr>named := None, proc := (proc N)(p := Done ob r)\<rparr>)"

inductive_cases node_step_OpenE: "node_step mach opts env N (Open p) N'"
inductive_cases node_step_JoinE: "node_step mach opts env N (Join p) N'"
inductive_cases node_step_PinE: "node_step mach opts env N (Pin l) N'"
inductive_cases node_step_UnlinkE: "node_step mach opts env N (Unlink p) N'"

fun calm_node_label :: "node_label \<Rightarrow> bool" where
  "calm_node_label (Pin l) = calm_label l"
| "calm_node_label _ = True"

definition calm_node :: "(int \<Rightarrow> machine) \<Rightarrow> (int \<Rightarrow> launch) \<Rightarrow> environment \<Rightarrow> node_state \<Rightarrow> node_state \<Rightarrow> bool" where
  "calm_node mach opts env N N' \<longleftrightarrow> (\<exists>l. calm_node_label l \<and> node_step mach opts env N l N')"

section \<open>Every run ends\<close>

text \<open>The number of steps a process can still make.\<close>

fun steps_left :: "proc_status \<Rightarrow> nat" where
  "steps_left Not_started = 5"
| "steps_left (Opened ob) = 4"
| "steps_left (Ready ob) = 3"
| "steps_left (Sleeps ob i) = 2"
| "steps_left (Pinned ob r) = 1"
| "steps_left _ = 0"

lemma step_actor:
  assumes "step env f c l c'"
  shows "(status c (actor l) = Not_entered \<and> (\<exists>x. status c' (actor l) = Waiting x \<or> status c' (actor l) = Returned x)) \<or>
    (\<exists>i r. status c (actor l) = Waiting i \<and> status c' (actor l) = Returned r)"
  using assms by cases simp_all

lemma view_sel [simp]: "shm (view ob pe N) = pe" "status (view ob pe N) p = status_in ob (proc N p)" "signalled (view ob pe N) = wakeups N ob"
  by (simp_all add: view_def)

lemma status_in_Not_entered [simp]: "status_in ob s = Not_entered \<longleftrightarrow> s = Ready ob"
  by (cases s) auto

lemma status_in_Waiting [simp]: "status_in ob s = Waiting i \<longleftrightarrow> s = Sleeps ob i"
  by (cases s) auto

lemma status_in_Returned: "status_in ob s = Returned r \<longleftrightarrow> s = Pinned ob r \<or> s = Done ob r"
  by (cases s) auto

fun node_actor :: "node_label \<Rightarrow> int" where
  "node_actor (Open p) = p"
| "node_actor (Join p) = p"
| "node_actor (Pin l) = actor l"
| "node_actor (Unlink p) = p"

lemma node_step_lowers:
  assumes "node_step mach opts env N l N'"
  shows "steps_left (proc N' (node_actor l)) < steps_left (proc N (node_actor l)) \<and> (\<forall>q. q \<noteq> node_actor l \<longrightarrow> proc N' q = proc N q)"
  using assms
proof cases
  case (pins ob pe l' c)
  from step_actor [OF pins(4)] show ?thesis
    using pins(1,2) by (auto simp: after_pin_def)
qed auto

lemma node_steps_bound:
  assumes "finite P" "(calm_node mach opts env ^^ m) (node_start P) N"
  shows "m + (\<Sum>p\<in>P. steps_left (proc N p)) \<le> 5 * card P \<and> (\<forall>p. p \<notin> P \<longrightarrow> proc N p = No_process)"
  using assms(2)
proof (induction m arbitrary: N)
  case 0
  have "(\<Sum>p\<in>P. steps_left (proc (node_start P) p)) = (\<Sum>p\<in>P. 5)" by (rule sum.cong) (simp_all add: node_start_def)
  moreover have "N = node_start P" using 0 by simp
  moreover have "proc (node_start P) p = No_process" if "p \<notin> P" for p using that by (simp add: node_start_def)
  ultimately show ?case by simp
next
  case (Suc m)
  obtain N1 where N1': "(calm_node mach opts env ^^ m) (node_start P) N1" "calm_node mach opts env N1 N" using Suc.prems by auto
  then obtain l where N1: "(calm_node mach opts env ^^ m) (node_start P) N1" "node_step mach opts env N1 l N" unfolding calm_node_def by blast
  note IH = Suc.IH [OF N1(1)] and low = node_step_lowers [OF N1(2)]
  let ?p = "node_actor l"
  have "steps_left (proc N1 ?p) \<noteq> 0" using low by simp
  then have p: "?p \<in> P" using IH by (cases "?p \<in> P") auto
  have "(\<Sum>p\<in>P - {?p}. steps_left (proc N p)) = (\<Sum>p\<in>P - {?p}. steps_left (proc N1 p))" using low by (intro sum.cong) auto
  then have "(\<Sum>p\<in>P. steps_left (proc N p)) < (\<Sum>p\<in>P. steps_left (proc N1 p))"
    using sum.remove [OF assms(1) p, of "\<lambda>p. steps_left (proc N p)"] sum.remove [OF assms(1) p, of "\<lambda>p. steps_left (proc N1 p)"] low by linarith
  then have "Suc m + (\<Sum>p\<in>P. steps_left (proc N p)) \<le> 5 * card P" using IH by linarith
  moreover have "proc N q = No_process" if "q \<notin> P" for q
  proof -
    have "q \<noteq> ?p" using that p by blast
    then show ?thesis using IH low that by simp
  qed
  ultimately show ?case by blast
qed


section \<open>The frame of an entering process\<close>

lemma upd_slot_left_in_init: "upd_slot pe i f = Some pe' \<Longrightarrow> nr_processes_left_in_init pe' = nr_processes_left_in_init pe"
  by (auto simp: upd_slot_def bind_eq_Some_conv)

lemma add_to_list_left_in_init:
  "add_to_list pe p i = Some pe' \<Longrightarrow> nr_processes_left_in_init pe' = nr_processes_left_in_init pe"
  by (auto simp: add_to_list_def bind_eq_Some_conv dest!: upd_slot_left_in_init split: if_splits)

lemma wake_first_left_in_init: "wake_first pe = Some (pe', i) \<Longrightarrow> nr_processes_left_in_init pe' = nr_processes_left_in_init pe"
  by (auto simp: wake_first_def Let_def bind_eq_Some_conv dest!: upd_slot_left_in_init)

lemma pin_enter_left_in_init:
  "pin_enter pe p n = Some (pe', sig, r) \<Longrightarrow> nr_processes_left_in_init pe' = nr_processes_left_in_init pe"
  by (auto simp: pin_enter_def Let_def bind_eq_Some_conv
      dest!: upd_slot_left_in_init add_to_list_left_in_init wake_first_left_in_init split: if_splits)

section \<open>The node that is started\<close>

text \<open>
  All machines work and agree on the number of CPUs, and every process asks for as many processes as there are. The process that
  joins last, \<open>q\<close>, decides on the available CPUs.
\<close>

definition last_cpus :: "(int \<Rightarrow> machine) \<Rightarrow> (int \<Rightarrow> launch) \<Rightarrow> int set \<Rightarrow> int \<Rightarrow> nat set" where
  "last_cpus mach opts P q = ((\<Union>p\<in>P. own_cpus (mach p)) \<union> {c. c < configured (mach q) \<and> can_run (mach q) c}) - cpus_of (cpus_excluded (opts q))"

definition ready_node :: "(int \<Rightarrow> machine) \<Rightarrow> (int \<Rightarrow> launch) \<Rightarrow> sysfs \<Rightarrow> (cpu_set \<Rightarrow> bool) \<Rightarrow> int set \<Rightarrow> bool" where
  "ready_node mach opts fs sa P \<longleftrightarrow> finite P \<and> 0 \<notin> P \<and> 2 \<le> card P \<and>
     (\<forall>p \<in> P. working (mach p) \<and> configured (mach p) = nprocs fs \<and> own_cpus (mach p) \<subseteq> {..<nprocs fs} \<and>
        ppn (opts p) = int (card P) \<and> wf_cpus (cpus_excluded (opts p)) \<and> cpus_of (cpus_excluded (opts p)) \<subseteq> {..<nprocs fs}) \<and>
     (\<exists>S F Nf. tree fs S F Nf \<and> (\<forall>q \<in> P. last_cpus mach opts P q \<subseteq> S)) \<and>
     (\<forall>q \<in> P. card P \<le> card (last_cpus mach opts P q) \<and>
        (\<forall>s. wf_cpus s \<and> cpus_of s \<noteq> {} \<and> cpus_of s \<subseteq> last_cpus mach opts P q \<longrightarrow> sa s))"

definition joined_so_far :: "(int \<Rightarrow> machine) \<Rightarrow> int set \<Rightarrow> int set \<Rightarrow> int set \<Rightarrow> part_exec option \<Rightarrow> (int \<Rightarrow> proc_status) \<Rightarrow> bool" where
  "joined_so_far mach P J E seg pr \<longleftrightarrow>
     (if J = {} then seg = None
      else \<exists>pe w. seg = Some pe \<and> gathered (card P) E w (cpus_available pe) 0 pe \<and>
        nr_processes_left_in_init pe = int (card P) - int (card J) \<and>
        wf_cpus (cpus_available pe) \<and> cpus_of (cpus_available pe) = (\<Union>p\<in>J. own_cpus (mach p)) \<and>
        (\<forall>p \<in> E. pr p = Sleeps 0 (int (w p))))"

definition collecting :: "(int \<Rightarrow> machine) \<Rightarrow> int set \<Rightarrow> int set \<Rightarrow> int set \<Rightarrow> node_state \<Rightarrow> bool" where
  "collecting mach P J E N \<longleftrightarrow> E \<subseteq> J \<and> J \<subset> P \<and> (\<forall>p. p \<notin> P \<longrightarrow> proc N p = No_process) \<and>
     (\<forall>p \<in> P - J. proc N p = Not_started \<or> proc N p = Opened 0) \<and> (\<forall>p \<in> J - E. proc N p = Ready 0) \<and> wakeups N 0 = {} \<and>
     (named N = Some 0 \<or> named N = None \<and> J = {} \<and> (\<forall>p \<in> P. proc N p = Not_started) \<and> fresh_object N = 0) \<and>
     joined_so_far mach P J E (objects N 0) (proc N)"

lemma joined_so_far_cong: "(\<And>p. p \<in> E \<Longrightarrow> pr' p = pr p) \<Longrightarrow> joined_so_far mach P J E seg pr' = joined_so_far mach P J E seg pr"
  by (simp add: joined_so_far_def)

definition share :: "(int \<Rightarrow> machine) \<Rightarrow> (int \<Rightarrow> launch) \<Rightarrow> int set \<Rightarrow> int \<Rightarrow> int" where
  "share mach opts P q = int (card (last_cpus mach opts P q) div card P)"

definition running :: "(int \<Rightarrow> machine) \<Rightarrow> (int \<Rightarrow> launch) \<Rightarrow> int set \<Rightarrow> phase \<Rightarrow> node_state \<Rightarrow> bool" where
  "running mach opts P ph N \<longleftrightarrow> (\<exists>q \<in> P. \<exists>pe avail. objects N 0 = Some pe \<and> wf_cpus avail \<and> cpus_of avail = last_cpus mach opts P q \<and>
     represents P avail (share mach opts P q) (view 0 pe N) ph) \<and>
     (\<forall>p. p \<notin> P \<longrightarrow> proc N p = No_process) \<and> (\<forall>p \<in> P. status_in 0 (proc N p) \<noteq> Absent) \<and>
     ((\<exists>p r. proc N p = Done 0 r) \<longrightarrow> named N = None)"

lemma ready_nodeD:
  assumes "ready_node mach opts fs sa P"
  shows "finite P" "0 \<notin> P" "2 \<le> card P" "p \<in> P \<Longrightarrow> working (mach p)" "p \<in> P \<Longrightarrow> configured (mach p) = nprocs fs"
    "p \<in> P \<Longrightarrow> own_cpus (mach p) \<subseteq> {..<nprocs fs}" "p \<in> P \<Longrightarrow> ppn (opts p) = int (card P)"
    "p \<in> P \<Longrightarrow> wf_cpus (cpus_excluded (opts p))" "p \<in> P \<Longrightarrow> cpus_of (cpus_excluded (opts p)) \<subseteq> {..<nprocs fs}"
  using assms by (simp_all add: ready_node_def)

lemma ready_node_ok:
  assumes "ready_node mach opts fs sa P" "q \<in> P" "wf_cpus a" "cpus_of a = last_cpus mach opts P q"
  shows "node_ok P a (share mach opts P q) (env_of fs sa)" "nat (max 1 (share mach opts P q)) = card (last_cpus mach opts P q) div card P"
proof -
  note D = ready_nodeD [OF assms(1)]
  obtain S F Nf where T: "tree fs S F Nf" "cpus_of a \<subseteq> S" using assms by (auto simp: ready_node_def)
  have "card P \<le> card (cpus_of a)" "\<forall>s. wf_cpus s \<and> cpus_of s \<noteq> {} \<and> cpus_of s \<subseteq> cpus_of a \<longrightarrow> sa s"
    using assms by (simp_all add: ready_node_def)
  from tree_node_ok [OF D(1-3) assms(3) this(1) T this(2)]
  show "node_ok P a (share mach opts P q) (env_of fs sa)" "nat (max 1 (share mach opts P q)) = card (last_cpus mach opts P q) div card P"
    by (simp_all add: share_def assms(4))
qed


section \<open>Joining\<close>

lemma collecting_start: "ready_node mach opts fs sa P \<Longrightarrow> collecting mach P {} {} (node_start P)"
  using ready_nodeD(3) [of mach opts fs sa P] by (auto simp: collecting_def joined_so_far_def node_start_def)

lemma collectingD:
  assumes "collecting mach P J E N"
  shows "E \<subseteq> J" "J \<subset> P" "p \<notin> P \<Longrightarrow> proc N p = No_process" "p \<in> P - J \<Longrightarrow> proc N p = Not_started \<or> proc N p = Opened 0"
    "p \<in> J - E \<Longrightarrow> proc N p = Ready 0" "wakeups N 0 = {}"
    "named N = Some 0 \<or> named N = None \<and> J = {} \<and> (\<forall>p \<in> P. proc N p = Not_started) \<and> fresh_object N = 0"
    "J = {} \<Longrightarrow> objects N 0 = None"
    "J \<noteq> {} \<Longrightarrow> \<exists>pe w. objects N 0 = Some pe \<and> gathered (card P) E w (cpus_available pe) 0 pe \<and>
        nr_processes_left_in_init pe = int (card P) - int (card J) \<and>
        wf_cpus (cpus_available pe) \<and> cpus_of (cpus_available pe) = (\<Union>p\<in>J. own_cpus (mach p)) \<and>
        (\<forall>p \<in> E. proc N p = Sleeps 0 (int (w p)))"
  using assms unfolding collecting_def joined_so_far_def by simp_all

lemma collecting_sleeps:
  assumes "collecting mach P J E N" "p \<in> E"
  shows "\<exists>i. proc N p = Sleeps 0 i"
proof -
  have "J \<noteq> {}" using assms collectingD(1) by blast
  from collectingD(9) [OF assms(1) this] show ?thesis using assms(2) by blast
qed

lemma collecting_opened:
  assumes "collecting mach P J E N" "proc N p = Opened ob"
  shows "p \<in> P - J \<and> ob = 0"
proof -
  note D = collectingD [OF assms(1)]
  have "p \<in> P" using D(3) assms(2) by (cases "p \<in> P") auto
  moreover have "p \<notin> J"
  proof
    assume "p \<in> J"
    then show False using collecting_sleeps [OF assms(1), of p] D(5) [of p] assms(2) by (cases "p \<in> E") auto
  qed
  ultimately show ?thesis using D(4) [of p] assms(2) by auto
qed

lemma gathered_attach:
  assumes "gathered n E w b k pe"
  shows "gathered n E w s k (pe\<lparr>cpus_available := s, nr_processes_left_in_init := j\<rparr>)"
    "gathered n E w s k' (pe\<lparr>cpus_available := s, nr_processes_left_in_init := j, cpus_to_assign := k'\<rparr>)"
  using assms by (simp_all add: gathered_def laid_def)

lemma gathered_init: "gathered n {} w a 0 ((initial_pe a 0)\<lparr>nr_processes_left_in_init := j\<rparr>)"
  by (auto simp: initial_pe_def gathered_def laid_def MAX_PROCESSES_def empty_slot_def)

lemma working_facts:
  assumes "working m" "affinity m = Some a"
  shows "wf_cpus a" "configured m \<le> 1024" "own_cpus m = cpus_of a"
    "join_locked m l a seg = (case seg of None \<Rightarrow> Some (Some (init_shm (ppn l) a), True)
       | Some pe \<Rightarrow> map_option (\<lambda>pe. (Some pe, True)) (attach_shm m (ppn l) (cpus_excluded l) a pe))"
proof -
  show "wf_cpus a" "configured m \<le> 1024" "own_cpus m = cpus_of a" using assms by (auto simp: working_def own_cpus_def)
  show "join_locked m l a seg = (case seg of None \<Rightarrow> Some (Some (init_shm (ppn l) a), True)
       | Some pe \<Rightarrow> map_option (\<lambda>pe. (Some pe, True)) (attach_shm m (ppn l) (cpus_excluded l) a pe))"
  proof (cases seg)
    case (Some pe)
    then show ?thesis using assms(1)
      by (cases "attach_shm m (ppn l) (cpus_excluded l) a pe") (simp_all add: working_def join_locked_def)
  qed (use assms(1) in \<open>simp add: working_def join_locked_def\<close>)
qed

lemma join_result:
  assumes R: "ready_node mach opts fs sa P" and c: "collecting mach P J E N" and p: "proc N p = Opened 0"
    and a: "affinity (mach p) = Some a"
  shows "\<exists>pe w. join_locked (mach p) (opts p) a (objects N 0) = Some (Some pe, True) \<and> wf_cpus (cpus_available pe) \<and>
    gathered (card P) E w (cpus_available pe) (cpus_to_assign pe) pe \<and> (\<forall>p \<in> E. proc N p = Sleeps 0 (int (w p))) \<and>
    (if insert p J = P then cpus_of (cpus_available pe) = last_cpus mach opts P p \<and> cpus_to_assign pe = share mach opts P p
     else cpus_of (cpus_available pe) = (\<Union>q\<in>insert p J. own_cpus (mach q)) \<and> cpus_to_assign pe = 0 \<and>
       nr_processes_left_in_init pe = int (card P) - int (card (insert p J)))"
proof -
  note D = collectingD [OF c] and RD = ready_nodeD [OF R]
  have pJ: "p \<in> P" "p \<notin> J" using collecting_opened [OF c p] by auto
  note W = working_facts [OF RD(4) [OF pJ(1)] a] and RP = RD(4-9) [OF pJ(1)]
  have finJ: "finite J" using D(2) RD(1) finite_subset by blast
  have cJ: "card (insert p J) = Suc (card J)" using finJ pJ(2) by simp
  have all: "insert p J = P \<longleftrightarrow> Suc (card J) = card P"
    using cJ D(2) pJ(1) RD(1) by (metis card_subset_eq insert_subset psubset_imp_subset)
  show ?thesis
  proof (cases "J = {}")
    case True
    then have "E = {}" "insert p J \<noteq> P" using D(1) all RD(3) by auto
    moreover have "join_locked (mach p) (opts p) a (objects N 0) = Some (Some ((initial_pe a 0)\<lparr>nr_processes_left_in_init := int (card P) - 1\<rparr>), True)"
      using W(4) D(8) [OF True] RP(4) by (simp add: init_shm_eq)
    moreover have "cpus_available (initial_pe a 0) = a" "cpus_to_assign (initial_pe a 0) = 0" by (simp_all add: initial_pe_def)
    ultimately show ?thesis using W(1,3) gathered_init [of "card P" "\<lambda>_. 0" a] cJ True by auto
  next
    case False
    then obtain pe w where pe: "objects N 0 = Some pe" "gathered (card P) E w (cpus_available pe) 0 pe"
        "nr_processes_left_in_init pe = int (card P) - int (card J)" "wf_cpus (cpus_available pe)"
        "cpus_of (cpus_available pe) = (\<Union>p\<in>J. own_cpus (mach p))" "\<forall>p \<in> E. proc N p = Sleeps 0 (int (w p))"
      using D(9) by blast
    have own: "cpus_of a \<inter> {..<configured (mach p)} = own_cpus (mach p)" using W(3) RP(2,3) by auto
    show ?thesis
    proof (cases "insert p J = P")
      case True
      then have left: "nr_processes_left_in_init pe = 1" using all pe(3) by linarith
      obtain s where s: "attach_shm (mach p) (int (card P)) (cpus_excluded (opts p)) a pe =
          Some (pe\<lparr>cpus_available := s, nr_processes_left_in_init := 0, cpus_to_assign := int (card (cpus_of s)) div int (card P)\<rparr>)" "wf_cpus s"
          "cpus_of s = (cpus_of (cpus_available pe) \<union> (cpus_of a \<inter> {..<configured (mach p)}) \<union>
             {c. c < configured (mach p) \<and> c \<notin> cpus_of (cpus_excluded (opts p)) \<and> can_run (mach p) c})
             - (cpus_of (cpus_excluded (opts p)) \<inter> {..<configured (mach p)})"
        using attach_last [OF W(1,2) pe(4) left RP(5)] by blast
      have ex: "cpus_of (cpus_excluded (opts p)) \<inter> {..<configured (mach p)} = cpus_of (cpus_excluded (opts p))" using RP(2,6) by auto
      have "(\<Union>p\<in>P. own_cpus (mach p)) = (\<Union>p\<in>J. own_cpus (mach p)) \<union> own_cpus (mach p)" using True by blast
      then have "cpus_of s = last_cpus mach opts P p" unfolding s(3) ex own pe(5) last_cpus_def by blast
      then show ?thesis using s(1,2) W(4) pe(1,2,6) RP(4) True gathered_attach(2) [OF pe(2)]
        by (intro exI [of _ "pe\<lparr>cpus_available := s, nr_processes_left_in_init := 0, cpus_to_assign := int (card (cpus_of s)) div int (card P)\<rparr>"] exI [of _ w])
          (simp add: share_def zdiv_int)
    next
      case False
      then have left: "nr_processes_left_in_init pe \<noteq> 1" using all pe(3) by linarith
      have k: "cpus_to_assign pe = 0" using pe(2) by (simp add: gathered_def)
      obtain s where s: "attach_shm (mach p) (int (card P)) (cpus_excluded (opts p)) a pe =
          Some (pe\<lparr>cpus_available := s, nr_processes_left_in_init := nr_processes_left_in_init pe - 1\<rparr>)" "wf_cpus s"
          "cpus_of s = cpus_of (cpus_available pe) \<union> (cpus_of a \<inter> {..<configured (mach p)})"
        using attach_more [OF W(1,2) pe(4) left] by blast
      have "cpus_of s = (\<Union>q\<in>insert p J. own_cpus (mach q))" unfolding s(3) own pe(5) by blast
      then show ?thesis using s(1,2) W(4) pe(1,3,6) RP(4) False k cJ gathered_attach(1) [OF pe(2)]
        by (intro exI [of _ "pe\<lparr>cpus_available := s, nr_processes_left_in_init := nr_processes_left_in_init pe - 1\<rparr>"] exI [of _ w]) simp
    qed
  qed
qed


lemma collecting_joined:
  assumes R: "ready_node mach opts fs sa P" and c: "collecting mach P J E N" and p: "proc N p = Opened 0"
    and a: "affinity (mach p) = Some a" and j: "join_locked (mach p) (opts p) a (objects N 0) = Some (seg, on)"
    and N': "N' = N\<lparr>objects := (objects N)(0 := seg), proc := (proc N)(p := Ready 0)\<rparr>"
  shows "on \<and> (collecting mach P (insert p J) E N' \<or> running mach opts P (Gather E) N')"
proof -
  note D = collectingD [OF c] and RD = ready_nodeD [OF R]
  have pJ: "p \<in> P" "p \<notin> J" using collecting_opened [OF c p] by auto
  have pE: "p \<notin> E" using pJ(2) D(1) by blast
  obtain pe w where pe: "seg = Some pe" "on" "wf_cpus (cpus_available pe)"
      "gathered (card P) E w (cpus_available pe) (cpus_to_assign pe) pe" "\<forall>p \<in> E. proc N p = Sleeps 0 (int (w p))"
      "if insert p J = P then cpus_of (cpus_available pe) = last_cpus mach opts P p \<and> cpus_to_assign pe = share mach opts P p
       else cpus_of (cpus_available pe) = (\<Union>q\<in>insert p J. own_cpus (mach q)) \<and> cpus_to_assign pe = 0 \<and>
         nr_processes_left_in_init pe = int (card P) - int (card (insert p J))"
    using join_result [OF R c p a] j by auto
  have named: "named N = Some 0" using D(7) p pJ(1) by auto
  have sl: "proc N' q = Sleeps 0 (int (w q))" if "q \<in> E" for q using that pe(5) pE by (auto simp: N')
  have out: "proc N' q = No_process" if "q \<notin> P" for q using that D(3) pJ(1) by (auto simp: N')
  have rdy: "proc N' q = Ready 0" if "q \<in> insert p J - E" for q using that D(5) by (auto simp: N')
  show ?thesis
  proof (cases "insert p J = P")
    case False
    then have "insert p J \<subset> P" using D(2) pJ(1) by blast
    moreover have "proc N' q = Not_started \<or> proc N' q = Opened 0" if "q \<in> P - insert p J" for q
      using that D(4) [of q] by (simp add: N')
    ultimately have "collecting mach P (insert p J) E N'"
      unfolding collecting_def joined_so_far_def using out rdy sl pe(1,3,4,6) named D(1,6) False by (auto simp: N' intro!: exI [of _ w])
    then show ?thesis using pe(2) by blast
  next
    case True
    have E: "E \<subseteq> P" "E \<noteq> P" using D(1,2) by blast+
    have st: "status_in 0 (proc N' q) = (if q \<in> E then Waiting (int (w q)) else if q \<in> P then Not_entered else Absent)" for q
      using sl [of q] rdy [of q] out [of q] True E(1) by auto
    have k: "cpus_of (cpus_available pe) = last_cpus mach opts P p" "cpus_to_assign pe = share mach opts P p" using pe(6) True by simp_all
    have g: "gathered (card P) E w (cpus_available pe) (share mach opts P p) pe" using pe(4) k(2) by simp
    have "represents P (cpus_available pe) (share mach opts P p) (view 0 pe N') (Gather E)"
      unfolding represents.simps view_sel st using E D(6) g by (auto simp: N' intro!: exI [of _ w])
    moreover have "objects N' 0 = Some pe" by (simp add: N' pe(1))
    ultimately have "\<exists>q \<in> P. \<exists>pe avail. objects N' 0 = Some pe \<and> wf_cpus avail \<and> cpus_of avail = last_cpus mach opts P q \<and>
        represents P avail (share mach opts P q) (view 0 pe N') (Gather E)" using pJ(1) pe(3) k(1) by blast
    moreover have "status_in 0 (proc N' q) \<noteq> Absent" if "q \<in> P" for q using st that by simp
    moreover have "proc N' q \<noteq> Done 0 r" for q r using st [of q] by (auto split: if_splits)
    ultimately have "running mach opts P (Gather E) N'" unfolding running_def using out by blast
    then show ?thesis using pe(2) by blast
  qed
qed

lemma collecting_open:
  assumes R: "ready_node mach opts fs sa P" and c: "collecting mach P J E N" and "node_step mach opts env N (Open p) N'"
  shows "collecting mach P J E N'"
proof -
  note D = collectingD [OF c] and RD = ready_nodeD [OF R]
  have p: "proc N p = Not_started" using assms(3) by (auto elim: node_step_OpenE)
  then have "p \<in> P" using D(3) [of p] by (cases "p \<in> P") auto
  then have ok: "shm_open_ok (mach p)" using RD(4) by (simp add: working_def)
  have pJ: "p \<notin> J"
  proof
    assume "p \<in> J"
    then show False using collecting_sleeps [OF c, of p] D(5) [of p] p by (cases "p \<in> E") auto
  qed
  from assms(3) show ?thesis
  proof (rule node_step_OpenE)
    fix ob assume N: "N' = N\<lparr>proc := (proc N)(p := Opened ob)\<rparr>" "named N = Some ob"
    then have "ob = 0" using D(7) by auto
    moreover have same: "((proc N)(p := Opened 0)) q = proc N q" if "q \<in> E" for q using that D(1) pJ by auto
    have "joined_so_far mach P J E (objects N 0) ((proc N)(p := Opened 0))"
      using c joined_so_far_cong [of E "(proc N)(p := Opened 0)" "proc N", OF same] unfolding collecting_def by blast
    ultimately show ?thesis using D(1-7) pJ N \<open>p \<in> P\<close> unfolding collecting_def by auto
  next
    let ?ob = "fresh_object N"
    assume N: "N' = N\<lparr>named := Some ?ob, objects := (objects N)(?ob := None), wakeups := (wakeups N)(?ob := {}), fresh_object := Suc ?ob,
          proc := (proc N)(p := Opened ?ob)\<rparr>" "named N = None"
    then have "?ob = 0" "J = {}" using D(7) by auto
    then show ?thesis using D(1-7) \<open>p \<in> P\<close> N unfolding collecting_def joined_so_far_def by auto
  qed (use ok in simp)
qed


lemma ready_node_small:
  assumes "ready_node mach opts fs sa P"
  shows "card P \<le> MAX_PROCESSES"
proof -
  note D = ready_nodeD [OF assms]
  obtain q where q: "q \<in> P" using D(3) by fastforce
  obtain S F Nf where "tree fs S F Nf" using assms by (auto simp: ready_node_def)
  then have "nprocs fs \<le> 1024" by (simp add: tree_def wf_sysfs_def)
  moreover have "last_cpus mach opts P q \<subseteq> {..<nprocs fs}" using D(5) [OF q] D(6) by (fastforce simp: last_cpus_def)
  from card_mono [OF _ this] have "card (last_cpus mach opts P q) \<le> nprocs fs" by simp
  moreover have "card P \<le> card (last_cpus mach opts P q)" using assms q by (simp add: ready_node_def)
  ultimately show ?thesis by (simp add: MAX_PROCESSES_def)
qed

lemma collecting_pin:
  assumes R: "ready_node mach opts fs sa P" and c: "collecting mach P J E N" and l: "calm_label l"
    and "objects N ob = Some pe" and st: "step env (\<lambda>p. launch.ppn (opts p)) (view ob pe N) l c'"
  shows "\<exists>p. collecting mach P J (insert p E) (after_pin ob (actor l) c' N)"
proof -
  note D = collectingD [OF c] and RD = ready_nodeD [OF R]
  have in0: "o1 = 0" if "proc N p = Ready o1 \<or> proc N p = Sleeps o1 i" for p o1 i
    using that collecting_sleeps [OF c, of p] D(3-5) [of p] by (cases "p \<in> P"; cases "p \<in> J"; cases "p \<in> E") auto
  have ob: "ob = 0" using step_actor [OF st] in0 [of "actor l" ob] by auto
  have "\<exists>p. l = Enter p"
  proof (cases l)
    case (Wake p)
    then show ?thesis using st D(6) ob by (auto elim!: step_WakeE)
  qed (use l in auto)
  then obtain p where p: "l = Enter p" by blast
  have ne: "status (view 0 pe N) p = Not_entered" using st ob p by (auto elim!: step_EnterE)
  then have rp: "proc N p = Ready 0" by simp
  have pJ: "p \<in> J" "p \<notin> E" using rp D(3,4) [of p] collecting_sleeps [OF c, of p] by auto
  have J: "J \<noteq> {}" using pJ by blast
  then obtain w where pe: "gathered (card P) E w (cpus_available pe) 0 pe" "nr_processes_left_in_init pe = int (card P) - int (card J)"
      "wf_cpus (cpus_available pe)" "cpus_of (cpus_available pe) = (\<Union>p\<in>J. own_cpus (mach p))" "\<forall>p \<in> E. proc N p = Sleeps 0 (int (w p))"
    using D(9) assms(4) ob by auto
  have fin: "finite E" "finite J" using D(1,2) RD(1) by (meson finite_subset psubset_imp_subset)+
  have "card (insert p E) \<le> card J" "card J < card P" using pJ(1) D(1,2) fin(2) RD(1) by (auto intro: card_mono psubset_card_mono)
  then have small: "Suc (card E) < card P" using fin(1) pJ(2) by simp
  have n: "launch.ppn (opts p) = int (card P)" "card P \<le> MAX_PROCESSES" "0 \<notin> E"
    using RD(2,7) ready_node_small [OF R] pJ(1) D(1,2) by auto
  have cE: "card E < card P" using small by simp
  obtain s pe' where en: "pin_enter pe p (int (card P)) = Some (pe', [], Waits (int s))" "gathered (card P) (insert p E) (w(p := s)) (cpus_available pe) 0 pe'"
    using pin_enter_gathered [OF pe(1) fin(1) pJ(2) cE n(2,3)] small by auto
  have c': "c' = (view 0 pe N)\<lparr>shm := pe', status := (status (view 0 pe N))(p := Waiting (int s)), signalled := signalled (view 0 pe N) \<union> set []\<rparr>"
    using st en(1) n(1) unfolding ob p by (auto elim!: step_EnterE)
  have sel: "shm c' = pe'" "status c' p = Waiting (int s)" "signalled c' = {}" using c' D(6) by simp_all
  have g: "gathered (card P) (insert p E) (w(p := s)) (cpus_available pe') 0 pe'" "cpus_available pe' = cpus_available pe"
    using en(2) by (simp_all add: gathered_def)
  have "joined_so_far mach P J (insert p E) (Some pe') ((proc N)(p := Sleeps 0 (int s)))"
    unfolding joined_so_far_def using J g pe(2-5) pin_enter_left_in_init [OF en(1)] pJ(2) by (auto intro!: exI [of _ "w(p := s)"])
  moreover have "((proc N)(p := Sleeps 0 (int s))) q = proc N q" if "q \<notin> J" for q using that pJ by auto
  ultimately have "collecting mach P J (insert p E) (after_pin ob (actor l) c' N)"
    unfolding collecting_def after_pin_def ob p using D(1-7) pJ sel by auto
  then show ?thesis by blast
qed


section \<open>Running\<close>

lemma step_other_ppn:
  assumes "step env f c l c'" "g (actor l) = f (actor l)"
  shows "step env g c l c'"
  using assms(1)
proof cases
  case enter_refused
  then show ?thesis using assms(2) by (simp add: step.enter_refused)
next
  case enter_waits
  then show ?thesis using assms(2) by (simp add: step.enter_waits)
next
  case enter_proceeds
  then show ?thesis using assms(2) by (simp add: step.enter_proceeds)
qed (simp_all add: step.wake step.spurious step.timed_out)

lemma view_after:
  assumes "step env f (view ob pe N) l c'"
  shows "view ob (shm c') (after_pin ob (actor l) c' N) = c'"
proof -
  have "status_in ob (proc (after_pin ob (actor l) c' N) q) = status c' q" for q
  proof (cases "q = actor l")
    case True
    then show ?thesis using step_actor [OF assms] by (auto simp: after_pin_def)
  next
    case False
    then show ?thesis using step_actor_status(2) [OF assms, of q] by (simp add: after_pin_def)
  qed
  then show ?thesis by (simp add: view_def after_pin_def)
qed

lemma runningD:
  assumes "running mach opts P ph N"
  shows "\<exists>q \<in> P. \<exists>pe avail. objects N 0 = Some pe \<and> wf_cpus avail \<and> cpus_of avail = last_cpus mach opts P q \<and>
      represents P avail (share mach opts P q) (view 0 pe N) ph"
    "p \<notin> P \<Longrightarrow> proc N p = No_process" "p \<in> P \<Longrightarrow> status_in 0 (proc N p) \<noteq> Absent" "proc N p = Done 0 r \<Longrightarrow> named N = None"
  using assms unfolding running_def by blast+

lemma represents_step:
  assumes "node_ok P avail k env" "represents P avail k c ph" "calm env (\<lambda>_. int (card P)) c c'"
  shows "\<exists>ph'. represents P avail k c' ph'"
  using simulate_gather [OF assms(1)] simulate_drain [OF assms(1)] assms(2,3) by (cases ph) blast+

lemma running_actor:
  assumes "running mach opts P ph N" "step env f (view ob pe N) l c'"
  shows "actor l \<in> P" "ob = 0"
proof -
  have s: "proc N (actor l) = Ready ob \<or> (\<exists>i. proc N (actor l) = Sleeps ob i)" using step_actor [OF assms(2)] by auto
  then show "actor l \<in> P" using runningD(2) [OF assms(1), of "actor l"] by (cases "actor l \<in> P") auto
  from runningD(3) [OF assms(1) this] s show "ob = 0" by (auto split: if_splits)
qed

lemma running_pin:
  assumes R: "ready_node mach opts fs sa P" and r: "running mach opts P ph N" and l: "calm_label l"
    and ob: "objects N ob = Some pe" and st: "step (env_of fs sa) (\<lambda>p. launch.ppn (opts p)) (view ob pe N) l c'"
  shows "\<exists>ph'. running mach opts P ph' (after_pin ob (actor l) c' N)"
proof -
  note A = running_actor [OF r st]
  obtain q avail where q: "q \<in> P" "wf_cpus avail" "cpus_of avail = last_cpus mach opts P q"
      "represents P avail (share mach opts P q) (view 0 pe N) ph"
    using runningD(1) [OF r] ob A(2) by auto
  have "step (env_of fs sa) (\<lambda>_. int (card P)) (view ob pe N) l c'"
    by (rule step_other_ppn [OF st]) (use ready_nodeD(7) [OF R A(1)] in simp)
  then have cm: "calm (env_of fs sa) (\<lambda>_. int (card P)) (view 0 pe N) c'" using l A(2) unfolding calm_def by blast
  obtain ph' where ph': "represents P avail (share mach opts P q) c' ph'"
    using represents_step [OF ready_node_ok(1) [OF R q(1-3)] q(4) cm] by blast
  let ?N = "after_pin ob (actor l) c' N"
  have "objects ?N 0 = Some (shm c')" "named ?N = named N" using A(2) by (simp_all add: after_pin_def)
  moreover have "view 0 (shm c') ?N = c'" using view_after [OF st] A(2) by simp
  moreover have "proc ?N p = No_process" if "p \<notin> P" for p using that A(1) runningD(2) [OF r] by (auto simp: after_pin_def)
  moreover have new: "proc ?N (actor l) = proc_of 0 (status c' (actor l))" "\<And>p. p \<noteq> actor l \<Longrightarrow> proc ?N p = proc N p"
    using A(2) by (simp_all add: after_pin_def)
  have "status_in 0 (proc ?N p) \<noteq> Absent" if "p \<in> P" for p
    using new runningD(3) [OF r that] step_actor [OF st] by (cases "p = actor l") auto
  moreover have "named N = None" if "proc ?N p = Done 0 x" for p x
    using new that runningD(4) [OF r, of p x] step_actor [OF st] by (cases "p = actor l") auto
  ultimately have "running mach opts P ph' ?N" using q(1-3) ph' unfolding running_def by metis
  then show ?thesis by blast
qed

lemma running_unlink:
  assumes r: "running mach opts P ph N" and p: "proc N p = Pinned ob x"
  shows "running mach opts P ph (N\<lparr>named := None, proc := (proc N)(p := Done ob x)\<rparr>)"
proof -
  let ?N = "N\<lparr>named := None, proc := (proc N)(p := Done ob x)\<rparr>"
  have same: "status_in o1 (proc ?N q) = status_in o1 (proc N q)" for o1 q using p by simp
  have "p \<in> P" using runningD(2) [OF r, of p] p by auto
  moreover have "view 0 pe ?N = view 0 pe N" for pe using same unfolding view_def by simp
  ultimately show ?thesis using runningD(1-3) [OF r] same unfolding running_def by auto
qed

lemma running_started:
  assumes "running mach opts P ph N"
  shows "proc N p \<noteq> Not_started" "proc N p \<noteq> Opened ob"
  using runningD(2,3) [OF assms, of p] by (cases "p \<in> P"; auto)+

lemma collecting_not_pinned:
  assumes "collecting mach P J E N"
  shows "proc N p \<noteq> Pinned ob r"
  using collectingD(3-5) [OF assms, of p] collecting_sleeps [OF assms, of p] by (cases "p \<in> P"; cases "p \<in> J"; cases "p \<in> E") auto

definition node_inv :: "(int \<Rightarrow> machine) \<Rightarrow> (int \<Rightarrow> launch) \<Rightarrow> int set \<Rightarrow> node_state \<Rightarrow> bool" where
  "node_inv mach opts P N \<longleftrightarrow> (\<exists>J E. collecting mach P J E N) \<or> (\<exists>ph. running mach opts P ph N)"

lemma node_inv_step:
  assumes R: "ready_node mach opts fs sa P" and inv: "node_inv mach opts P N" and st: "calm_node mach opts (env_of fs sa) N N'"
  shows "node_inv mach opts P N'"
proof -
  obtain l where l: "calm_node_label l" "node_step mach opts (env_of fs sa) N l N'" using st by (auto simp: calm_node_def)
  from inv show ?thesis unfolding node_inv_def
  proof (elim disjE exE)
    fix J E assume c: "collecting mach P J E N"
    show "(\<exists>J E. collecting mach P J E N') \<or> (\<exists>ph. running mach opts P ph N')"
    proof (cases l)
      case (Open p)
      then show ?thesis using collecting_open [OF R c] l(2) by blast
    next
      case (Join p)
      from l(2) [unfolded Join] obtain ob a seg on where j: "proc N p = Opened ob" "affinity (mach p) = Some a"
          "join_locked (mach p) (opts p) a (objects N ob) = Some (seg, on)"
          "on \<Longrightarrow> N' = N\<lparr>objects := (objects N)(ob := seg), proc := (proc N)(p := Ready ob)\<rparr>"
        by (elim node_step_JoinE) auto
      have "ob = 0" using collecting_opened [OF c j(1)] by simp
      then show ?thesis using collecting_joined [OF R c _ j(2), of seg on] j by blast
    next
      case (Pin l')
      then obtain ob pe c' where "objects N ob = Some pe" "step (env_of fs sa) (\<lambda>p. launch.ppn (opts p)) (view ob pe N) l' c'"
          "N' = after_pin ob (actor l') c' N" "calm_label l'"
        using l by (auto elim: node_step_PinE)
      then show ?thesis using collecting_pin [OF R c] by blast
    next
      case (Unlink p)
      then show ?thesis using l(2) collecting_not_pinned [OF c] by (auto elim: node_step_UnlinkE)
    qed
  next
    fix ph assume r: "running mach opts P ph N"
    show "(\<exists>J E. collecting mach P J E N') \<or> (\<exists>ph. running mach opts P ph N')"
    proof (cases l)
      case (Pin l')
      then obtain ob pe c' where "objects N ob = Some pe" "step (env_of fs sa) (\<lambda>p. launch.ppn (opts p)) (view ob pe N) l' c'"
          "N' = after_pin ob (actor l') c' N" "calm_label l'"
        using l by (auto elim: node_step_PinE)
      then show ?thesis using running_pin [OF R r] by blast
    next
      case (Unlink p)
      from l(2) [unfolded Unlink] obtain ob x where "proc N p = Pinned ob x" "N' = N\<lparr>named := None, proc := (proc N)(p := Done ob x)\<rparr>"
        by (elim node_step_UnlinkE) auto
      then show ?thesis using running_unlink [OF r] by blast
    qed (use l(2) running_started [OF r] in \<open>auto elim: node_step_OpenE node_step_JoinE\<close>)
  qed
qed


interpretation node_run: kept_invariant
  "\<lambda>(mach, opts, fs, sa, P). ready_node mach opts fs sa P" "\<lambda>(mach, opts, fs, sa, P) N. N = node_start P"
  "\<lambda>(mach, opts, fs, sa, P). calm_node mach opts (env_of fs sa)" "\<lambda>(mach, opts, fs, sa, P). node_inv mach opts P"
proof (unfold_locales, goal_cases)
  case (1 e c)
  then show ?case by (cases e) (auto simp: node_inv_def dest: collecting_start)
next
  case (2 e c c')
  then show ?case by (cases e) (auto intro: node_inv_step)
qed

section \<open>Where a run stops\<close>

lemma collecting_progress:
  assumes R: "ready_node mach opts fs sa P" and c: "collecting mach P J E N"
  shows "\<exists>N'. calm_node mach opts env N N'"
proof -
  note D = collectingD [OF c]
  obtain p where p: "p \<in> P" "p \<notin> J" using D(2) by blast
  obtain a where a: "affinity (mach p) = Some a" "shm_open_ok (mach p)" using ready_nodeD(4) [OF R p(1)] by (auto simp: working_def)
  have "\<exists>l N'. calm_node_label l \<and> node_step mach opts env N l N'"
  proof (cases "proc N p = Not_started")
    case True
    have aff: "affinity (mach p) \<noteq> None" using a(1) by simp
    have "\<exists>N'. node_step mach opts env N (Open p) N'"
    proof (cases "named N")
      case None
      show ?thesis by (rule exI, rule node_step.creates [where ob = "fresh_object N"]) (use True aff a(2) None in simp_all)
    next
      case (Some ob)
      show ?thesis by (rule exI, rule node_step.opens) (use True aff a(2) Some in simp_all)
    qed
    then show ?thesis using calm_node_label.simps(2) by blast
  next
    case False
    then have o: "proc N p = Opened 0" using D(4) [of p] p by simp
    obtain pe where j: "join_locked (mach p) (opts p) a (objects N 0) = Some (Some pe, True)" using join_result [OF R c o a(1)] by blast
    have "\<exists>N'. node_step mach opts env N (Join p) N'" by (rule exI, rule node_step.joins [where ob = 0]) (use o a(1) j in simp_all)
    then show ?thesis using calm_node_label.simps(3) by blast
  qed
  then show ?thesis unfolding calm_node_def by blast
qed

lemma running_stuck:
  assumes R: "ready_node mach opts fs sa P" and r: "running mach opts P ph N" and stuck: "\<nexists>N'. calm_node mach opts (env_of fs sa) N N'"
  shows "\<exists>q \<in> P. \<exists>pe. objects N 0 = Some pe \<and> named N = None \<and> (\<forall>r < card P. proc N (pids P ! r) = Done 0 (int r)) \<and>
    (\<forall>r s. r < s \<and> s < card P \<longrightarrow> cpus_of (affinities pe ! r) \<inter> cpus_of (affinities pe ! s) = {}) \<and>
    (\<forall>r < card P. cpus_of (affinities pe ! r) \<subseteq> last_cpus mach opts P q \<and>
       card (cpus_of (affinities pe ! r)) = card (last_cpus mach opts P q) div card P)"
proof -
  obtain q pe avail where q: "q \<in> P" "objects N 0 = Some pe" "wf_cpus avail" "cpus_of avail = last_cpus mach opts P q"
      "represents P avail (share mach opts P q) (view 0 pe N) ph"
    using runningD(1) [OF r] by blast
  note ok = ready_node_ok [OF R q(1,3,4)] and fin = ready_nodeD(1) [OF R]
  have "remaining (card P) ph = 0"
  proof (rule ccontr)
    assume "remaining (card P) ph \<noteq> 0"
    then obtain c' l where l: "calm_label l" "step (env_of fs sa) (\<lambda>_. int (card P)) (view 0 pe N) l c'"
      using progress [OF ok(1) q(5)] unfolding calm_def by blast
    have "step (env_of fs sa) (\<lambda>p. launch.ppn (opts p)) (view 0 pe N) l c'"
      by (rule step_other_ppn [OF l(2)]) (use ready_nodeD(7) [OF R running_actor(1) [OF r l(2)]] in simp)
    from node_step.pins [OF q(2) this] have "calm_node mach opts (env_of fs sa) N (after_pin 0 (actor l) c' N)"
      unfolding calm_node_def using l(1) by (intro exI [of _ "Pin l"]) simp
    then show False using stuck by blast
  qed
  then have rep: "represents P avail (share mach opts P q) (view 0 pe N) (Drain (card P))"
    using remaining_0 [OF q(5) fin] q(5) by simp
  then obtain w where t: "turn (pids P) w avail (share mach opts P q) (card P) pe" by auto
  have ranks: "proc N (pids P ! j) = Done 0 (int j)" if "j < card P" for j
  proof -
    have "status_in 0 (proc N (pids P ! j)) = Returned (int j)" using drain_status(2) [OF rep fin, of j] that by simp
    moreover have "proc N (pids P ! j) \<noteq> Pinned 0 (int j)"
    proof
      assume "proc N (pids P ! j) = Pinned 0 (int j)"
      from node_step.unlinks [OF this] have "\<exists>N'. calm_node mach opts (env_of fs sa) N N'"
        unfolding calm_node_def using calm_node_label.simps(4) by blast
      then show False using stuck by blast
    qed
    ultimately show ?thesis by (simp add: status_in_Returned)
  qed
  then have "named N = None" using runningD(4) [OF r ranks [of 0]] ready_nodeD(3) [OF R] by simp
  then show ?thesis using q(1,2) ranks drained_affinities [OF ok(1) t] unfolding q(4) ok(2) by blast
qed


lemma calm_nodeI: "node_step mach opts env N l N' \<Longrightarrow> calm_node_label l \<Longrightarrow> calm_node mach opts env N N'"
  unfolding calm_node_def by blast

lemma bounded_run_stops:
  assumes "\<And>m x. (R ^^ m) s x \<Longrightarrow> m \<le> (b :: nat)"
  shows "\<exists>x. R\<^sup>*\<^sup>* s x \<and> (\<nexists>y. R x y)"
proof -
  have "(R ^^ 0) s s" by simp
  then have "\<exists>m. (\<exists>x. (R ^^ m) s x) \<and> (\<forall>k. (\<exists>x. (R ^^ k) s x) \<longrightarrow> k \<le> m)"
    by (intro ex_has_greatest_nat [where k = 0 and b = "Suc b"]) (use assms in \<open>fastforce+\<close>)
  then obtain m where m: "\<exists>x. (R ^^ m) s x" "\<And>k. \<exists>x. (R ^^ k) s x \<Longrightarrow> k \<le> m" by blast
  then obtain x where x: "(R ^^ m) s x" by blast
  have "\<not> R x y" for y
  proof
    assume "R x y"
    then have "(R ^^ Suc m) s y" using x by auto
    then show False using m(2) [of "Suc m"] by force
  qed
  then show ?thesis using relpowp_imp_rtranclp [OF x] by blast
qed

text \<open>
  The processes open and join the shared memory, enter \<^verbatim>\<open>pin_process()\<close> and unlink the name in any order and overlapping; without
  timeouts and spurious wake-ups every run ends as follows.
\<close>

theorem node_run_pinned:
  assumes "ready_node mach opts fs sa P"
  shows "(\<forall>m N. (calm_node mach opts (env_of fs sa) ^^ m) (node_start P) N \<longrightarrow> m \<le> 5 * card P) \<and>
    (\<exists>N. (calm_node mach opts (env_of fs sa))\<^sup>*\<^sup>* (node_start P) N \<and> (\<nexists>N'. calm_node mach opts (env_of fs sa) N N')) \<and>
    (\<forall>N. (calm_node mach opts (env_of fs sa))\<^sup>*\<^sup>* (node_start P) N \<and> (\<nexists>N'. calm_node mach opts (env_of fs sa) N N') \<longrightarrow>
      (\<exists>q \<in> P. \<exists>pe. objects N 0 = Some pe \<and> named N = None \<and>
        (\<forall>r < card P. proc N (sorted_list_of_set P ! r) = Done 0 (int r)) \<and>
        (\<forall>r s. r < s \<and> s < card P \<longrightarrow> cpus_of (affinities pe ! r) \<inter> cpus_of (affinities pe ! s) = {}) \<and>
        (\<forall>r < card P. cpus_of (affinities pe ! r) \<subseteq> last_cpus mach opts P q \<and>
           card (cpus_of (affinities pe ! r)) = card (last_cpus mach opts P q) div card P)))"
proof (intro conjI allI impI, goal_cases)
  case (1 m N)
  then show ?case using node_steps_bound [OF ready_nodeD(1) [OF assms] 1] by simp
next
  case 2
  show ?case by (rule bounded_run_stops [where b = "5 * card P"]) (use node_steps_bound [OF ready_nodeD(1) [OF assms]] in fastforce)
next
  case (3 N)
  then have "node_inv mach opts P N" using node_run.always [of "(mach, opts, fs, sa, P)"] assms by simp
  then show ?case using collecting_progress [OF assms] running_stuck [OF assms] 3 unfolding node_inv_def by metis
qed


lemma main_finish_runs:
  assumes "0 \<le> r" "wf_cpus cpus" "length buf = 1024" "verbose l \<longrightarrow> length (list_text (runs_of cpus 1024)) < 1024"
  shows "main_finish l r buf (Some cpus) True args = Some (Runs args)"
proof (cases "verbose l")
  case True
  have "backed cpus 1024" using assms(2) by (simp add: wf_cpus_def)
  from scnlistprintf_fits [OF this, of 1024 buf] obtain b where "print_affinity buf cpus = Some b"
    using assms(3,4) True by (auto simp: print_affinity_def)
  then show ?thesis using assms(1) True by (simp add: main_finish_def)
qed (use assms(1) in \<open>simp add: main_finish_def\<close>)

text \<open>
  C1. From the command lines to the programs, however the processes of the node interleave: they open and join the shared memory,
  enter \<^verbatim>\<open>pin_process()\<close> and unlink the name in any order and overlapping. When \<^verbatim>\<open>main()\<close> accepts their command lines, every run
  without timeouts and spurious wake-ups ends, after at most five steps of each process, and without a name left behind; every process then
  has its position in PID order as its rank and a set of CPUs, disjoint from the others and of equal size, and it runs the
  program at the end of its command line, unless it has to print a list of CPUs that does not fit. The CPUs are those of all
  processes and those that the process \<open>q\<close> that joined last can run on, without the ones that \<open>q\<close> excludes.
\<close>

theorem node_runs_programs:
  assumes "ready_node mach opts fs sa P" "\<forall>p \<in> P. main_options (argv p) = Some (opts p, prog p)"
  shows "(\<forall>m N. (calm_node mach opts (env_of fs sa) ^^ m) (node_start P) N \<longrightarrow> m \<le> 5 * card P) \<and>
    (\<exists>N. (calm_node mach opts (env_of fs sa))\<^sup>*\<^sup>* (node_start P) N \<and> (\<nexists>N'. calm_node mach opts (env_of fs sa) N N')) \<and>
    (\<forall>N. (calm_node mach opts (env_of fs sa))\<^sup>*\<^sup>* (node_start P) N \<and> (\<nexists>N'. calm_node mach opts (env_of fs sa) N N') \<longrightarrow>
      (\<exists>q \<in> P. \<exists>pe. objects N 0 = Some pe \<and> named N = None \<and>
        (\<forall>r s. r < s \<and> s < card P \<longrightarrow> cpus_of (affinities pe ! r) \<inter> cpus_of (affinities pe ! s) = {}) \<and>
        (\<forall>r < card P. let p = sorted_list_of_set P ! r in
           proc N p = Done 0 (int r) \<and>
           cpus_of (affinities pe ! r) \<subseteq> last_cpus mach opts P q \<and>
           card (cpus_of (affinities pe ! r)) = card (last_cpus mach opts P q) div card P \<and>
           (\<exists>pre. argv p = pre @ prog p) \<and> prog p \<noteq> [] \<and>
           (\<forall>cpus buf. wf_cpus cpus \<and> cpus_of cpus = cpus_of (affinities pe ! r) \<and> length buf = 1024 \<and>
              (verbose (opts p) \<longrightarrow> length (list_text (runs_of cpus 1024)) < 1024) \<longrightarrow>
              main_finish (opts p) (int r) buf (Some cpus) True (prog p) = Some (Runs (prog p))))))"
proof (intro conjI allI impI, goal_cases)
  case (1 m N)
  then show ?case using node_run_pinned [OF assms(1)] by blast
next
  case 2
  then show ?case using node_run_pinned [OF assms(1)] by blast
next
  case (3 N)
  then obtain q pe where q: "q \<in> P" "objects N 0 = Some pe" "named N = None"
      "\<forall>r < card P. proc N (sorted_list_of_set P ! r) = Done 0 (int r)"
      "\<forall>r s. r < s \<and> s < card P \<longrightarrow> cpus_of (affinities pe ! r) \<inter> cpus_of (affinities pe ! s) = {}"
      "\<forall>r < card P. cpus_of (affinities pe ! r) \<subseteq> last_cpus mach opts P q \<and>
           card (cpus_of (affinities pe ! r)) = card (last_cpus mach opts P q) div card P"
    using node_run_pinned [OF assms(1), THEN conjunct2, THEN conjunct2, THEN spec, THEN mp, OF 3] by (elim bexE exE conjE) (rule that)
  have mem: "sorted_list_of_set P ! r \<in> P" if "r < card P" for r
    using that assms(1) nth_mem [of r "sorted_list_of_set P"] by (simp add: ready_node_def)
  have tail: "(\<exists>pre. argv p = pre @ prog p) \<and> prog p \<noteq> []" if "p \<in> P" for p
  proof -
    have "main_options (argv p) = Some (opts p, prog p)" using assms(2) that by blast
    then have "parse_options [] (argv p) \<lparr>ppn = 0, tpp = 0, cpus_excluded = CPU_ZERO, verbose = False\<rparr> = Some (opts p, prog p)" "prog p \<noteq> []"
      by (auto simp: main_options_def bind_eq_Some_conv split: if_splits)
    moreover have "wf_launch \<lparr>ppn = 0, tpp = 0, cpus_excluded = CPU_ZERO, verbose = False\<rparr>" by (simp add: wf_launch_def)
    ultimately show ?thesis using parse_options_sound by blast
  qed
  have "let p = sorted_list_of_set P ! r in
           proc N p = Done 0 (int r) \<and>
           cpus_of (affinities pe ! r) \<subseteq> last_cpus mach opts P q \<and>
           card (cpus_of (affinities pe ! r)) = card (last_cpus mach opts P q) div card P \<and>
           (\<exists>pre. argv p = pre @ prog p) \<and> prog p \<noteq> [] \<and>
           (\<forall>cpus buf. wf_cpus cpus \<and> cpus_of cpus = cpus_of (affinities pe ! r) \<and> length buf = 1024 \<and>
              (verbose (opts p) \<longrightarrow> length (list_text (runs_of cpus 1024)) < 1024) \<longrightarrow>
              main_finish (opts p) (int r) buf (Some cpus) True (prog p) = Some (Runs (prog p)))" if r: "r < card P" for r
    unfolding Let_def using q(4,6) r tail [OF mem [OF r]] main_finish_runs [of "int r"] by simp
  then show ?case using q(2,3,5) by (intro bexI [OF _ q(1)] exI [of _ pe]) (intro conjI; blast)
qed


section \<open>A process that comes too late\<close>

text \<open>
  C18. A process that starts when the name is gone, because another one has timed out or was refused, creates an object of its own:
  when all others have ended, its only run without timeouts leaves it waiting there for the others.
\<close>

theorem node_late_process:
  assumes "working (mach p)" "2 \<le> launch.ppn (opts p)" "launch.ppn (opts p) \<le> int MAX_PROCESSES" "p \<noteq> 0"
    and "named N = None" "proc N p = Not_started"
    and "\<forall>q. q \<noteq> p \<longrightarrow> proc N q = No_process \<or> proc N q = Failed \<or> (\<exists>ob r. proc N q = Done ob r)"
  shows "\<exists>N'. (calm_node mach opts env)\<^sup>*\<^sup>* N N' \<and> (\<nexists>N''. calm_node mach opts env N' N'') \<and>
      (\<exists>i. proc N' p = Sleeps (fresh_object N) i) \<and> (\<forall>q. q \<noteq> p \<longrightarrow> proc N' q = proc N q)"
proof -
  let ?ob = "fresh_object N" and ?n = "launch.ppn (opts p)"
  obtain a where a: "affinity (mach p) = Some a" "shm_open_ok (mach p)" using assms(1) by (auto simp: working_def)
  define N1 where "N1 = N\<lparr>named := Some ?ob, objects := (objects N)(?ob := None), wakeups := (wakeups N)(?ob := {}), fresh_object := Suc ?ob,
      proc := (proc N)(p := Opened ?ob)\<rparr>"
  have s1: "node_step mach opts env N (Open p) N1"
    unfolding N1_def by (rule node_step.creates) (use assms(5,6) a in simp_all)
  define N2 where "N2 = N1\<lparr>objects := (objects N1)(?ob := Some (init_shm ?n a)), proc := (proc N1)(p := Ready ?ob)\<rparr>"
  have "join_locked (mach p) (opts p) a (objects N1 ?ob) = Some (Some (init_shm ?n a), True)"
    using working_facts(4) [OF assms(1) a(1)] by (simp add: N1_def)
  then have s2: "node_step mach opts env N1 (Join p) N2"
    unfolding N2_def by (intro node_step.joins) (simp_all add: N1_def a)
  have n: "int (nat ?n) = ?n" "card {} < nat ?n" "nat ?n \<le> MAX_PROCESSES" "Suc (card {}) < nat ?n" using assms(2,3) by auto
  obtain s pe where en: "pin_enter (init_shm ?n a) p ?n = Some (pe, [], Waits (int s))"
    using pin_enter_gathered [OF gathered_init finite.emptyI _ n(2,3), of p "?n - 1" a "\<lambda>_. 0"] n assms(4)
    by (auto simp: init_shm_eq)
  let ?c = "view ?ob (init_shm ?n a) N2"
  define c where "c = ?c\<lparr>shm := pe, status := (status ?c)(p := Waiting (int s)), signalled := signalled ?c \<union> set []\<rparr>"
  have st: "step env (\<lambda>p. launch.ppn (opts p)) ?c (Enter p) c"
    unfolding c_def by (rule step.enter_waits) (simp_all add: N2_def en)
  define N3 where "N3 = after_pin ?ob (actor (Enter p)) c N2"
  have s3: "node_step mach opts env N2 (Pin (Enter p)) N3" unfolding N3_def by (rule node_step.pins [OF _ st]) (simp add: N2_def)
  have run: "(calm_node mach opts env)\<^sup>*\<^sup>* N N3"
    using calm_nodeI [OF s1] calm_nodeI [OF s2] calm_nodeI [OF s3]
    by (intro converse_rtranclp_into_rtranclp [of _ N N1] converse_rtranclp_into_rtranclp [of _ N1 N2] r_into_rtranclp) simp_all
  have p3: "proc N3 p = Sleeps ?ob (int s)" "wakeups N3 ?ob = {}" and others: "\<And>q. q \<noteq> p \<Longrightarrow> proc N3 q = proc N q"
    by (simp_all add: N3_def after_pin_def c_def N2_def N1_def)
  have "\<not> calm_node mach opts env N3 N'" for N'
  proof
    assume "calm_node mach opts env N3 N'"
    then obtain l where l: "calm_node_label l" "node_step mach opts env N3 l N'" by (auto simp: calm_node_def)
    have "node_actor l = p" using node_step_lowers [OF l(2)] others assms(7) by (metis not_less_zero steps_left.simps(6-8))
    then show False
    proof (cases l)
      case (Pin l')
      then obtain o1 pe1 c1 where c1: "step env (\<lambda>p. launch.ppn (opts p)) (view o1 pe1 N3) l' c1" "calm_label l'" "actor l' = p"
        using l \<open>node_actor l = p\<close> by (auto elim: node_step_PinE)
      then show False using p3 by (cases l') (auto elim!: step_EnterE step_WakeE split: if_splits)
    qed (use l(2) p3 \<open>node_actor l = p\<close> in \<open>auto elim: node_step_OpenE node_step_JoinE node_step_UnlinkE\<close>)
  qed
  then show ?thesis using run p3(1) others by blast
qed


section \<open>The concrete node\<close>

definition example_mach :: "int \<Rightarrow> machine" where
  "example_mach p = example_machine (if p = 101 then 0 else 1)"

lemma example_last_cpus: "last_cpus example_mach (\<lambda>_. example_launch) {101, 102} q = {0, 1}"
  by (auto simp: last_cpus_def own_cpus_def example_mach_def example_machine_def example_launch_def cpus_of_SET)

lemma example_ready_node: "ready_node example_mach (\<lambda>_. example_launch) example_fs (\<lambda>_. True) {101, 102}"
proof -
  have c: "card {101, 102 :: int} = 2" "nprocs example_fs = 2" "card {0, 1 :: nat} = 2" by (simp_all add: example_fs_def)
  have "\<exists>S F N. tree example_fs S F N \<and> {0, 1} \<subseteq> S" using example_tree by blast
  then show ?thesis unfolding ready_node_def example_last_cpus c
    by (simp add: working_def own_cpus_def example_mach_def example_machine_def example_launch_def cpus_of_SET) blast
qed

theorem node_run_pinned_witness:
  "\<exists>N pe. (calm_node example_mach (\<lambda>_. example_launch) (env_of example_fs (\<lambda>_. True)))\<^sup>*\<^sup>* (node_start {101, 102}) N \<and>
     named N = None \<and> objects N 0 = Some pe \<and> proc N 101 = Done 0 0 \<and> proc N 102 = Done 0 1 \<and>
     card (cpus_of (affinities pe ! 0)) = 1 \<and> card (cpus_of (affinities pe ! 1)) = 1"
proof -
  have s: "sorted_list_of_set {101, 102 :: int} = [101, 102]" "card {101, 102 :: int} = 2" "card {0, 1 :: nat} div 2 = 1" by simp_all
  note T = node_run_pinned [OF example_ready_node, unfolded example_last_cpus s]
  let ?R = "calm_node example_mach (\<lambda>_. example_launch) (env_of example_fs (\<lambda>_. True))"
  obtain N where N: "?R\<^sup>*\<^sup>* (node_start {101, 102}) N" "\<nexists>N'. ?R N N'" using T [THEN conjunct2, THEN conjunct1] by blast
  obtain pe where pe: "objects N 0 = Some pe" "named N = None" "\<forall>r < 2. proc N ([101, 102] ! r) = Done 0 (int r)"
      "\<forall>r < 2. cpus_of (affinities pe ! r) \<subseteq> {0, 1} \<and> card (cpus_of (affinities pe ! r)) = 1"
    using T [THEN conjunct2, THEN conjunct2, rule_format, OF conjI [OF N]] by blast
  show ?thesis using N(1) pe(1,2) pe(3) [rule_format, of 0] pe(3) [rule_format, of 1] pe(4)
    by (intro exI [of _ N] exI [of _ pe]) simp
qed

theorem node_runs_programs_witness:
  "\<exists>N pe cpus. (calm_node example_mach (\<lambda>_. example_launch) (env_of example_fs (\<lambda>_. True)))\<^sup>*\<^sup>* (node_start {101, 102}) N \<and>
     objects N 0 = Some pe \<and> proc N 102 = Done 0 1 \<and> cpus_of cpus = cpus_of (affinities pe ! 1) \<and> card (cpus_of cpus) = 1 \<and>
     main_finish example_launch 1 (replicate 1024 NUL) (Some cpus) True [''app''] = Some (Runs [''app''])"
proof -
  have d: "dec 2 = ''2''" by code_simp
  have i: "to_int 2 = 2" by (simp add: to_int_def signed_take_bit_def take_bit_eq_mod)
  have "main_options [''-p'', dec 2, ''app''] = Some (example_launch, [''app''])"
    using parse_short_p [of 2 "CHR ''p''"] parse_prog [of "''app''" "[]"]
    by (simp add: main_options_def i no_option_def MAX_PROCESSES_def example_launch_def)
  then have a: "\<forall>p \<in> {101, 102 :: int}. main_options [''-p'', ''2'', ''app''] = Some (example_launch, [''app''])" by (simp only: d) simp
  have s: "sorted_list_of_set {101, 102 :: int} = [101, 102]" "card {101, 102 :: int} = 2" "card {0, 1 :: nat} div 2 = 1" by simp_all
  note T = node_runs_programs [OF example_ready_node a, unfolded example_last_cpus s Let_def]
  let ?R = "calm_node example_mach (\<lambda>_. example_launch) (env_of example_fs (\<lambda>_. True))"
  obtain N where N: "?R\<^sup>*\<^sup>* (node_start {101, 102}) N" "\<nexists>N'. ?R N N'" using T [THEN conjunct2, THEN conjunct1] by blast
  from T [THEN conjunct2, THEN conjunct2, THEN spec, THEN mp, OF conjI [OF N]]
  obtain pe where pe: "objects N 0 = Some pe" and r: "\<forall>r < 2. proc N ([101, 102] ! r) = Done 0 (int r) \<and>
      cpus_of (affinities pe ! r) \<subseteq> {0, 1} \<and> card (cpus_of (affinities pe ! r)) = 1 \<and>
      (\<exists>pre. [''-p'', ''2'', ''app''] = pre @ [''app'']) \<and> [''app''] \<noteq> [] \<and>
      (\<forall>cpus buf. wf_cpus cpus \<and> cpus_of cpus = cpus_of (affinities pe ! r) \<and> length buf = 1024 \<and>
        (verbose example_launch \<longrightarrow> length (list_text (runs_of cpus 1024)) < 1024) \<longrightarrow>
        main_finish example_launch (int r) buf (Some cpus) True [''app''] = Some (Runs [''app'']))"
    by (elim bexE exE conjE) (rule that)
  have one: "cpus_of (affinities pe ! 1) \<subseteq> {0, 1}" "card (cpus_of (affinities pe ! 1)) = 1" "proc N 102 = Done 0 1"
    using r [rule_format, of 1] by simp_all
  then obtain c where c: "cpus_of (affinities pe ! 1) = {c}" "c \<in> {0, 1}" by (auto simp: card_1_singleton_iff)
  from c(2) have "c < 1024" by auto
  then have set: "wf_cpus (CPU_SET c CPU_ZERO)" "cpus_of (CPU_SET c CPU_ZERO) = {c}" by (simp_all add: cpus_of_SET)
  have "\<not> verbose example_launch" by (simp add: example_launch_def)
  then have "main_finish example_launch 1 (replicate 1024 NUL) (Some (CPU_SET c CPU_ZERO)) True [''app''] = Some (Runs [''app''])"
    using r [rule_format, of 1, THEN conjunct2, THEN conjunct2, THEN conjunct2, THEN conjunct2, THEN conjunct2, THEN spec, THEN spec, THEN mp,
        of "CPU_SET c CPU_ZERO" "replicate 1024 NUL"] set c(1) by simp
  then show ?thesis using N(1) pe one(3) set(2) c(1) by (intro exI [of _ N] exI [of _ pe] exI [of _ "CPU_SET c CPU_ZERO"]) simp
qed

text \<open>A node on which \<^verbatim>\<open>shm_open()\<close> fails for the process 101.\<close>

definition refusing_mach :: "int \<Rightarrow> machine" where
  "refusing_mach = example_mach(101 := (example_mach 101)\<lparr>shm_open_ok := False\<rparr>)"

theorem node_late_process_witness:
  "\<exists>N N' i. node_step refusing_mach (\<lambda>_. example_launch) (env_of example_fs (\<lambda>_. True)) (node_start {101, 102}) (Open 101) N \<and>
     (calm_node refusing_mach (\<lambda>_. example_launch) (env_of example_fs (\<lambda>_. True)))\<^sup>*\<^sup>* N N' \<and>
     proc N' 102 = Sleeps 0 i \<and> proc N' 101 = Failed"
proof -
  define N where "N = (node_start {101, 102})\<lparr>named := None, proc := (proc (node_start {101, 102}))(101 := Failed)\<rparr>"
  have m: "affinity (refusing_mach 101) \<noteq> None" "\<not> shm_open_ok (refusing_mach 101)"
    by (simp_all add: refusing_mach_def example_mach_def example_machine_def)
  have s: "node_step refusing_mach (\<lambda>_. example_launch) (env_of example_fs (\<lambda>_. True)) (node_start {101, 102}) (Open 101) N"
    unfolding N_def by (rule node_step.open_fails) (use m in \<open>simp_all add: node_start_def\<close>)
  have w: "working (refusing_mach 102)" "launch.ppn example_launch = 2"
    by (simp_all add: working_def refusing_mach_def example_mach_def example_machine_def example_launch_def)
  have o: "\<forall>q. q \<noteq> 102 \<longrightarrow> proc N q = No_process \<or> proc N q = Failed \<or> (\<exists>ob r. proc N q = Done ob r)" by (simp add: N_def node_start_def)
  have n: "named N = None" "proc N 102 = Not_started" "fresh_object N = 0" "proc N 101 = Failed" by (simp_all add: N_def node_start_def)
  have p: "2 \<le> launch.ppn example_launch" "launch.ppn example_launch \<le> int MAX_PROCESSES" "(102 :: int) \<noteq> 0" using w(2) by (simp_all add: MAX_PROCESSES_def)
  obtain N' i where N': "(calm_node refusing_mach (\<lambda>_. example_launch) (env_of example_fs (\<lambda>_. True)))\<^sup>*\<^sup>* N N'" "proc N' 102 = Sleeps (fresh_object N) i"
      "\<forall>q. q \<noteq> 102 \<longrightarrow> proc N' q = proc N q"
    using node_late_process [where mach = refusing_mach and p = 102 and N = N and opts = "\<lambda>_. example_launch" and env = "env_of example_fs (\<lambda>_. True)", OF w(1) p n(1,2) o] by blast
  then have "proc N' 101 = Failed" using n(4) by simp
  then show ?thesis using s N'(1,2) unfolding n(3) by blast
qed

end
