(* ===== verification/Node_Timing.thy ===== *)
theory Node_Timing
  imports Node "HOL-Library.Signed_Division"
begin

text \<open>
  The node of theory \<open>Node\<close> with a clock. A process that waits in \<^verbatim>\<open>pin_process()\<close> computes when it gives up from the time and
  the number of processes (lines 884 to 894 of \<^verbatim>\<open>mpipin.c\<close>), and \<^verbatim>\<open>pthread_cond_timedwait()\<close> returns
  \<^verbatim>\<open>ETIMEDOUT\<close> not before. The clock never goes back. So runs that are fast enough are runs without timeouts.
\<close>

section \<open>Time\<close>

record timespec =
  tv_sec :: int
  tv_nsec :: int

definition instant :: "timespec \<Rightarrow> int" where
  "instant ts = 1000000000 * tv_sec ts + tv_nsec ts"

text \<open>The time until which a process waits, from what \<^verbatim>\<open>clock_gettime()\<close> gives.\<close>

definition wait_until :: "timespec \<Rightarrow> part_exec \<Rightarrow> timespec" where
  "wait_until ts pe = ts\<lparr>tv_sec := tv_sec ts + (10 + nr_processes pe sdiv 10)\<rparr>"

definition waiting_period :: "nat \<Rightarrow> int" where
  "waiting_period n = 1000000000 * (10 + int (n div 10))"

lemma instant_wait_until: "nr_processes pe = int n \<Longrightarrow> instant (wait_until ts pe) = instant ts + waiting_period n"
  by (simp add: instant_def wait_until_def waiting_period_def signed_divide_int_def zdiv_int sgn_if)

section \<open>Timed runs\<close>

record timed_node =
  node_now :: node_state
  deadline :: "int \<Rightarrow> timespec"

inductive timed_step :: "(int \<Rightarrow> machine) \<Rightarrow> (int \<Rightarrow> launch) \<Rightarrow> environment \<Rightarrow> timed_node \<Rightarrow> timespec \<times> node_label \<Rightarrow> timed_node \<Rightarrow> bool"
  for mach :: "int \<Rightarrow> machine" and opts :: "int \<Rightarrow> launch" and env :: environment where
  falls_asleep:
    "node_step mach opts env (node_now T) (Pin (Enter p)) N' \<Longrightarrow> proc N' p = Sleeps ob i \<Longrightarrow> objects N' ob = Some pe \<Longrightarrow>
     timed_step mach opts env T (ts, Pin (Enter p)) (T\<lparr>node_now := N', deadline := (deadline T)(p := wait_until ts pe)\<rparr>)"
| gives_up:
    "node_step mach opts env (node_now T) (Pin (Timeout p)) N' \<Longrightarrow> instant (deadline T p) \<le> instant ts \<Longrightarrow>
     timed_step mach opts env T (ts, Pin (Timeout p)) (T\<lparr>node_now := N'\<rparr>)"
| goes_on:
    "node_step mach opts env (node_now T) l N' \<Longrightarrow> (\<And>p. l \<noteq> Pin (Timeout p)) \<Longrightarrow>
     (\<And>ob i. proc N' (node_actor l) \<noteq> Sleeps ob i) \<Longrightarrow> timed_step mach opts env T (ts, l) (T\<lparr>node_now := N'\<rparr>)"

inductive timed_run :: "(int \<Rightarrow> machine) \<Rightarrow> (int \<Rightarrow> launch) \<Rightarrow> environment \<Rightarrow> timed_node \<Rightarrow> (timespec \<times> node_label) list \<Rightarrow> timed_node \<Rightarrow> bool"
  for mach :: "int \<Rightarrow> machine" and opts :: "int \<Rightarrow> launch" and env :: environment and S :: timed_node where
  no_event: "timed_run mach opts env S [] S"
| event: "timed_run mach opts env S es T \<Longrightarrow> timed_step mach opts env T (ts, l) T' \<Longrightarrow> \<forall>(u, _) \<in> set es. instant u \<le> instant ts \<Longrightarrow>
    timed_run mach opts env S (es @ [(ts, l)]) T'"

definition timed_start :: "int set \<Rightarrow> timed_node" where
  "timed_start P = \<lparr>node_now = node_start P, deadline = (\<lambda>_. \<lparr>tv_sec = 0, tv_nsec = 0\<rparr>)\<rparr>"

text \<open>The events of \<^verbatim>\<open>pin_process()\<close> lie between \<open>first\<close> and the end of a waiting period, and no wake-up is spurious.\<close>

fun in_time :: "int \<Rightarrow> nat \<Rightarrow> timespec \<times> node_label \<Rightarrow> bool" where
  "in_time first n (ts, Pin l) \<longleftrightarrow> first \<le> instant ts \<and> instant ts < first + waiting_period n \<and> (\<forall>p. l \<noteq> Spurious p)"
| "in_time first n _ \<longleftrightarrow> True"

inductive_cases step_TimeoutE: "step env f c (Timeout p) c'"

section \<open>Who sleeps\<close>

lemma sleeper:
  assumes R: "ready_node mach opts fs sa P" and inv: "node_inv mach opts P N" and p: "proc N p = Sleeps ob i"
  shows "ob = 0 \<and> (\<exists>pe. objects N 0 = Some pe \<and> nr_processes pe = int (card P))"
  using inv unfolding node_inv_def
proof (elim disjE exE)
  fix J E assume c: "collecting mach P J E N"
  note D = collectingD [OF c]
  have "p \<in> E" using D(3-5) [of p] p by (cases "p \<in> P"; cases "p \<in> J"; cases "p \<in> E") auto
  moreover from this have "J \<noteq> {}" using D(1) by blast
  ultimately show ?thesis using D(9) p by (auto simp: gathered_def split: if_splits)
next
  fix ph assume r: "running mach opts P ph N"
  have "p \<in> P" using runningD(2) [OF r, of p] p by (cases "p \<in> P") auto
  from runningD(3) [OF r this] p have ob: "ob = 0" by (simp split: if_splits)
  obtain q pe avail where q: "objects N 0 = Some pe" "represents P avail (share mach opts P q) (view 0 pe N) ph"
    using runningD(1) [OF r] by blast
  have st: "status (view 0 pe N) p = Waiting i" using p ob by simp
  have "nr_processes pe = int (card P)"
  proof (cases ph)
    case (Gather E)
    then have "p \<in> E" using gather_status(4) [OF q(2) [unfolded Gather] st] by simp
    then show ?thesis using q(2) Gather by (auto simp: gathered_def split: if_splits)
  next
    case (Drain m)
    then obtain w where w: "turn (pids P) w avail (share mach opts P q) m pe"
        "\<forall>j < card P. status (view 0 pe N) (pids P ! j) = (if j < m then Returned (int j) else Waiting (int (w (pids P ! j))))"
        "\<forall>p. p \<notin> P \<longrightarrow> status (view 0 pe N) p = Absent"
      using q(2) by auto
    from drain_waiting [OF w(1) ready_nodeD(1) [OF R] w(2,3) st] have "m < card P" by auto
    then show ?thesis using w(1) ready_nodeD(1) [OF R] by (simp add: turn_def)
  qed
  then show ?thesis using ob q(1) by blast
qed


lemma returned_rank:
  assumes R: "ready_node mach opts fs sa P" and inv: "node_inv mach opts P N" and p: "proc N p = Pinned ob r \<or> proc N p = Done ob r"
  shows "ob = 0 \<and> (\<exists>j < card P. p = pids P ! j \<and> r = int j)"
  using inv unfolding node_inv_def
proof (elim disjE exE)
  fix J E assume c: "collecting mach P J E N"
  note D = collectingD [OF c]
  have False using D(3-5) [of p] collecting_sleeps [OF c, of p] p by (cases "p \<in> P"; cases "p \<in> J"; cases "p \<in> E") auto
  then show ?thesis ..
next
  fix ph assume r: "running mach opts P ph N"
  have "p \<in> P" using runningD(2) [OF r, of p] p by (cases "p \<in> P") auto
  from runningD(3) [OF r this] p have ob: "ob = 0" by (auto split: if_splits)
  obtain q pe avail where q: "objects N 0 = Some pe" "represents P avail (share mach opts P q) (view 0 pe N) ph"
    using runningD(1) [OF r] by blast
  have st: "status (view 0 pe N) p = Returned r" using p ob by auto
  show ?thesis
  proof (cases ph)
    case (Gather E)
    then show ?thesis using gather_status(5) [OF q(2) [unfolded Gather], of p r] st by simp
  next
    case (Drain m)
    then have "m \<le> card P" using q(2) by simp
    then show ?thesis using drain_status(3) [OF q(2) [unfolded Drain] ready_nodeD(1) [OF R] st] ob by (auto intro: order_less_le_trans)
  qed
qed

lemma inv_stuck:
  assumes R: "ready_node mach opts fs sa P" and inv: "node_inv mach opts P N" and stuck: "\<nexists>N'. calm_node mach opts (env_of fs sa) N N'"
  shows "\<exists>pe. objects N 0 = Some pe \<and> (\<forall>r < card P. proc N (pids P ! r) = Done 0 (int r)) \<and>
    (\<forall>r s. r < s \<and> s < card P \<longrightarrow> cpus_of (affinities pe ! r) \<inter> cpus_of (affinities pe ! s) = {}) \<and>
    (\<forall>r s. r < card P \<and> s < card P \<longrightarrow> card (cpus_of (affinities pe ! r)) = card (cpus_of (affinities pe ! s)))"
proof -
  obtain ph where "running mach opts P ph N" using inv stuck collecting_progress [OF R] unfolding node_inv_def by blast
  from running_stuck [OF R this stuck] obtain q pe where "objects N 0 = Some pe" "\<forall>r < card P. proc N (pids P ! r) = Done 0 (int r)"
      "\<forall>r s. r < s \<and> s < card P \<longrightarrow> cpus_of (affinities pe ! r) \<inter> cpus_of (affinities pe ! s) = {}"
      "\<forall>r < card P. cpus_of (affinities pe ! r) \<subseteq> last_cpus mach opts P q \<and>
         card (cpus_of (affinities pe ! r)) = card (last_cpus mach opts P q) div card P"
    by (elim bexE exE conjE) (rule that)
  then show ?thesis by (intro exI [of _ pe]) simp
qed

lemma falls_asleep_label:
  assumes "node_step mach opts env N l N'" "proc N' (node_actor l) = Sleeps ob i"
  shows "l = Pin (Enter (node_actor l))"
  using assms
proof cases
  case (pins ob1 pe l' c)
  have "proc_of ob1 (status c (actor l')) = Sleeps ob i" using assms(2) pins by (simp add: after_pin_def)
  then have "\<exists>x. status c (actor l') = Waiting x" by (cases "status c (actor l')") auto
  with pins(4) show ?thesis unfolding pins(1) by cases auto
qed simp_all

text \<open>What holds after the events \<open>es\<close>: all were calm, and who sleeps began to wait at one of them.\<close>

definition timely :: "(int \<Rightarrow> machine) \<Rightarrow> (int \<Rightarrow> launch) \<Rightarrow> environment \<Rightarrow> int set \<Rightarrow> int \<Rightarrow> timed_node \<Rightarrow> bool" where
  "timely mach opts env P first T \<longleftrightarrow> (calm_node mach opts env)\<^sup>*\<^sup>* (node_start P) (node_now T) \<and>
     (\<forall>p ob i. proc (node_now T) p = Sleeps ob i \<longrightarrow> first + waiting_period (card P) \<le> instant (deadline T p))"

lemma timely_step:
  assumes R: "ready_node mach opts fs sa P" and t: "timely mach opts (env_of fs sa) P first T"
    and st: "timed_step mach opts (env_of fs sa) T (ts, l) T'" and w: "in_time first (card P) (ts, l)"
  shows "timely mach opts (env_of fs sa) P first T' \<and> calm_node_label l"
proof -
  have inv: "node_inv mach opts P N" if "(calm_node mach opts (env_of fs sa))\<^sup>*\<^sup>* (node_start P) N" for N
    using node_run.always [of "(mach, opts, fs, sa, P)"] R that by simp
  have go: "(calm_node mach opts (env_of fs sa))\<^sup>*\<^sup>* (node_start P) N'"
    if "node_step mach opts (env_of fs sa) (node_now T) l N'" "calm_node_label l" for N'
    using t calm_nodeI [OF that] by (meson rtranclp.rtrancl_into_rtrancl timely_def)
  have late: "first + waiting_period (card P) \<le> instant (deadline T q)" if "proc (node_now T) q = Sleeps ob i" for q ob i
    using t that unfolding timely_def by blast
  from st show ?thesis
  proof cases
    case (falls_asleep p N' ob i pe)
    then have c: "calm_node_label l" by simp
    have r: "(calm_node mach opts (env_of fs sa))\<^sup>*\<^sup>* (node_start P) N'" using go falls_asleep c by simp
    have "nr_processes pe = int (card P)" using sleeper [OF R inv [OF r] falls_asleep(4)] falls_asleep(5) by auto
    then have "first + waiting_period (card P) \<le> instant (wait_until ts pe)" using w falls_asleep(1) by (simp add: instant_wait_until)
    moreover have "proc N' q = proc (node_now T) q" if "q \<noteq> p" for q using node_step_lowers [OF falls_asleep(3)] that by simp
    ultimately show ?thesis using r late c falls_asleep(2) unfolding timely_def by simp blast
  next
    case (gives_up p N')
    from gives_up(3) have "\<exists>ob i. proc (node_now T) p = Sleeps ob i"
      by (elim node_step_PinE) (auto elim!: step_TimeoutE)
    then have "first + waiting_period (card P) \<le> instant ts" using late gives_up(4) by force
    then show ?thesis using w gives_up(1) by simp
  next
    case (goes_on N')
    have c: "calm_node_label l"
    proof (cases l)
      case (Pin l')
      then show ?thesis using goes_on(3) w by (cases l') auto
    qed simp_all
    have "proc (node_now T) q = Sleeps ob i" if "proc N' q = Sleeps ob i" for q ob i
      using that goes_on(4) node_step_lowers [OF goes_on(2)] by (cases "q = node_actor l") auto
    then show ?thesis using go [OF goes_on(2) c] late c goes_on(1) unfolding timely_def by simp
  qed
qed

lemma timely_run:
  assumes R: "ready_node mach opts fs sa P" and "timed_run mach opts (env_of fs sa) (timed_start P) es T"
    and "\<forall>e \<in> set es. in_time first (card P) e"
  shows "timely mach opts (env_of fs sa) P first T \<and> (\<forall>(ts, l) \<in> set es. calm_node_label l)"
  using assms(2,3)
proof (induction rule: timed_run.induct)
  case no_event
  then show ?case by (simp add: timely_def timed_start_def node_start_def)
next
  case (event es T ts l T')
  then show ?case using timely_step [OF R _ event.hyps(2)] by auto
qed

lemma timed_run_length:
  assumes "timed_run mach opts env S es T" "\<forall>(ts, l) \<in> set es. calm_node_label l"
  shows "(calm_node mach opts env ^^ length es) (node_now S) (node_now T)"
  using assms
proof (induction rule: timed_run.induct)
  case (event es T ts l T')
  then have "calm_node_label l" "(calm_node mach opts env ^^ length es) (node_now S) (node_now T)" by auto
  moreover have "node_step mach opts env (node_now T) l (node_now T')" using event.hyps(2) by cases simp_all
  ultimately show ?case by (auto intro: calm_nodeI)
qed simp

text \<open>Every run without timeouts can happen at any moment.\<close>

lemma calm_timed_step:
  assumes "node_step mach opts env (node_now T) l N'" "calm_node_label l"
  shows "\<exists>T'. timed_step mach opts env T (ts, l) T' \<and> node_now T' = N'"
proof (cases "\<exists>ob i. proc N' (node_actor l) = Sleeps ob i")
  case True
  then obtain ob i where s: "proc N' (node_actor l) = Sleeps ob i" by blast
  have l: "l = Pin (Enter (node_actor l))" by (rule falls_asleep_label [OF assms(1) s])
  then obtain p where p: "l = Pin (Enter p)" by blast
  obtain ob1 c where "N' = after_pin ob1 p c (node_now T)" using assms(1) unfolding p by (elim node_step_PinE) auto
  moreover from this s p have "ob1 = ob" by (cases "status c p") (auto simp: after_pin_def)
  ultimately have "objects N' ob = Some (shm c)" by (simp add: after_pin_def)
  from timed_step.falls_asleep [OF assms(1) [unfolded p] _ this] s show ?thesis unfolding p by fastforce
next
  case False
  have "timed_step mach opts env T (ts, l) (T\<lparr>node_now := N'\<rparr>)"
    by (rule timed_step.goes_on [OF assms(1)]) (use False assms(2) in auto)
  then show ?thesis by (intro exI [of _ "T\<lparr>node_now := N'\<rparr>"]) simp
qed

lemma calm_timed_run:
  assumes "(calm_node mach opts env)\<^sup>*\<^sup>* (node_now S) N"
  shows "\<exists>es T. timed_run mach opts env S es T \<and> node_now T = N \<and> (\<forall>(u, l) \<in> set es. u = ts \<and> calm_node_label l)"
  using assms
proof (induction rule: rtranclp_induct)
  case base
  show ?case by (intro exI [of _ "[]"] exI [of _ S]) (simp add: timed_run.no_event)
next
  case (step N N')
  then obtain es T where T: "timed_run mach opts env S es T" "node_now T = N" "\<forall>(u, l) \<in> set es. u = ts \<and> calm_node_label l" by blast
  obtain l where l: "calm_node_label l" "node_step mach opts env (node_now T) l N'" using step.hyps(2) T(2) by (auto simp: calm_node_def)
  obtain T' where T': "timed_step mach opts env T (ts, l) T'" "node_now T' = N'" using calm_timed_step [OF l(2,1)] by blast
  have "timed_run mach opts env S (es @ [(ts, l)]) T'" by (rule timed_run.event [OF T(1) T'(1)]) (use T(3) in auto)
  then show ?case using T'(2) T(3) l(1) by (intro exI [of _ "es @ [(ts, l)]"] exI [of _ T']) auto
qed

text \<open>
  C2. How fast is fast enough: when all steps of \<^verbatim>\<open>pin_process()\<close>, the collection of the topology included, happen within \<open>10 + n div 10\<close> seconds
  and no wake-up is spurious, then no process times out. Such a run has at most five steps of each process, every process that
  returned has its position in PID order as its rank, and if the processes have no step left but timeouts, all have returned and the
  affinities are disjoint and of equal size.
\<close>

theorem node_in_time:
  assumes "ready_node mach opts fs sa P" "timed_run mach opts (env_of fs sa) (timed_start P) es T"
    and "\<forall>e \<in> set es. in_time first (card P) e"
  shows "(\<forall>ts p. (ts, Pin (Timeout p)) \<notin> set es) \<and> length es \<le> 5 * card P \<and>
    (\<forall>p ob r. proc (node_now T) p = Pinned ob r \<or> proc (node_now T) p = Done ob r \<longrightarrow>
       ob = 0 \<and> (\<exists>j < card P. p = sorted_list_of_set P ! j \<and> r = int j)) \<and>
    ((\<nexists>N'. calm_node mach opts (env_of fs sa) (node_now T) N') \<longrightarrow>
       (\<exists>pe. objects (node_now T) 0 = Some pe \<and> (\<forall>r < card P. proc (node_now T) (sorted_list_of_set P ! r) = Done 0 (int r)) \<and>
         (\<forall>r s. r < s \<and> s < card P \<longrightarrow> cpus_of (affinities pe ! r) \<inter> cpus_of (affinities pe ! s) = {}) \<and>
         (\<forall>r s. r < card P \<and> s < card P \<longrightarrow> card (cpus_of (affinities pe ! r)) = card (cpus_of (affinities pe ! s)))))"
proof -
  note R = assms(1)
  have t: "timely mach opts (env_of fs sa) P first T" "\<forall>(ts, l) \<in> set es. calm_node_label l" using timely_run [OF assms] by blast+
  have run: "(calm_node mach opts (env_of fs sa))\<^sup>*\<^sup>* (node_start P) (node_now T)" using t(1) by (simp add: timely_def)
  then have inv: "node_inv mach opts P (node_now T)" using node_run.always [of "(mach, opts, fs, sa, P)"] R by simp
  have "\<forall>ts p. (ts, Pin (Timeout p)) \<notin> set es" using t(2) by auto
  moreover have "(calm_node mach opts (env_of fs sa) ^^ length es) (node_start P) (node_now T)"
    using timed_run_length [OF assms(2) t(2)] by (simp add: timed_start_def)
  then have "length es \<le> 5 * card P" using node_steps_bound [OF ready_nodeD(1) [OF R]] by fastforce
  moreover have "ob = 0 \<and> (\<exists>j < card P. p = pids P ! j \<and> r = int j)"
    if "proc (node_now T) p = Pinned ob r \<or> proc (node_now T) p = Done ob r" for p ob r
    using returned_rank [OF R inv that] .
  moreover have "\<exists>pe. objects (node_now T) 0 = Some pe \<and> (\<forall>r < card P. proc (node_now T) (pids P ! r) = Done 0 (int r)) \<and>
         (\<forall>r s. r < s \<and> s < card P \<longrightarrow> cpus_of (affinities pe ! r) \<inter> cpus_of (affinities pe ! s) = {}) \<and>
         (\<forall>r s. r < card P \<and> s < card P \<longrightarrow> card (cpus_of (affinities pe ! r)) = card (cpus_of (affinities pe ! s)))"
    if "\<nexists>N'. calm_node mach opts (env_of fs sa) (node_now T) N'"
    using inv_stuck [OF R inv that] .
  ultimately show ?thesis by blast
qed


text \<open>The two processes of the concrete node, with all events in the same second: they have ten seconds.\<close>

theorem node_in_time_witness:
  "\<exists>es T. timed_run example_mach (\<lambda>_. example_launch) (env_of example_fs (\<lambda>_. True)) (timed_start {101, 102}) es T \<and>
     waiting_period (card {101, 102 :: int}) = 10000000000 \<and> length es \<le> 10 \<and>
     proc (node_now T) 101 = Done 0 0 \<and> proc (node_now T) 102 = Done 0 1"
proof -
  let ?m = example_mach and ?o = "\<lambda>_ :: int. example_launch" and ?e = "env_of example_fs (\<lambda>_. True)" and ?ts = "\<lparr>tv_sec = 1000, tv_nsec = 0\<rparr>"
  have c: "card {101, 102 :: int} = 2" "sorted_list_of_set {101, 102 :: int} = [101, 102]" by simp_all
  obtain N where N: "(calm_node ?m ?o ?e)\<^sup>*\<^sup>* (node_start {101, 102}) N" "\<nexists>N'. calm_node ?m ?o ?e N N'"
    using bounded_run_stops [where b = "5 * card {101, 102 :: int}" and R = "calm_node ?m ?o ?e" and s = "node_start {101, 102}"]
      node_steps_bound [OF ready_nodeD(1) [OF example_ready_node], of _ ?m ?o ?e] by fastforce
  obtain es T where T: "timed_run ?m ?o ?e (timed_start {101, 102}) es T" "node_now T = N" "\<forall>(u, l) \<in> set es. u = ?ts \<and> calm_node_label l"
    using calm_timed_run [of ?m ?o ?e "timed_start {101, 102}" N ?ts] N(1) by (auto simp: timed_start_def)
  have "in_time (instant ?ts) (card {101, 102 :: int}) (u, l)" if "(u, l) \<in> set es" for u l
  proof -
    have "u = ?ts" "calm_node_label l" using T(3) that by auto
    then show ?thesis by (cases l) (auto simp: waiting_period_def)
  qed
  then have e: "\<forall>e \<in> set es. in_time (instant ?ts) (card {101, 102 :: int}) e" by auto
  note F = node_in_time [OF example_ready_node T(1) e]
  have "\<forall>r < 2. proc N ([101, 102] ! r) = Done 0 (int r)"
    using F [THEN conjunct2, THEN conjunct2, THEN conjunct2] N(2) unfolding T(2) c by blast
  then have "proc N 101 = Done 0 0" "proc N 102 = Done 0 1" by (auto dest: spec [of _ "0 :: nat"] spec [of _ "1 :: nat"])
  moreover have "length es \<le> 10" using F [THEN conjunct2, THEN conjunct1] unfolding c by simp
  moreover have "waiting_period (card {101, 102 :: int}) = 10000000000" unfolding c by (simp add: waiting_period_def)
  ultimately show ?thesis using T(1,2) by blast
qed

end
