(* ===== verification/Bitmap_Region.thy ===== *)
theory Bitmap_Region
  imports Bitmap_Shift
begin

text \<open>
Regions of a bitmap: \<^verbatim>\<open>__reg_op()\<close> and the three operations over it,
  \<^verbatim>\<open>bitmap_find_free_region()\<close>, \<^verbatim>\<open>bitmap_release_region()\<close> and \<^verbatim>\<open>bitmap_allocate_region()\<close>, and
  \<^verbatim>\<open>bitmap_find_next_zero_area()\<close> of \<^verbatim>\<open>bitmap.c\<close>. Positions, orders and sizes are natural numbers. The code computes the
  size \<^verbatim>\<open>1 << order\<close> of a region and its end in \<^verbatim>\<open>int\<close>: a shift or a sum that leaves the range of \<^verbatim>\<open>int\<close> is undefined, here
  \<open>None\<close>. The sums of the zero-area search wrap at 64 bits. The lemmas describe the operations by the set of the allocated
  positions; the locale \<open>region_allocator\<close> is the contract a client of the allocator relies on.
\<close>

section \<open>Regions\<close>

datatype reg_op = REG_OP_ISFREE | REG_OP_ALLOC | REG_OP_RELEASE

definition reg_mask :: "nat \<Rightarrow> nat \<Rightarrow> ulong" where
  "reg_mask nbitsinlong offset = (let mask = push_bit (nbitsinlong - 1) 1; mask = mask + (mask - 1) in push_bit offset mask)"

text \<open>\<^verbatim>\<open>1 << order\<close>\<close>

definition region_size :: "nat \<Rightarrow> nat option" where
  "region_size order = (if order < 31 then Some (2 ^ order) else None)"

definition do_reg_op :: "ulong list \<Rightarrow> nat \<Rightarrow> nat \<Rightarrow> reg_op \<Rightarrow> (nat \<times> ulong list) option" where
  "do_reg_op bitmap pos order reg_op = do {
     nbits_reg \<leftarrow> region_size order;
     let index = pos div 64;
     let offset = pos - index * 64;
     let nlongs_reg = BITS_TO_LONGS nbits_reg;
     let nbitsinlong = (if nbits_reg < 64 then nbits_reg else 64);
     let mask = reg_mask nbitsinlong offset;
     (case reg_op of
        REG_OP_ISFREE \<Rightarrow> do {
          used \<leftarrow> scan_words (\<lambda>i. do { w \<leftarrow> rd bitmap (index + i); Some (w AND mask \<noteq> 0) }) 0 nlongs_reg;
          Some (if used then 0 else 1, bitmap) }
      | REG_OP_ALLOC \<Rightarrow> do {
          bitmap \<leftarrow> fold_opt (\<lambda>i b. do { w \<leftarrow> rd b (index + i); wr b (index + i) (w OR mask) }) [0..<nlongs_reg] bitmap;
          Some (0, bitmap) }
      | REG_OP_RELEASE \<Rightarrow> do {
          bitmap \<leftarrow> fold_opt (\<lambda>i b. do { w \<leftarrow> rd b (index + i); wr b (index + i) (w AND NOT mask) }) [0..<nlongs_reg] bitmap;
          Some (0, bitmap) }) }"

lemma region_room: "pos + 2 ^ order \<le> bits \<Longrightarrow> pos < (bits :: nat)"
  by (rule less_le_trans [of _ "pos + 2 ^ order"]) simp_all


function free_region_from :: "ulong list \<Rightarrow> nat \<Rightarrow> nat \<Rightarrow> nat \<Rightarrow> (int \<times> ulong list) option" where
  "free_region_from bitmap bits order pos =
     do {
      size \<leftarrow> region_size order;
      let fin = pos + size;
      if int fin > INT_MAX then None
      else if fin \<le> bits then do {
        (free, bitmap) \<leftarrow> do_reg_op bitmap pos order REG_OP_ISFREE;
        if free = 0 then free_region_from bitmap bits order fin
        else do {
          (_, bitmap) \<leftarrow> do_reg_op bitmap pos order REG_OP_ALLOC;
          Some (int pos, bitmap) } }
      else Some (- ENOMEM, bitmap) }"
  by pat_completeness auto

termination
  by (relation "measure (\<lambda>(bitmap, bits, order, pos). bits - pos)")
    (auto simp: region_size_def intro!: diff_less_mono2 dest: region_room split: if_splits)

declare free_region_from.simps [simp del]

definition bitmap_find_free_region :: "ulong list \<Rightarrow> nat \<Rightarrow> nat \<Rightarrow> (int \<times> ulong list) option" where
  "bitmap_find_free_region bitmap bits order = free_region_from bitmap bits order 0"

definition bitmap_release_region :: "ulong list \<Rightarrow> nat \<Rightarrow> nat \<Rightarrow> ulong list option" where
  "bitmap_release_region bitmap pos order = do {
     (_, bitmap) \<leftarrow> do_reg_op bitmap pos order REG_OP_RELEASE;
     Some bitmap }"

definition bitmap_allocate_region :: "ulong list \<Rightarrow> nat \<Rightarrow> nat \<Rightarrow> (int \<times> ulong list) option" where
  "bitmap_allocate_region bitmap pos order = do {
     (free, bitmap) \<leftarrow> do_reg_op bitmap pos order REG_OP_ISFREE;
     if free = 0 then Some (- EBUSY, bitmap)
     else do {
       (_, bitmap) \<leftarrow> do_reg_op bitmap pos order REG_OP_ALLOC;
       Some (0, bitmap) } }"

section \<open>Zero areas\<close>

partial_function (option) zero_area_from ::
  "ulong list \<Rightarrow> nat \<Rightarrow> nat \<Rightarrow> nat \<Rightarrow> nat \<Rightarrow> nat option" where
  "zero_area_from bmap sz start nr align_mask = do {
     index \<leftarrow> find_next_zero_bit bmap sz start;
     let index = unat (ALIGN_MASK (of_nat index) (of_nat align_mask));
     let fin = (index + nr) mod 2 ^ 64;
     if fin > sz then Some fin
     else do {
       i \<leftarrow> find_next_bit bmap fin index;
       if i < fin then zero_area_from bmap sz ((i + 1) mod 2 ^ 64) nr align_mask
       else Some index } }"

definition bitmap_find_next_zero_area :: "ulong list \<Rightarrow> nat \<Rightarrow> nat \<Rightarrow> nat \<Rightarrow> nat \<Rightarrow> nat option" where
  "bitmap_find_next_zero_area bmap sz start nr align_mask = zero_area_from bmap sz start nr align_mask"

section \<open>The bits of a region\<close>

definition region :: "nat \<Rightarrow> nat \<Rightarrow> nat set" where
  "region pos order = {pos..<pos + 2 ^ order}"

lemma bit_reg_mask:
  assumes "0 < k" "k \<le> 64"
  shows "bit (reg_mask k offset) j \<longleftrightarrow> j < 64 \<and> offset \<le> j \<and> j < offset + k"
proof -
  have "push_bit (k - 1) 1 + (push_bit (k - 1) 1 - 1) = (mask k :: ulong)"
  proof -
    obtain k' where k: "k = Suc k'" using assms(1) by (cases k) auto
    have "push_bit k' 1 + (push_bit k' 1 - 1) = (2 ^ k' + 2 ^ k' - 1 :: ulong)" by (simp add: push_bit_eq_mult)
    also have "\<dots> = 2 ^ k - 1" by (simp add: k)
    finally show ?thesis by (simp add: mask_eq_exp_minus_1 k)
  qed
  then show ?thesis using assms by (auto simp: reg_mask_def Let_def bit_push_bit_iff bit_mask_iff)
qed

text \<open>For an aligned region, the masked words are its bits.\<close>

lemma region_words:
  assumes "2 ^ order dvd pos"
  defines "k \<equiv> (if 2 ^ order < (64::nat) then 2 ^ order else 64)" and "n \<equiv> BITS_TO_LONGS (2 ^ order)"
  shows "i < 64 * (pos div 64) \<or> 64 * (pos div 64 + n) \<le> i \<Longrightarrow> i \<notin> region pos order"
    and "i div 64 = pos div 64 + t \<Longrightarrow> t < n \<Longrightarrow> bit (reg_mask k (pos - pos div 64 * 64)) (i mod 64) \<longleftrightarrow> i \<in> region pos order"
    and "pos + 2 ^ order \<le> 64 * len \<Longrightarrow> pos div 64 + n \<le> len"
proof -
  define w where "w = pos div 64"
  define off where "off = pos - w * 64"
  have off: "off < 64" "pos = 64 * w + off" unfolding w_def off_def by (simp_all add: minus_div_mult_eq_mod)
  have k: "0 < k" "k \<le> 64" by (simp_all add: k_def)
  have shape: "n = 1 \<and> k = 2 ^ order \<and> off + k \<le> 64 \<or> off = 0 \<and> k = 64 \<and> 2 ^ order = 64 * n"
  proof (cases "order < 6")
    case True
    then have "(2::nat) ^ order dvd 2 ^ 6" by (intro le_imp_power_dvd) simp
    then have d64: "(2::nat) ^ order dvd 64" by simp
    have p64: "(2::nat) ^ order < 2 ^ 6" using True by (intro power_strict_increasing) simp_all
    have "2 ^ order dvd off" using assms(1) d64 off(2) by (metis dvd_add_right_iff dvd_mult2)
    moreover have "2 ^ order dvd (64 :: nat)" by (rule d64)
    ultimately have "2 ^ order dvd 64 - off" by (intro dvd_diff_nat)
    then have "2 ^ order \<le> 64 - off" using off(1) by (intro dvd_imp_le) simp_all
    moreover have "n = 1" using p64 by (simp add: n_def BITS_TO_LONGS_eq)
    ultimately show ?thesis using off(1) p64 by (simp add: k_def)
  next
    case False
    then obtain d where d: "order = 6 + d" by (metis le_add_diff_inverse not_less)
    then have p: "(2::nat) ^ order = 64 * 2 ^ d" by (simp add: power_add)
    then have "64 dvd pos" using assms(1) by (metis dvd_mult_left)
    then have "off = 0" unfolding off_def w_def by simp
    moreover have "n = 2 ^ d" unfolding n_def p by (simp add: BITS_TO_LONGS_eq)
    ultimately show ?thesis using p by (simp add: k_def)
  qed
  show "i < 64 * (pos div 64) \<or> 64 * (pos div 64 + n) \<le> i \<Longrightarrow> i \<notin> region pos order"
    using shape off unfolding region_def w_def [symmetric] by auto
  show "pos + 2 ^ order \<le> 64 * len \<Longrightarrow> pos div 64 + n \<le> len"
  proof -
    assume a: "pos + 2 ^ order \<le> 64 * len"
    obtain p where p: "2 ^ order = p" "0 < (p :: nat)" by simp
    show ?thesis using shape a off(2) unfolding p(1) w_def [symmetric] using p(2) by (elim disjE conjE) simp_all
  qed
  assume t: "i div 64 = pos div 64 + t" "t < n"
  define j where "j = i mod 64"
  have i: "i = 64 * (w + t) + j" "j < 64" using t(1) unfolding w_def j_def by (metis mult_div_mod_eq, simp)
  have "bit (reg_mask k off) j \<longleftrightarrow> off \<le> j \<and> j < off + k" using i(2) bit_reg_mask [OF k] by auto
  also have "\<dots> \<longleftrightarrow> i \<in> region pos order"
    using shape t(2) i off unfolding region_def by auto
  finally show "bit (reg_mask k (pos - pos div 64 * 64)) (i mod 64) \<longleftrightarrow> i \<in> region pos order"
    unfolding off_def w_def j_def .
qed


lemma fold_region:
  assumes "ix + n \<le> length b"
  shows "\<exists>b'. fold_opt (\<lambda>i b. do { w \<leftarrow> rd b (ix + i); wr b (ix + i) (f w) }) [0..<n] b = Some b' \<and> length b' = length b \<and>
    (\<forall>t. b' ! t = (if ix \<le> t \<and> t < ix + n then f (b ! t) else b ! t))"
  using assms
proof (induction n)
  case (Suc n)
  then obtain b' where b': "fold_opt (\<lambda>i b. do { w \<leftarrow> rd b (ix + i); wr b (ix + i) (f w) }) [0..<n] b = Some b'" "length b' = length b"
      "\<forall>t. b' ! t = (if ix \<le> t \<and> t < ix + n then f (b ! t) else b ! t)" by auto
  then have "fold_opt (\<lambda>i b. do { w \<leftarrow> rd b (ix + i); wr b (ix + i) (f w) }) [0..<Suc n] b = Some (b'[ix + n := f (b ! (ix + n))])"
    using Suc.prems by (simp add: fold_opt_append rd_in wr_in del: rd_eq_Some wr_eq_Some)
  moreover have "b'[ix + n := f (b ! (ix + n))] ! t = (if ix \<le> t \<and> t < ix + Suc n then f (b ! t) else b ! t)" for t
    using b'(2,3) Suc.prems by (auto simp: nth_list_update)
  ultimately show ?case using b'(2) by (metis length_list_update)
qed auto

lemma outside_words: "\<not> (a \<le> i div 64 \<and> i div 64 < a + n) \<Longrightarrow> i < 64 * a \<or> 64 * (a + n) \<le> (i :: nat)"
proof -
  obtain t j where "i = 64 * t + j" "j < 64" "i div 64 = t" using idx_split [of i] by blast
  then show "\<not> (a \<le> i div 64 \<and> i div 64 < a + n) \<Longrightarrow> i < 64 * a \<or> 64 * (a + n) \<le> i" by auto
qed

lemma idx_word: "j < 64 \<Longrightarrow> (64 * q + j) div 64 = q" "j < 64 \<Longrightarrow> (64 * q + j) mod 64 = (j :: nat)"
  by simp_all

lemma region_update:
  assumes "2 ^ order dvd pos" "pos + 2 ^ order \<le> 64 * length b"
    and "\<And>w j. bit (f w) j \<longleftrightarrow> (if bit (reg_mask (if 2 ^ order < (64::nat) then 2 ^ order else 64) (pos - pos div 64 * 64)) j then j < 64 \<and> v else bit w j)"
  shows "\<exists>b'. fold_opt (\<lambda>i b. do { w \<leftarrow> rd b (pos div 64 + i); wr b (pos div 64 + i) (f w) }) [0..<BITS_TO_LONGS (2 ^ order)] b = Some b' \<and>
    length b' = length b \<and> (\<forall>i. bm_bit b' i \<longleftrightarrow> (if i \<in> region pos order then v else bm_bit b i))"
proof -
  let ?n = "BITS_TO_LONGS (2 ^ order)" and ?ix = "pos div 64"
  note rw = region_words [OF assms(1)]
  obtain b' where b': "fold_opt (\<lambda>i b. do { w \<leftarrow> rd b (?ix + i); wr b (?ix + i) (f w) }) [0..<?n] b = Some b'" "length b' = length b"
      "\<forall>t. b' ! t = (if ?ix \<le> t \<and> t < ?ix + ?n then f (b ! t) else b ! t)"
    using fold_region [OF rw(3) [OF assms(2)]] by blast
  have "bm_bit b' i \<longleftrightarrow> (if i \<in> region pos order then v else bm_bit b i)" for i
  proof (cases "?ix \<le> i div 64 \<and> i div 64 < ?ix + ?n")
    case True
    then obtain t where t: "i div 64 = ?ix + t" "t < ?n" by (metis add_less_cancel_left le_add_diff_inverse)
    have "i div 64 < length b" using True rw(3) [OF assms(2)] by linarith
    then show ?thesis using b'(2,3) True rw(2) [OF t] assms(3) by (simp add: bm_bit_def)
  next
    case False
    then have "i < 64 * ?ix \<or> 64 * (?ix + ?n) \<le> i" by (rule outside_words)
    moreover have "b' ! (i div 64) = b ! (i div 64)" using b'(3) False by presburger
    ultimately show ?thesis using rw(1) [of i] b'(2) by (simp add: bm_bit_def)
  qed
  then show ?thesis using b' by blast
qed

lemma reg_op_isfree:
  assumes "2 ^ order dvd pos" "pos + 2 ^ order \<le> 64 * length b" and small: "order < 31"
  shows "do_reg_op b pos order REG_OP_ISFREE = Some (if \<exists>i \<in> region pos order. bm_bit b i then 0 else 1, b)"
proof -
  let ?n = "BITS_TO_LONGS (2 ^ order)" and ?ix = "pos div 64"
  let ?mask = "reg_mask (if 2 ^ order < (64::nat) then 2 ^ order else 64) (pos - pos div 64 * 64)"
  note rw = region_words [OF assms(1)]
  have len: "?ix + ?n \<le> length b" by (rule rw(3) [OF assms(2)])
  have "scan_words (\<lambda>i. do { w \<leftarrow> rd b (?ix + i); Some (w AND ?mask \<noteq> 0) }) 0 ?n =
      Some (\<exists>t. 0 \<le> t \<and> t < ?n \<and> b ! (?ix + t) AND ?mask \<noteq> 0)"
    by (rule scan_words_eq) (use len in \<open>simp add: rd_in del: rd_eq_Some\<close>)
  moreover have "(\<exists>t. 0 \<le> t \<and> t < ?n \<and> b ! (?ix + t) AND ?mask \<noteq> 0) \<longleftrightarrow> (\<exists>i \<in> region pos order. bm_bit b i)"
  proof
    assume "\<exists>t. 0 \<le> t \<and> t < ?n \<and> b ! (?ix + t) AND ?mask \<noteq> 0"
    then obtain t j where t: "t < ?n" "j < 64" "bit (b ! (?ix + t)) j" "bit ?mask j"
      by (auto simp: word_nonzero_iff bit_and_iff)
    have ij: "(64 * (?ix + t) + j) div 64 = ?ix + t" "(64 * (?ix + t) + j) mod 64 = j" using idx_word [OF t(2)] by blast+
    have "64 * (?ix + t) + j \<in> region pos order" using rw(2) [OF ij(1) t(1)] t(4) ij(2) by simp
    moreover have "bm_bit b (64 * (?ix + t) + j)" using t len ij by (simp add: bm_bit_def)
    ultimately show "\<exists>i \<in> region pos order. bm_bit b i" by blast
  next
    assume "\<exists>i \<in> region pos order. bm_bit b i"
    then obtain i where i: "i \<in> region pos order" "bm_bit b i" by blast
    have "\<not> (i < 64 * ?ix \<or> 64 * (?ix + ?n) \<le> i)" using rw(1) i(1) by blast
    then have "?ix \<le> i div 64 \<and> i div 64 < ?ix + ?n" using outside_words by blast
    then obtain t where t: "i div 64 = ?ix + t" "t < ?n" by (metis add_less_cancel_left le_add_diff_inverse)
    have "bit (b ! (?ix + t) AND ?mask) (i mod 64)"
      using rw(2) [OF t] i t(1) by (simp add: bit_and_iff bm_bit_def)
    then show "\<exists>t. 0 \<le> t \<and> t < ?n \<and> b ! (?ix + t) AND ?mask \<noteq> 0" using t(2) by auto
  qed
  ultimately show ?thesis using small by (simp add: do_reg_op_def region_size_def Let_def)
qed

lemma reg_op_alloc:
  assumes "2 ^ order dvd pos" "pos + 2 ^ order \<le> 64 * length b" and small: "order < 31"
  shows "\<exists>b'. do_reg_op b pos order REG_OP_ALLOC = Some (0, b') \<and> length b' = length b \<and>
    (\<forall>i. bm_bit b' i \<longleftrightarrow> i \<in> region pos order \<or> bm_bit b i)"
proof -
  let ?mask = "reg_mask (if 2 ^ order < (64::nat) then 2 ^ order else 64) (pos - pos div 64 * 64)"
  have "bit (w OR ?mask) j \<longleftrightarrow> (if bit ?mask j then j < 64 \<and> True else bit w j)" for w j
    by (auto simp: bit_or_iff dest: bit_imp_le_length)
  from region_update [OF assms(1,2) this] show ?thesis using small by (auto simp: do_reg_op_def region_size_def Let_def)
qed

lemma reg_op_release:
  assumes "2 ^ order dvd pos" "pos + 2 ^ order \<le> 64 * length b" and small: "order < 31"
  shows "\<exists>b'. do_reg_op b pos order REG_OP_RELEASE = Some (0, b') \<and> length b' = length b \<and>
    (\<forall>i. bm_bit b' i \<longleftrightarrow> i \<notin> region pos order \<and> bm_bit b i)"
proof -
  let ?mask = "reg_mask (if 2 ^ order < (64::nat) then 2 ^ order else 64) (pos - pos div 64 * 64)"
  have "bit (w AND NOT ?mask) j \<longleftrightarrow> (if bit ?mask j then j < 64 \<and> False else bit w j)" for w j
    by (auto simp: bit_and_iff bit_not_iff dest: bit_imp_le_length)
  from region_update [OF assms(1,2) this] show ?thesis using small by (auto simp: do_reg_op_def region_size_def Let_def)
qed


section \<open>Finding, allocating and releasing\<close>

definition fits :: "nat \<Rightarrow> nat \<Rightarrow> nat \<Rightarrow> bool" where
  "fits bits pos order \<longleftrightarrow> order < 31 \<and> 2 ^ order dvd pos \<and> pos + 2 ^ order \<le> bits"

definition used :: "ulong list \<Rightarrow> nat set" where
  "used b = {i. bm_bit b i}"

lemma used_disjoint: "region pos order \<inter> used b = {} \<longleftrightarrow> \<not> (\<exists>i \<in> region pos order. bm_bit b i)"
  by (auto simp: used_def)

lemma free_region_from_eq:
  assumes "backed b bits" "2 ^ order dvd pos" "pos \<le> bits"
  shows "(\<exists>p b'. free_region_from b bits order pos = Some (int p, b') \<and> pos \<le> p \<and> fits bits p order \<and>
      region p order \<inter> used b = {} \<and> length b' = length b \<and> used b' = used b \<union> region p order \<and>
      (\<forall>q. pos \<le> q \<and> q < p \<and> fits bits q order \<longrightarrow> region q order \<inter> used b \<noteq> {})) \<or>
    free_region_from b bits order pos = Some (- ENOMEM, b) \<and>
      (\<forall>q. pos \<le> q \<and> fits bits q order \<longrightarrow> region q order \<inter> used b \<noteq> {}) \<or>
    free_region_from b bits order pos = None \<and> 2 ^ 31 \<le> bits + 2 ^ order"
  using assms
proof (induction b bits order pos rule: free_region_from.induct)
  case (1 b bits order pos)
  consider "31 \<le> order" | "int (pos + 2 ^ order) > INT_MAX" | "order < 31" "\<not> int (pos + 2 ^ order) > INT_MAX" by linarith
  then show ?case
  proof cases
    case 1
    then have "(2 :: nat) ^ 31 \<le> 2 ^ order" by (intro power_increasing) simp_all
    then show ?thesis using 1 by (subst free_region_from.simps) (simp add: region_size_def)
  next
    case 2
    then have "2147483648 \<le> pos + 2 ^ order" unfolding INT_MAX_def by linarith
    then have "2 ^ 31 \<le> bits + 2 ^ order" using "1.prems"(3) by simp
    then show ?thesis using 2 by (subst free_region_from.simps) (simp add: region_size_def)
  next
    case small: 3
    then have size: "region_size order = Some (2 ^ order)" by (simp add: region_size_def)
    show ?thesis
    proof (cases "pos + 2 ^ order \<le> bits")
      case False
      then have "\<not> (pos \<le> q \<and> fits bits q order)" for q by (auto simp: fits_def)
      moreover have "free_region_from b bits order pos = Some (- ENOMEM, b)"
        using False small size by (subst free_region_from.simps) simp
      ultimately show ?thesis by blast
    next
      case True
      then have room: "pos + 2 ^ order \<le> 64 * length b" using "1.prems"(1) by linarith
      note free = reg_op_isfree [OF "1.prems"(2) room small(1)]
      show ?thesis
      proof (cases "\<exists>i \<in> region pos order. bm_bit b i")
        case used: True
        let ?fin = "pos + 2 ^ order"
        have step: "free_region_from b bits order pos = free_region_from b bits order ?fin"
          using True free used small size by (subst free_region_from.simps) (simp add: Let_def)
        have al: "2 ^ order dvd ?fin" using "1.prems"(2) by simp
        have next_pos: "?fin \<le> q" if "pos \<le> q" "fits bits q order" "q \<noteq> pos" for q
        proof -
          have "2 ^ order dvd q - pos" using that "1.prems"(2) by (simp add: fits_def)
          then have "2 ^ order \<le> q - pos" using that(1,3) by (intro dvd_imp_le) simp_all
          then show ?thesis using that(1) by linarith
        qed
        have here: "region pos order \<inter> used b \<noteq> {}" using used used_disjoint by blast
        have skip: "region q order \<inter> used b \<noteq> {}"
          if "pos \<le> q" "fits bits q order" "?fin \<le> q \<longrightarrow> region q order \<inter> used b \<noteq> {}" for q
          using next_pos [OF that(1,2)] here that(3) by (cases "q = pos") simp_all
        have IH: "(\<exists>p b'. free_region_from b bits order ?fin = Some (int p, b') \<and> ?fin \<le> p \<and> fits bits p order \<and>
            region p order \<inter> used b = {} \<and> length b' = length b \<and> used b' = used b \<union> region p order \<and>
            (\<forall>q. ?fin \<le> q \<and> q < p \<and> fits bits q order \<longrightarrow> region q order \<inter> used b \<noteq> {})) \<or>
          free_region_from b bits order ?fin = Some (- ENOMEM, b) \<and>
            (\<forall>q. ?fin \<le> q \<and> fits bits q order \<longrightarrow> region q order \<inter> used b \<noteq> {}) \<or>
          free_region_from b bits order ?fin = None \<and> 2 ^ 31 \<le> bits + 2 ^ order"
          using "1.IH" [OF size refl small(2) True free refl if_P [OF used] "1.prems"(1) al True] .
        then show ?thesis
        proof (elim disjE exE conjE)
          fix p b'
          assume "free_region_from b bits order ?fin = Some (int p, b')" "?fin \<le> p" "fits bits p order"
            "region p order \<inter> used b = {}" "length b' = length b" "used b' = used b \<union> region p order"
            "\<forall>q. ?fin \<le> q \<and> q < p \<and> fits bits q order \<longrightarrow> region q order \<inter> used b \<noteq> {}"
          then show ?thesis unfolding step using skip by (intro disjI1 exI [of _ p] exI [of _ b']) auto
        next
          assume "free_region_from b bits order ?fin = Some (- ENOMEM, b)"
            "\<forall>q. ?fin \<le> q \<and> fits bits q order \<longrightarrow> region q order \<inter> used b \<noteq> {}"
          then show ?thesis unfolding step using skip by blast
        qed (unfold step, blast)
      next
        case unused: False
        obtain b' where b': "do_reg_op b pos order REG_OP_ALLOC = Some (0, b')" "length b' = length b"
            "\<forall>i. bm_bit b' i \<longleftrightarrow> i \<in> region pos order \<or> bm_bit b i"
          using reg_op_alloc [OF "1.prems"(2) room small(1)] by blast
        have "free_region_from b bits order pos = Some (int pos, b')"
          using True free unused b'(1) small size by (subst free_region_from.simps) (simp add: Let_def)
        moreover have "used b' = used b \<union> region pos order" using b'(3) by (auto simp: used_def)
        moreover have "region pos order \<inter> used b = {}" using unused used_disjoint by blast
        moreover have "fits bits pos order" using True "1.prems"(2) small by (simp add: fits_def)
        ultimately show ?thesis using b'(2) by (intro disjI1 exI [of _ pos] exI [of _ b']) auto
      qed
    qed
  qed
qed

lemma fits_backed: "backed b bits \<Longrightarrow> fits bits pos order \<Longrightarrow> 2 ^ order dvd pos \<and> pos + 2 ^ order \<le> 64 * length b \<and> order < 31"
  by (auto simp: fits_def)

lemma release_region_eq:
  assumes "backed b bits" "fits bits pos order"
  shows "\<exists>b'. bitmap_release_region b pos order = Some b' \<and> length b' = length b \<and> used b' = used b - region pos order"
  using reg_op_release [of order pos b] fits_backed [OF assms] by (auto simp: bitmap_release_region_def used_def)

lemma allocate_region_eq:
  assumes "backed b bits" "fits bits pos order"
  shows "if region pos order \<inter> used b = {}
    then \<exists>b'. bitmap_allocate_region b pos order = Some (0, b') \<and> length b' = length b \<and> used b' = used b \<union> region pos order
    else bitmap_allocate_region b pos order = Some (- EBUSY, b)"
proof -
  note f = fits_backed [OF assms]
  obtain b' where "do_reg_op b pos order REG_OP_ALLOC = Some (0, b')" "length b' = length b"
      "\<forall>i. bm_bit b' i \<longleftrightarrow> i \<in> region pos order \<or> bm_bit b i"
    using reg_op_alloc f by blast
  then show ?thesis
    using reg_op_isfree [of order pos b] f unfolding used_disjoint
    by (auto simp: bitmap_allocate_region_def used_def)
qed


section \<open>The contract of the allocator\<close>

text \<open>
  What a client of \<^verbatim>\<open>bitmap_find_free_region()\<close> and \<^verbatim>\<open>bitmap_release_region()\<close> relies on, with the
  memory abstracted to the set of the allocated positions.
\<close>

locale region_allocator =
  fixes find :: "'m \<Rightarrow> nat \<Rightarrow> (int \<times> 'm) option"
    and release :: "'m \<Rightarrow> nat \<Rightarrow> nat \<Rightarrow> 'm option"
    and alloc_set :: "'m \<Rightarrow> nat set"
    and ok :: "'m \<Rightarrow> bool"
    and inside :: "nat \<Rightarrow> nat \<Rightarrow> bool"
    and small :: "nat \<Rightarrow> bool"
  assumes find_found: "ok m \<Longrightarrow> find m k = Some (r, m') \<Longrightarrow> 0 \<le> r \<Longrightarrow>
      inside (nat r) k \<and> region (nat r) k \<inter> alloc_set m = {} \<and> alloc_set m' = alloc_set m \<union> region (nat r) k \<and> ok m'"
    and find_fails: "ok m \<Longrightarrow> find m k = Some (r, m') \<Longrightarrow> r < 0 \<Longrightarrow> m' = m \<and> (\<forall>p. inside p k \<longrightarrow> region p k \<inter> alloc_set m \<noteq> {})"
    and find_defined: "ok m \<Longrightarrow> small k \<Longrightarrow> \<exists>r m'. find m k = Some (r, m')"
    and release_spec: "ok m \<Longrightarrow> inside p k \<Longrightarrow> \<exists>m'. release m p k = Some m' \<and> alloc_set m' = alloc_set m - region p k \<and> ok m'"
begin

text \<open>Two regions that are allocated one after the other do not overlap.\<close>

lemma find_twice:
  assumes "ok m" "find m k = Some (r, m')" "0 \<le> r" "find m' k' = Some (r', m'')" "0 \<le> r'"
  shows "region (nat r) k \<inter> region (nat r') k' = {}"
  using find_found [OF assms(1-3)] find_found [OF _ assms(4,5)] by blast

text \<open>Releasing what was just allocated restores the set.\<close>

lemma find_release:
  assumes "ok m" "find m k = Some (r, m')" "0 \<le> r"
  shows "\<exists>m''. release m' (nat r) k = Some m'' \<and> alloc_set m'' = alloc_set m"
  using find_found [OF assms] release_spec [of m' "nat r" k] by blast

text \<open>After a release of a region of some order, a search for that order succeeds.\<close>

lemma release_find:
  assumes "ok m" "inside p k" "release m p k = Some m'" "small k"
  shows "\<exists>r m''. find m' k = Some (r, m'') \<and> 0 \<le> r"
proof -
  have m': "ok m'" "region p k \<inter> alloc_set m' = {}" using release_spec [OF assms(1,2)] assms(3) by auto
  obtain r m'' where r: "find m' k = Some (r, m'')" using find_defined [OF m'(1) assms(4)] by blast
  then have "0 \<le> r" using find_fails [OF m'(1) r] m'(2) assms(2) by (cases "0 \<le> r") auto
  then show ?thesis using r by blast
qed

end

lemma find_free_region_cases:
  assumes "backed m bits" "bitmap_find_free_region m bits k = Some (r, m')"
  shows "0 \<le> r \<and> fits bits (nat r) k \<and> region (nat r) k \<inter> used m = {} \<and> used m' = used m \<union> region (nat r) k \<and> backed m' bits \<or>
    r = - ENOMEM \<and> m' = m \<and> (\<forall>p. fits bits p k \<longrightarrow> region p k \<inter> used m \<noteq> {})"
  using free_region_from_eq [OF assms(1), where order = k and pos = 0] assms by (auto simp: bitmap_find_free_region_def)

interpretation reg: region_allocator "\<lambda>b k. bitmap_find_free_region b bits k" bitmap_release_region used "\<lambda>b. backed b bits" "fits bits"
  "\<lambda>k. bits + 2 ^ k < 2 ^ 31" for bits
proof (unfold_locales, goal_cases)
  case (1 m k r m')
  have "r \<noteq> - ENOMEM" using 1(3) by (simp add: ENOMEM_def)
  then show ?case using find_free_region_cases [OF 1(1,2)] by blast
next
  case (2 m k r m')
  then show ?case using find_free_region_cases [OF 2(1,2)] by simp
next
  case (3 m k)
  then show ?case using free_region_from_eq [where b = m and bits = bits and order = k and pos = 0] by (auto simp: bitmap_find_free_region_def)
next
  case (4 m p k)
  then show ?case using release_region_eq by fastforce
qed

section \<open>The search for zero areas\<close>

lemma align_eq:
  assumes "x + (2 ^ a - 1) < 2 ^ 64"
  shows "unat (ALIGN_MASK (of_nat x) (of_nat (2 ^ a - 1))) = (x + (2 ^ a - 1)) div 2 ^ a * 2 ^ a"
proof -
  let ?m = "2 ^ a - 1 :: nat"
  define w where "w = (of_nat x + of_nat ?m :: ulong)"
  have w: "unat w = x + ?m"
    unfolding w_def of_nat_add [symmetric] using assms by (simp add: unat_of_nat)
  have m: "(of_nat ?m :: ulong) = mask a"
    by (simp add: mask_eq_exp_minus_1 of_nat_diff)
  have e: "w AND NOT (mask a) = push_bit a (drop_bit a w)"
    by (auto simp: bit_eq_iff bit_and_iff bit_not_iff bit_mask_iff bit_push_bit_iff bit_drop_bit_eq)
  have "unat (w AND NOT (mask a)) = take_bit 64 (push_bit a (drop_bit a (unat w)))"
  proof -
    have "take_bit 64 (unat w) = unat w" using unsigned_less [of w] by (intro take_bit_nat_eq_self) simp
    then show ?thesis unfolding e
      by (simp add: unsigned_push_bit_eq unsigned_drop_bit_eq)
  qed
  also have "push_bit a (drop_bit a (unat w)) = unat w div 2 ^ a * 2 ^ a"
    by (simp add: push_bit_eq_mult drop_bit_eq_div)
  also have "take_bit 64 (unat w div 2 ^ a * 2 ^ a) = unat w div 2 ^ a * 2 ^ a"
  proof (rule take_bit_nat_eq_self)
    have "unat w div 2 ^ a * 2 ^ a \<le> unat w" by simp
    then show "unat w div 2 ^ a * 2 ^ a < 2 ^ 64" using w assms by linarith
  qed
  finally show ?thesis unfolding ALIGN_MASK_def m [symmetric] w_def [symmetric] w .
qed


definition free_area :: "ulong list \<Rightarrow> nat \<Rightarrow> nat \<Rightarrow> bool" where
  "free_area b p nr \<longleftrightarrow> (\<forall>i. p \<le> i \<and> i < p + nr \<longrightarrow> \<not> bm_bit b i)"

lemma align_facts:
  fixes x A :: nat
  assumes "0 < A"
  shows "x \<le> (x + (A - 1)) div A * A" "A dvd (x + (A - 1)) div A * A" "x \<le> p \<Longrightarrow> A dvd p \<Longrightarrow> (x + (A - 1)) div A * A \<le> p"
    "(x + (A - 1)) div A * A \<le> x + (A - 1)"
proof -
  have "x + (A - 1) = (x + (A - 1)) div A * A + (x + (A - 1)) mod A" "(x + (A - 1)) mod A < A" using assms by simp_all
  then show "x \<le> (x + (A - 1)) div A * A" using assms by linarith
  show "A dvd (x + (A - 1)) div A * A" "(x + (A - 1)) div A * A \<le> x + (A - 1)" by simp_all
  assume "x \<le> p" "A dvd p"
  then obtain q where q: "p = q * A" by (metis dvd_def mult.commute)
  have "(x + (A - 1)) div A < Suc q"
    using \<open>x \<le> p\<close> assms unfolding q by (intro less_mult_imp_div_less) simp
  then show "(x + (A - 1)) div A * A \<le> p" unfolding q by (intro mult_le_mono1) (simp only: less_Suc_eq_le)
qed

lemma zero_area_from_eq:
  assumes "backed b n" "0 < nr" "n + 2 ^ a + nr < 2 ^ 64"
  shows "\<exists>r. zero_area_from b n start nr (2 ^ a - 1) = Some r \<and>
    (if r + nr \<le> n then start \<le> r \<and> 2 ^ a dvd r \<and> free_area b r nr \<and> (\<forall>p. start \<le> p \<and> p < r \<and> 2 ^ a dvd p \<longrightarrow> \<not> free_area b p nr)
     else n < r \<and> (\<forall>p. start \<le> p \<and> 2 ^ a dvd p \<and> p + nr \<le> n \<longrightarrow> \<not> free_area b p nr))"
proof (induction "n - start" arbitrary: start rule: less_induct)
  case less
  let ?A = "2 ^ a :: nat"
  define z where "z = next_from (\<lambda>i. \<not> bm_bit b i) n start"
  define x where "x = (z + (?A - 1)) div ?A * ?A"
  have A: "0 < ?A" by simp
  note al = align_facts [OF A, of z, folded x_def]
  have "z \<le> n" unfolding z_def by (rule next_from_le)
  then have lt: "z + (?A - 1) < 2 ^ 64" "(x + nr) mod 2 ^ 64 = x + nr" using al(4) assms(3) by simp_all
  have cand: "x \<le> p" if "start \<le> p" "?A dvd p" "p + nr \<le> n" "free_area b p nr" for p
  proof -
    have "\<not> bm_bit b p" using that(4) assms(2) by (simp add: free_area_def)
    then have "z \<le> p" unfolding z_def using that(1) next_from_skips [of start p "\<lambda>i. \<not> bm_bit b i" n] by (meson not_le)
    then show ?thesis using al(3) that(2) by blast
  qed
  have step: "zero_area_from b n start nr (?A - 1) =
      (if x + nr > n then Some (x + nr) else do {
         i \<leftarrow> find_next_bit b (x + nr) x;
         if i < x + nr then zero_area_from b n ((i + 1) mod 2 ^ 64) nr (?A - 1) else Some x })"
    unfolding zero_area_from.simps [of b n start] find_next_zero_bit_eq [OF assms(1)] z_def [symmetric] bind.bind_lunit
      align_eq [OF lt(1)] x_def [symmetric] Let_def lt(2) ..
  show ?case
  proof (cases "x + nr > n")
    case True
    have "\<not> free_area b p nr" if "start \<le> p" "?A dvd p" "p + nr \<le> n" for p
      using cand [OF that] True that(3) by linarith
    then show ?thesis using step True by (intro exI [of _ "x + nr"]) simp
  next
    case False
    then have xn: "x + nr \<le> n" by simp
    then have z: "z < n" "start \<le> z" using al(1) assms(2) next_from_lower [of start n] next_from_ge [of n start]
      unfolding z_def by (linarith, cases "start \<le> n", simp_all)
    define i where "i = next_from (bm_bit b) (x + nr) x"
    have fnb: "find_next_bit b (x + nr) x = Some i" unfolding i_def using assms(1) xn by (intro find_next_bit_eq) linarith
    show ?thesis
    proof (cases "i < x + nr")
      case hit: True
      have i: "bm_bit b i" "x \<le> i" using hit next_from_holds [of "bm_bit b" "x + nr" x] next_from_lower [of x "x + nr"] by (simp_all add: i_def)
      have m: "(i + 1) mod 2 ^ 64 = i + 1" using hit xn assms(3) by simp
      have "n - (i + 1) < n - start" using z i(2) al(1) by linarith
      then obtain r where r: "zero_area_from b n (i + 1) nr (?A - 1) = Some r"
          "if r + nr \<le> n then i + 1 \<le> r \<and> ?A dvd r \<and> free_area b r nr \<and> (\<forall>p. i + 1 \<le> p \<and> p < r \<and> ?A dvd p \<longrightarrow> \<not> free_area b p nr)
           else n < r \<and> (\<forall>p. i + 1 \<le> p \<and> ?A dvd p \<and> p + nr \<le> n \<longrightarrow> \<not> free_area b p nr)"
        using less by blast
      have later: "i + 1 \<le> p" if "start \<le> p" "?A dvd p" "p + nr \<le> n" "free_area b p nr" for p
      proof (rule ccontr)
        assume "\<not> i + 1 \<le> p"
        then have "p \<le> i \<and> i < p + nr" using cand [OF that] hit by linarith
        then show False using that(4) i(1) by (simp add: free_area_def)
      qed
      have eq: "zero_area_from b n start nr (?A - 1) = Some r" using step False fnb hit r(1) m by simp
      show ?thesis
      proof (cases "r + nr \<le> n")
        case True
        have "\<not> free_area b p nr" if "start \<le> p" "p < r" "?A dvd p" for p
          using later [OF that(1,3)] that r(2) True by fastforce
        moreover have "start \<le> r" using r(2) True i(2) z(2) al(1) by simp
        ultimately show ?thesis using eq r(2) True by (intro exI [of _ r]) simp
      next
        case False
        then have "n < r" "\<not> free_area b p nr" if "start \<le> p" "?A dvd p" "p + nr \<le> n" for p
          using r(2) later [OF that] that by auto
        then show ?thesis using eq r(2) False by (intro exI [of _ r]) simp
      qed
    next
      case miss: False
      have "\<not> bm_bit b j" if "x \<le> j" "j < x + nr" for j
        using next_from_skips [of x j "bm_bit b" "x + nr"] miss that next_from_le [of "bm_bit b" "x + nr" x] unfolding i_def by simp
      then have "free_area b x nr" by (simp add: free_area_def)
      moreover have "\<not> free_area b p nr" if "start \<le> p" "p < x" "?A dvd p" for p
        using cand [OF that(1,3)] that(2) xn by fastforce
      moreover have "zero_area_from b n start nr (?A - 1) = Some x" using step False fnb miss by simp
      moreover have "start \<le> x" using al(1) z(2) by linarith
      ultimately show ?thesis using xn al(2) by (intro exI [of _ x]) simp
    qed
  qed
qed

end
