(* ===== verification/Bitmap_Map.thy ===== *)
theory Bitmap_Map
  imports Bitmap_Inline
begin

text \<open>
The maps between bitmaps of \<^verbatim>\<open>bitmap.c\<close>: \<^verbatim>\<open>bitmap_pos_to_ord()\<close>, \<^verbatim>\<open>bitmap_ord_to_pos()\<close>,
  \<^verbatim>\<open>bitmap_remap()\<close>, \<^verbatim>\<open>bitmap_bitremap()\<close>, \<^verbatim>\<open>bitmap_onto()\<close> and \<^verbatim>\<open>bitmap_fold()\<close>.
  The source of a map is an operand, \<open>Dst\<close> when it is the destination itself; the other arrays are
  distinct from the destination. The n-th set bit is the n-th element of \<open>positions\<close>, the increasing list of
  the set bits, and \<open>ordinal\<close> is its inverse.
\<close>

section \<open>Ordinals and positions\<close>

partial_function (option) pos_to_ord_loop :: "ulong list \<Rightarrow> nat \<Rightarrow> nat \<Rightarrow> nat \<Rightarrow> nat \<Rightarrow> nat option" where
  "pos_to_ord_loop buf bits pos i ord =
     (if i < pos then do { i \<leftarrow> find_next_bit buf bits (i + 1); pos_to_ord_loop buf bits pos i (ord + 1) }
      else Some ord)"

definition bitmap_pos_to_ord :: "ulong list \<Rightarrow> int \<Rightarrow> nat \<Rightarrow> int option" where
  "bitmap_pos_to_ord buf pos bits =
     (if pos < 0 \<or> pos \<ge> int bits then Some (-1)
      else do {
        t \<leftarrow> test_bit (nat pos) buf;
        if \<not> t then Some (-1)
        else do {
          i \<leftarrow> find_first_bit buf bits;
          ord \<leftarrow> pos_to_ord_loop buf bits (nat pos) i 0;
          Some (int ord) } })"

fun ord_to_pos_loop :: "ulong list \<Rightarrow> nat \<Rightarrow> nat \<Rightarrow> nat \<Rightarrow> (nat \<times> nat) option" where
  "ord_to_pos_loop buf bits i 0 = Some (i, 0)"
| "ord_to_pos_loop buf bits i (Suc ord) =
     (if i < bits then do { i \<leftarrow> find_next_bit buf bits (i + 1); ord_to_pos_loop buf bits i ord }
      else Some (i, Suc ord))"

definition bitmap_ord_to_pos :: "ulong list \<Rightarrow> int \<Rightarrow> nat \<Rightarrow> nat option" where
  "bitmap_ord_to_pos buf ord bits =
     (if ord \<ge> 0 \<and> ord < int bits then do {
        i \<leftarrow> find_first_bit buf bits;
        (i, ord) \<leftarrow> ord_to_pos_loop buf bits i (nat ord);
        Some (if i < bits \<and> ord = 0 then i else 0) }
      else Some 0)"

section \<open>Mapping bitmaps\<close>

text \<open>The bit loops write \<open>dst\<close> while they read \<open>src\<close>; when the two are the same array the code returns at once.\<close>

fun bitmap_remap :: "ulong list \<Rightarrow> operand \<Rightarrow> ulong list \<Rightarrow> ulong list \<Rightarrow> nat \<Rightarrow> ulong list option" where
  "bitmap_remap dst Dst old new bits = Some dst"
| "bitmap_remap dst (Arr src) old new bits = do {
     dst \<leftarrow> bitmap_zero False dst bits;
     w \<leftarrow> bitmap_weight False new bits;
     for_each_set_bit (\<lambda>oldbit dst. do {
         n \<leftarrow> bitmap_pos_to_ord old (int oldbit) bits;
         if n < 0 \<or> w = 0 then set_bit_x86 oldbit dst
         else do { p \<leftarrow> bitmap_ord_to_pos new (n mod int w) bits; set_bit_x86 p dst } }) src bits dst }"

definition bitmap_bitremap :: "int \<Rightarrow> ulong list \<Rightarrow> ulong list \<Rightarrow> nat \<Rightarrow> int option" where
  "bitmap_bitremap oldbit old new bits = do {
     w \<leftarrow> bitmap_weight False new bits;
     n \<leftarrow> bitmap_pos_to_ord old oldbit bits;
     if n < 0 \<or> w = 0 then Some oldbit
     else do { p \<leftarrow> bitmap_ord_to_pos new (n mod int w) bits; Some (int p) } }"

definition onto_step :: "ulong list \<Rightarrow> nat \<Rightarrow> ulong list \<times> nat \<Rightarrow> (ulong list \<times> nat) option" where
  "onto_step orig = (\<lambda>n (dst, m). do {
     t \<leftarrow> test_bit m orig;
     dst \<leftarrow> (if t then set_bit_x86 n dst else Some dst);
     Some (dst, m + 1) })"

fun bitmap_onto :: "ulong list \<Rightarrow> operand \<Rightarrow> ulong list \<Rightarrow> nat \<Rightarrow> ulong list option" where
  "bitmap_onto dst Dst relmap bits = Some dst"
| "bitmap_onto dst (Arr orig) relmap bits = do {
     dst \<leftarrow> bitmap_zero False dst bits;
     (dst, m) \<leftarrow> for_each_set_bit (onto_step orig) relmap bits (dst, 0);
     Some dst }"

text \<open>\<open>oldbit % sz\<close> is undefined for \<open>sz = 0\<close>.\<close>

fun bitmap_fold :: "ulong list \<Rightarrow> operand \<Rightarrow> nat \<Rightarrow> nat \<Rightarrow> ulong list option" where
  "bitmap_fold dst Dst sz bits = Some dst"
| "bitmap_fold dst (Arr orig) sz bits = do {
     dst \<leftarrow> bitmap_zero False dst bits;
     for_each_set_bit (\<lambda>oldbit dst. if sz = 0 then None else set_bit_x86 (oldbit mod sz) dst) orig bits dst }"

section \<open>The set bits in order\<close>

definition positions :: "ulong list \<Rightarrow> nat \<Rightarrow> nat list" where
  "positions b n = filter (bm_bit b) [0..<n]"

lemma positions_facts:
  "set (positions b n) = bm_set b n" "distinct (positions b n)" "sorted (positions b n)" "length (positions b n) = card (bm_set b n)"
proof -
  show s: "set (positions b n) = bm_set b n" and d: "distinct (positions b n)" and "sorted (positions b n)"
    by (auto simp: positions_def bm_set_def sorted_wrt_filter)
  show "length (positions b n) = card (bm_set b n)" using distinct_card [OF d] s by simp
qed

lemma positions_nth: "k < card (bm_set b n) \<Longrightarrow> positions b n ! k < n \<and> bm_bit b (positions b n ! k)"
  using nth_mem [of k "positions b n"] positions_facts [of b n] by auto

text \<open>The ordinal of a position: the number of set bits before it.\<close>

definition ordinal :: "ulong list \<Rightarrow> nat \<Rightarrow> nat" where
  "ordinal b p = card (bm_set b p)"

lemma positions_split:
  assumes "bm_bit b p" "p < n"
  shows "positions b n = positions b p @ p # filter (bm_bit b) [Suc p..<n]"
proof -
  have "[0..<n] = [0..<p] @ p # [Suc p..<n]" using assms(2) upt_add_eq_append [of 0 p "n - p"] upt_conv_Cons [of p n] by simp
  then show ?thesis using assms(1) by (simp add: positions_def)
qed

lemma positions_ordinal:
  assumes "bm_bit b p" "p < n"
  shows "ordinal b p < card (bm_set b n)" "positions b n ! ordinal b p = p"
proof -
  note s = positions_split [OF assms]
  have l: "length (positions b p) = ordinal b p" by (simp add: ordinal_def positions_facts)
  have "length (positions b n) = Suc (ordinal b p + length (filter (bm_bit b) [Suc p..<n]))" unfolding s using l by simp
  then show "ordinal b p < card (bm_set b n)" unfolding positions_facts(4) by simp
  show "positions b n ! ordinal b p = p" unfolding s using l by (simp add: nth_append)
qed

lemma ordinal_positions: "k < card (bm_set b n) \<Longrightarrow> ordinal b (positions b n ! k) = k"
proof -
  assume k: "k < card (bm_set b n)"
  note p = positions_nth [OF k]
  then have "positions b n ! ordinal b (positions b n ! k) = positions b n ! k" "ordinal b (positions b n ! k) < card (bm_set b n)"
    using positions_ordinal by blast+
  then show ?thesis using k positions_facts(2,4) [of b n] by (simp add: nth_eq_iff_index_eq)
qed

section \<open>What the searches compute\<close>

lemma pos_to_ord_loop_eq:
  assumes "backed b n" "bm_bit b pos" "pos < n" "i = next_from (bm_bit b) n j" "j \<le> pos"
  shows "pos_to_ord_loop b n pos i ord = Some (ord + length (filter (bm_bit b) [j..<pos]))"
  using assms(4,5)
proof (induction "pos - j" arbitrary: i j ord rule: less_induct)
  case less
  have le: "i \<le> pos" using less.prems next_from_skips [of j pos "bm_bit b" n] assms(2) by (meson not_le)
  have ji: "j \<le> i" using less.prems next_from_lower [of j n "bm_bit b"] assms(3) by simp
  have none: "filter (bm_bit b) [j..<i] = []"
    using less.prems(1) next_from_skips [of j _ "bm_bit b" n] by (simp add: filter_empty_conv)
  show ?case
  proof (cases "i = pos")
    case True
    then show ?thesis using none by (simp add: pos_to_ord_loop.simps)
  next
    case False
    then have lt: "i < pos" using le by simp
    have hit: "bm_bit b i" using next_from_holds [of "bm_bit b" n j] less.prems(1) lt assms(3) by simp
    have f: "find_next_bit b n (i + 1) = Some (next_from (bm_bit b) n (i + 1))" using assms(1) by (rule find_next_bit_eq)
    have IH: "pos_to_ord_loop b n pos (next_from (bm_bit b) n (i + 1)) (ord + 1) = Some (ord + 1 + length (filter (bm_bit b) [i + 1..<pos]))"
      by (rule less.hyps) (use lt ji in auto)
    have "[j..<pos] = [j..<i] @ i # [i + 1..<pos]"
      using lt ji upt_add_eq_append [of j i "pos - i"] upt_conv_Cons [of i pos] by simp
    then have "length (filter (bm_bit b) [j..<pos]) = 1 + length (filter (bm_bit b) [i + 1..<pos])"
      using none hit by simp
    then show ?thesis using lt f IH by (subst pos_to_ord_loop.simps) simp
  qed
qed

lemma pos_to_ord_eq:
  assumes "backed b n"
  shows "bitmap_pos_to_ord b (int p) n = Some (if p < n \<and> bm_bit b p then int (ordinal b p) else -1)"
proof (cases "p < n \<and> bm_bit b p")
  case True
  have "pos_to_ord_loop b n p (next_from (bm_bit b) n 0) 0 = Some (ordinal b p)"
    using pos_to_ord_loop_eq [OF assms _ _ refl, of p 0 0] True positions_facts(4) [of b p]
    by (simp add: ordinal_def positions_def)
  then show ?thesis using True assms by (simp add: bitmap_pos_to_ord_def test_bit_eq find_first_bit_eq)
next
  case False
  then show ?thesis using assms by (auto simp: bitmap_pos_to_ord_def test_bit_eq)
qed

lemma ord_to_pos_loop_eq:
  assumes "backed b n" "i = next_from (bm_bit b) n j"
  shows "ord_to_pos_loop b n i k =
    (let L = filter (bm_bit b) [j..<n] in if k < length L then Some (L ! k, 0) else Some (n, k - length L))"
  using assms(2)
proof (induction k arbitrary: i j)
  case 0
  then show ?case using filter_upt_next_from [of "bm_bit b" j n] next_from_le [of "bm_bit b" n j] by (auto simp: Let_def)
next
  case (Suc k)
  show ?case
  proof (cases "i < n")
    case True
    have "find_next_bit b n (i + 1) = Some (next_from (bm_bit b) n (i + 1))" using assms(1) by (rule find_next_bit_eq)
    then show ?thesis
      using True Suc.IH [OF refl, of "i + 1"] filter_upt_next_from [of "bm_bit b" j n] Suc.prems by (simp add: Let_def)
  next
    case False
    then have "i = n" using next_from_le [of "bm_bit b" n j] Suc.prems by simp
    then show ?thesis using filter_upt_next_from [of "bm_bit b" j n] Suc.prems by simp
  qed
qed

lemma card_bm_set_le: "card (bm_set b n) \<le> n"
  using card_mono [of "{..<n}" "bm_set b n"] bm_set_subset by simp

lemma ord_to_pos_eq:
  assumes "backed b n"
  shows "bitmap_ord_to_pos b (int k) n = Some (if k < card (bm_set b n) then positions b n ! k else 0)"
proof -
  have len: "length (filter (bm_bit b) [0..<n]) = card (bm_set b n)" using positions_facts(4) [of b n] by (simp add: positions_def)
  show ?thesis
    using ord_to_pos_loop_eq [OF assms refl, of 0 k] card_bm_set_le [of b n] positions_nth [of k b n] assms
    by (auto simp: bitmap_ord_to_pos_def find_first_bit_eq len Let_def positions_def)
qed


section \<open>What the maps do\<close>

text \<open>A loop over the set bits of \<open>src\<close> that sets the bit \<open>f p\<close> for every \<open>p\<close>.\<close>

lemma set_image_loop:
  assumes "backed dst n" "backed src n"
    and "\<And>p d. p < n \<Longrightarrow> bm_bit src p \<Longrightarrow> body p d = set_bit_x86 (f p) d" "\<And>p. p < n \<Longrightarrow> bm_bit src p \<Longrightarrow> f p < n"
  shows "\<exists>d. do { d \<leftarrow> bitmap_zero False dst n; for_each_set_bit body src n d } = Some d \<and> length d = length dst \<and>
    bm_set d n = f ` bm_set src n"
proof -
  obtain d0 where d0: "bitmap_zero False dst n = Some d0" "length d0 = length dst" "\<forall>i < 64 * BITS_TO_LONGS n. \<not> bm_bit d0 i"
    using bitmap_zero_eq [OF assms(1), of False] by auto
  have "for_each_set_bit body src n d0 = fold_opt body (positions src n) d0"
    using for_each_set_bit_eq [OF assms(2)] by (simp add: positions_def)
  also have "\<dots> = fold_opt (\<lambda>p. set_bit_x86 (f p)) (positions src n) d0"
    by (rule fold_opt_cong) (use assms(3) positions_facts(1) in auto)
  also have "\<dots> = fold_opt set_bit_x86 (map f (positions src n)) d0" by (simp add: fold_opt_map)
  finally have loop: "for_each_set_bit body src n d0 = fold_opt set_bit_x86 (map f (positions src n)) d0" .
  have "\<forall>i \<in> set (map f (positions src n)). i < 64 * length d0"
    using assms(1,4) d0(2) positions_facts(1) [of src n] by fastforce
  from store_x86.fold_ins [OF this] obtain d where d: "fold_opt set_bit_x86 (map f (positions src n)) d0 = Some d"
      "length d = length d0" "\<forall>j. bm_bit d j \<longleftrightarrow> j \<in> set (map f (positions src n)) \<or> bm_bit d0 j" by blast
  have "bm_set d n = f ` bm_set src n"
    using d(3) d0(3) longs_le [of n] assms(4) positions_facts(1) [of src n] by (auto simp: bm_set_def)
  then show ?thesis using d0 d loop by simp
qed

definition remap_pos :: "ulong list \<Rightarrow> ulong list \<Rightarrow> nat \<Rightarrow> nat \<Rightarrow> nat" where
  "remap_pos old new n p =
     (if p < n \<and> bm_bit old p \<and> bm_set new n \<noteq> {} then positions new n ! (ordinal old p mod card (bm_set new n)) else p)"

lemma remap_pos_less: "p < n \<Longrightarrow> remap_pos old new n p < n"
  using positions_nth [of _ new n] by (simp add: remap_pos_def card_gt_0_iff)

lemma weight_eq: "backed b n \<Longrightarrow> bitmap_weight False b n = Some (card (bm_set b n))"
  by (simp add: bitmap_weight_def small_const_nbits_def bitmap_weight_eq)

lemma ord_to_pos_mod:
  assumes "backed new n" "bm_set new n \<noteq> {}"
  shows "bitmap_ord_to_pos new (int k mod int (card (bm_set new n))) n = Some (positions new n ! (k mod card (bm_set new n)))"
  using ord_to_pos_eq [OF assms(1), of "k mod card (bm_set new n)"] assms(2) by (simp add: zmod_int card_gt_0_iff)

lemma remap_eq:
  assumes "backed dst n" "backed src n" "backed old n" "backed new n"
  shows "\<exists>d. bitmap_remap dst (Arr src) old new n = Some d \<and> length d = length dst \<and> bm_set d n = remap_pos old new n ` bm_set src n"
proof -
  have "(do { k \<leftarrow> bitmap_pos_to_ord old (int p) n;
         if k < 0 \<or> card (bm_set new n) = 0 then set_bit_x86 p d
         else do { q \<leftarrow> bitmap_ord_to_pos new (k mod int (card (bm_set new n))) n; set_bit_x86 q d } }) = set_bit_x86 (remap_pos old new n p) d"
    if "p < n" "bm_bit src p" for p d
    using that by (simp add: pos_to_ord_eq [OF assms(3)] remap_pos_def ord_to_pos_mod [OF assms(4)])
  from set_image_loop [OF assms(1,2) this remap_pos_less] show ?thesis
    by (simp add: weight_eq [OF assms(4)])
qed

lemma bitremap_eq:
  assumes "backed old n" "backed new n"
  shows "bitmap_bitremap (int p) old new n = Some (int (remap_pos old new n p))"
  using assms by (simp add: bitmap_bitremap_def weight_eq pos_to_ord_eq remap_pos_def ord_to_pos_mod)

lemma fold_eq:
  assumes "backed dst n" "backed orig n" "0 < sz" "sz \<le> n"
  shows "\<exists>d. bitmap_fold dst (Arr orig) sz n = Some d \<and> length d = length dst \<and> bm_set d n = (\<lambda>p. p mod sz) ` bm_set orig n"
proof -
  have "(if sz = 0 then None else set_bit_x86 (p mod sz) d) = set_bit_x86 (p mod sz) d" for p d using assms(3) by simp
  moreover have "p mod sz < n" for p using assms(3,4) by (meson mod_less_divisor less_le_trans)
  ultimately show ?thesis using set_image_loop [OF assms(1,2), of "\<lambda>p d. if sz = 0 then None else set_bit_x86 (p mod sz) d" "\<lambda>p. p mod sz"] by simp
qed

lemma onto_loop:
  assumes "\<forall>p \<in> set ps. p < 64 * length d" "m + length ps \<le> 64 * length orig"
  shows "\<exists>d'. fold_opt (onto_step orig) ps (d, m) = Some (d', m + length ps) \<and> length d' = length d \<and>
    (\<forall>j. bm_bit d' j \<longleftrightarrow> bm_bit d j \<or> (\<exists>k < length ps. j = ps ! k \<and> bm_bit orig (m + k)))"
  using assms
proof (induction ps arbitrary: d m)
  case (Cons p ps)
  have "\<exists>d1. (if bm_bit orig m then set_bit_x86 p d else Some d) = Some d1 \<and> length d1 = length d \<and>
      (\<forall>j. bm_bit d1 j \<longleftrightarrow> bm_bit d j \<or> j = p \<and> bm_bit orig m)"
  proof (cases "bm_bit orig m")
    case True
    obtain d1 where "set_bit_x86 p d = Some d1" "length d1 = length d" "\<And>j. bm_bit d1 j \<longleftrightarrow> j = p \<or> bm_bit d j"
      using Cons.prems(1) by (metis list.set_intros(1) store_x86.ins_ok)
    then show ?thesis using True by auto
  qed simp
  then obtain d1 where d1: "(if bm_bit orig m then set_bit_x86 p d else Some d) = Some d1" "length d1 = length d"
      "\<forall>j. bm_bit d1 j \<longleftrightarrow> bm_bit d j \<or> j = p \<and> bm_bit orig m" by blast
  obtain d' where d': "fold_opt (onto_step orig) ps (d1, m + 1) = Some (d', m + 1 + length ps)" "length d' = length d1"
      "\<forall>j. bm_bit d' j \<longleftrightarrow> bm_bit d1 j \<or> (\<exists>k < length ps. j = ps ! k \<and> bm_bit orig (m + 1 + k))"
    using Cons.IH [of d1 "m + 1"] Cons.prems d1(2) by auto
  have "(\<exists>k < length (p # ps). j = (p # ps) ! k \<and> bm_bit orig (m + k)) \<longleftrightarrow>
      j = p \<and> bm_bit orig m \<or> (\<exists>k < length ps. j = ps ! k \<and> bm_bit orig (m + 1 + k))" for j
    by (auto simp: less_Suc_eq_0_disj)
  moreover have "onto_step orig p (d, m) = Some (d1, m + 1)"
    using d1(1) Cons.prems(2) by (simp add: onto_step_def test_bit_eq)
  ultimately show ?case using d1(2,3) d' by (intro exI [of _ d']) auto
qed simp

lemma onto_eq:
  assumes "backed dst n" "backed orig n" "backed relmap n"
  shows "\<exists>d. bitmap_onto dst (Arr orig) relmap n = Some d \<and> length d = length dst \<and>
    bm_set d n = {positions relmap n ! m |m. m < card (bm_set relmap n) \<and> bm_bit orig m}"
proof -
  obtain d0 where d0: "bitmap_zero False dst n = Some d0" "length d0 = length dst" "\<forall>i < 64 * BITS_TO_LONGS n. \<not> bm_bit d0 i"
    using bitmap_zero_eq [OF assms(1), of False] by auto
  note pos = positions_facts(1,4) [of relmap n]
  have "\<forall>p \<in> set (positions relmap n). p < 64 * length d0" "0 + length (positions relmap n) \<le> 64 * length orig"
    using pos assms(1,2) d0(2) card_bm_set_le [of relmap n] by auto
  from onto_loop [OF this] obtain d where d: "fold_opt (onto_step orig) (positions relmap n) (d0, 0) = Some (d, 0 + length (positions relmap n))" "length d = length d0"
    "\<forall>j. bm_bit d j \<longleftrightarrow> bm_bit d0 j \<or> (\<exists>k < length (positions relmap n). j = positions relmap n ! k \<and> bm_bit orig (0 + k))"
    by blast
  have "bm_set d n = {positions relmap n ! m |m. m < card (bm_set relmap n) \<and> bm_bit orig m}"
    using d(3) d0(3) longs_le [of n] positions_nth [of _ relmap n] unfolding pos(2) by (auto simp: bm_set_def)
  moreover have "bitmap_onto dst (Arr orig) relmap n = Some d"
    using d0(1) d(1) by (simp add: for_each_set_bit_eq [OF assms(3)] positions_def)
  ultimately show ?thesis using d(2) d0(2) by (intro exI [of _ d]) simp
qed

text \<open>Folding by the weight of \<open>relmap\<close> first makes the result non-empty.\<close>

lemma fold_onto_nonempty:
  assumes "backed tmp n" "backed dst n" "backed orig n" "backed relmap n" "bm_set orig n \<noteq> {}" "bm_set relmap n \<noteq> {}"
  shows "\<exists>t d. bitmap_fold tmp (Arr orig) (card (bm_set relmap n)) n = Some t \<and> bitmap_onto dst (Arr t) relmap n = Some d \<and>
    bm_set d n = (\<lambda>p. positions relmap n ! (p mod card (bm_set relmap n))) ` bm_set orig n"
proof -
  let ?w = "card (bm_set relmap n)"
  have w: "0 < ?w" "?w \<le> n" using assms(6) card_bm_set_le by (auto simp: card_gt_0_iff)
  obtain t where t: "bitmap_fold tmp (Arr orig) ?w n = Some t" "length t = length tmp" "bm_set t n = (\<lambda>p. p mod ?w) ` bm_set orig n"
    using fold_eq [OF assms(1,3) w] by blast
  obtain d where d: "bitmap_onto dst (Arr t) relmap n = Some d"
      "bm_set d n = {positions relmap n ! m |m. m < ?w \<and> bm_bit t m}"
    using onto_eq [where dst = dst and n = n and orig = t and relmap = relmap] assms(1,2,4) t(2) by auto
  have "m < ?w \<and> bm_bit t m \<longleftrightarrow> m \<in> (\<lambda>p. p mod ?w) ` bm_set orig n" for m
    unfolding t(3) [symmetric] using w t(3) by (auto simp: bm_set_def)
  then show ?thesis using t(1) d by (auto simp: image_image)
qed

end
