(* ===== verification/Bitmap_Contract.thy ===== *)
theory Bitmap_Contract
  imports Bitmap_Inline Bitmap_Region Bitmap_Map Bitmap_Hex
begin

text \<open>
What the bitmap functions promise, stated over the sets that bitmaps stand for: a bitmap \<open>m\<close> of \<open>n\<close> bits is the set
  \<open>bm_set m n\<close> of the numbers below \<open>n\<close> whose bits are set. The theorems put together the lemmas of the component
  theories; every theorem is applied to a concrete bitmap at the end.
\<close>

section \<open>Bitmaps as sets\<close>

text \<open>What an update leaves: the set, the length, and the bits behind the last word of the bitmap.\<close>

definition sets :: "ulong list \<Rightarrow> nat \<Rightarrow> nat set \<Rightarrow> ulong list \<Rightarrow> bool" where
  "sets dst n S d \<longleftrightarrow> bm_set d n = S \<and> length d = length dst \<and> (\<forall>i \<ge> 64 * BITS_TO_LONGS n. bm_bit d i = bm_bit dst i)"

lemma frame_sets: "frame_bits dst d n P \<Longrightarrow> S = {i. i < n \<and> P i} \<Longrightarrow> sets dst n S d"
  by (auto simp: sets_def frame_bits_def bm_set_def)

lemma update_sets:
  "\<exists>d. f = Some d \<and> frame_bits dst d n P \<Longrightarrow> {i. i < n \<and> P i} = S \<Longrightarrow> \<exists>d. f = Some d \<and> sets dst n S d"
  by (blast intro: frame_sets)

lemma update_sets_flag:
  assumes "\<exists>d. f = Some (d, \<exists>i < 64 * BITS_TO_LONGS n. P i) \<and> frame_bits dst d n P" "{i. i < n \<and> P i} = S"
  shows "\<exists>d r. f = Some (d, r) \<and> sets dst n S d \<and> (S \<noteq> {} \<longrightarrow> r)"
proof -
  have le: "n \<le> 64 * BITS_TO_LONGS n" by (rule longs_le)
  have "S \<noteq> {} \<longrightarrow> (\<exists>i < 64 * BITS_TO_LONGS n. P i)"
  proof
    assume "S \<noteq> {}"
    then obtain i where "i < n" "P i" using assms(2) by blast
    then show "\<exists>i < 64 * BITS_TO_LONGS n. P i" using le by (meson order_less_le_trans)
  qed
  moreover obtain d where "f = Some (d, \<exists>i < 64 * BITS_TO_LONGS n. P i)" "frame_bits dst d n P" using assms(1) by blast
  ultimately show ?thesis using frame_sets [OF _ assms(2) [symmetric]] by (intro exI conjI) assumption+
qed

text \<open>
  C25. The logical operations compute union, symmetric difference, intersection, difference and
  complement of the sets that the bitmaps stand for, in place or not, and touch nothing behind the
  words of the result.
\<close>

theorem bitmap_algebra:
  assumes "backed dst n" "backed (op_words s1 dst) n" "backed (op_words s2 dst) n"
    and "A = bm_set (op_words s1 dst) n" "B = bm_set (op_words s2 dst) n"
  shows "(\<exists>d. bitmap_or' dst s1 s2 n = Some d \<and> sets dst n (A \<union> B) d) \<and>
    (\<exists>d. bitmap_xor' dst s1 s2 n = Some d \<and> sets dst n ((A - B) \<union> (B - A)) d) \<and>
    (\<exists>d r. bitmap_and' dst s1 s2 n = Some (d, r) \<and> sets dst n (A \<inter> B) d \<and> (A \<inter> B \<noteq> {} \<longrightarrow> r)) \<and>
    (\<exists>d r. bitmap_andnot' dst s1 s2 n = Some (d, r) \<and> sets dst n (A - B) d \<and> (A - B \<noteq> {} \<longrightarrow> r)) \<and>
    (\<exists>d. bitmap_complement' dst s1 n = Some d \<and> sets dst n ({..<n} - A) d)"
proof (intro conjI)
  show "\<exists>d. bitmap_or' dst s1 s2 n = Some d \<and> sets dst n (A \<union> B) d"
    by (rule update_sets [OF bitmap_or_eq [OF assms(1-3)]]) (auto simp: assms(4,5) bm_set_def)
  show "\<exists>d. bitmap_xor' dst s1 s2 n = Some d \<and> sets dst n ((A - B) \<union> (B - A)) d"
    by (rule update_sets [OF bitmap_xor_eq [OF assms(1-3)]]) (auto simp: assms(4,5) bm_set_def)
  show "\<exists>d r. bitmap_and' dst s1 s2 n = Some (d, r) \<and> sets dst n (A \<inter> B) d \<and> (A \<inter> B \<noteq> {} \<longrightarrow> r)"
    by (rule update_sets_flag [OF bitmap_and_eq [OF assms(1-3)]]) (auto simp: assms(4,5) bm_set_def)
  show "\<exists>d r. bitmap_andnot' dst s1 s2 n = Some (d, r) \<and> sets dst n (A - B) d \<and> (A - B \<noteq> {} \<longrightarrow> r)"
    by (rule update_sets_flag [OF bitmap_andnot_eq [OF assms(1-3)]]) (auto simp: assms(4,5) bm_set_def)
  have "\<exists>d. bitmap_complement' dst s1 n = Some d \<and> frame_bits dst d n (\<lambda>i. \<not> bm_bit (op_words s1 dst) i)"
    using bitmap_complement_eq [OF assms(1,2)] by blast
  then show "\<exists>d. bitmap_complement' dst s1 n = Some d \<and> sets dst n ({..<n} - A) d"
    by (rule update_sets) (auto simp: assms(4,5) bm_set_def)
qed

text \<open>
  C36. The tests decide emptiness, fullness, equality, overlap and inclusion of the sets, and the
  weight is their size.
\<close>

theorem bitmap_queries:
  assumes "backed a n" "backed b n"
  shows "bitmap_empty' a n = Some (bm_set a n = {}) \<and> bitmap_full' a n = Some (bm_set a n = {..<n}) \<and>
    bitmap_equal' a b n = Some (bm_set a n = bm_set b n) \<and> bitmap_intersects' a b n = Some (bm_set a n \<inter> bm_set b n \<noteq> {}) \<and>
    bitmap_subset' a b n = Some (bm_set a n \<subseteq> bm_set b n) \<and> bitmap_weight' a n = Some (card (bm_set a n))"
  using assms
  by (auto simp: bitmap_empty_eq bitmap_full_eq bitmap_equal_eq bitmap_intersects_eq bitmap_subset_eq bitmap_weight_eq bm_set_def)

lemma next_from_Min:
  "next_from P n i = (if \<exists>j. i \<le> j \<and> j < n \<and> P j then Min {j. i \<le> j \<and> j < n \<and> P j} else n)"
proof (cases "\<exists>j. i \<le> j \<and> j < n \<and> P j")
  case True
  let ?S = "{j. i \<le> j \<and> j < n \<and> P j}"
  have fin: "finite ?S" by simp
  have m: "Min ?S \<in> ?S" using True by (intro Min_in) auto
  have "next_from P n i = Min ?S"
  proof (rule next_from_eqI)
    fix j assume j: "i \<le> j" "j < Min ?S"
    show "\<not> P j"
    proof
      assume "P j"
      then have "j \<in> ?S" using j m by simp
      then show False using Min_le [OF fin] j(2) by (meson not_le)
    qed
  qed (use m in auto)
  then show ?thesis using True by simp
next
  case False
  have "next_from P n i = n"
  proof (rule ccontr)
    assume "next_from P n i \<noteq> n"
    then have "next_from P n i < n" using next_from_le [of P n i] by simp
    then show False using False next_from_holds [of P n i] next_from_ge [of i n P] next_from_lower [of i n P]
      by (metis le_cases next_from.simps not_le)
  qed
  then show ?thesis unfolding if_not_P [OF False] .
qed

lemma least_member:
  "{j. i \<le> j \<and> j < n \<and> P j} = {j \<in> S. i \<le> j} \<Longrightarrow> next_from P n i = (if \<exists>j \<in> S. i \<le> j then Min {j \<in> S. i \<le> j} else n)"
  unfolding next_from_Min by (auto simp: set_eq_iff)

lemma least_member_0: "{j. j < n \<and> P j} = S \<Longrightarrow> next_from P n 0 = (if S = {} then n else Min S)"
  using next_from_Min [of P n 0] by auto

text \<open>
  C26. The searches give the least member, or the least missing number, from the offset on, and the
  size when there is none; \<^verbatim>\<open>for_each_set_bit\<close> visits exactly the members, in increasing order.
\<close>

theorem bitmap_searches:
  assumes "backed m n"
  shows "find_next_bit m n off = Some (if \<exists>i \<in> bm_set m n. off \<le> i then Min {i \<in> bm_set m n. off \<le> i} else n) \<and>
    find_next_zero_bit m n off =
      Some (if \<exists>i \<in> {..<n} - bm_set m n. off \<le> i then Min {i \<in> {..<n} - bm_set m n. off \<le> i} else n) \<and>
    find_first_bit m n = Some (if bm_set m n = {} then n else Min (bm_set m n)) \<and>
    find_first_zero_bit m n = Some (if {..<n} \<subseteq> bm_set m n then n else Min ({..<n} - bm_set m n)) \<and>
    for_each_set_bit (\<lambda>i xs. Some (xs @ [i])) m n [] = Some (sorted_list_of_set (bm_set m n))"
proof (intro conjI)
  show "find_next_bit m n off = Some (if \<exists>i \<in> bm_set m n. off \<le> i then Min {i \<in> bm_set m n. off \<le> i} else n)"
    unfolding find_next_bit_eq [OF assms] option.inject by (rule least_member) (auto simp: bm_set_def)
  show "find_next_zero_bit m n off =
      Some (if \<exists>i \<in> {..<n} - bm_set m n. off \<le> i then Min {i \<in> {..<n} - bm_set m n. off \<le> i} else n)"
    unfolding find_next_zero_bit_eq [OF assms] option.inject by (rule least_member) (auto simp: bm_set_def)
  show "find_first_bit m n = Some (if bm_set m n = {} then n else Min (bm_set m n))"
    unfolding find_first_bit_eq [OF assms] option.inject by (rule least_member_0) (simp add: bm_set_def)
  have "next_from (\<lambda>i. \<not> bm_bit m i) n 0 = (if {..<n} - bm_set m n = {} then n else Min ({..<n} - bm_set m n))"
    by (rule least_member_0) (auto simp: bm_set_def)
  then show "find_first_zero_bit m n = Some (if {..<n} \<subseteq> bm_set m n then n else Min ({..<n} - bm_set m n))"
    unfolding find_first_zero_bit_eq [OF assms] option.inject Diff_eq_empty_iff .
  have "fold_opt (\<lambda>i xs. Some (xs @ [i])) is ys = Some (ys @ is)" for ys "is" :: "nat list"
    by (induction "is" arbitrary: ys) simp_all
  moreover have "filter (bm_bit m) [0..<n] = sorted_list_of_set (bm_set m n)"
    by (rule sorted_distinct_set_unique) (auto simp: bm_set_def sorted_wrt_filter)
  ultimately show "for_each_set_bit (\<lambda>i xs. Some (xs @ [i])) m n [] = Some (sorted_list_of_set (bm_set m n))"
    unfolding for_each_set_bit_eq [OF assms] by simp
qed


text \<open>
  C27. Shifting adds the distance to, or takes it from, every member; what leaves the bitmap
  is lost, in place or not, also for distances that are no multiple of the word size.
\<close>

theorem bitmap_shifts:
  assumes "backed dst n" "backed (op_words s dst) n" "k div 64 \<le> BITS_TO_LONGS n"
  shows "(\<exists>d. bitmap_shift_left' dst s k n = Some d \<and> sets dst n {i + k |i. i \<in> bm_set (op_words s dst) n \<and> i + k < n} d) \<and>
    (\<exists>d. bitmap_shift_right' dst s k n = Some d \<and> sets dst n {i - k |i. i \<in> bm_set (op_words s dst) n \<and> k \<le> i} d)"
proof (intro conjI)
  have le: "n \<le> 64 * BITS_TO_LONGS n" by (rule longs_le)
  obtain d where d: "bitmap_shift_left' dst s k n = Some d" "length d = length dst"
      "\<forall>i < 64 * BITS_TO_LONGS n. bm_bit d i \<longleftrightarrow> i < n \<and> k \<le> i \<and> bm_bit (op_words s dst) (i - k)"
      "\<forall>i \<ge> 64 * BITS_TO_LONGS n. bm_bit d i = bm_bit dst i"
    using bitmap_shift_left_eq [OF assms] by blast
  have "bm_set d n = {i. i < n \<and> k \<le> i \<and> bm_bit (op_words s dst) (i - k)}" using d(3) le by (auto simp: bm_set_def)
  also have "\<dots> = {i + k |i. i \<in> bm_set (op_words s dst) n \<and> i + k < n}"
    by (auto simp: bm_set_def intro!: exI [of _ "x - k" for x])
  finally show "\<exists>d. bitmap_shift_left' dst s k n = Some d \<and> sets dst n {i + k |i. i \<in> bm_set (op_words s dst) n \<and> i + k < n} d"
    using d by (auto simp: sets_def)
next
  have le: "n \<le> 64 * BITS_TO_LONGS n" by (rule longs_le)
  obtain d where d: "bitmap_shift_right' dst s k n = Some d" "length d = length dst"
      "\<forall>i < 64 * BITS_TO_LONGS n. bm_bit d i \<longleftrightarrow> i + k < n \<and> bm_bit (op_words s dst) (i + k)"
      "\<forall>i \<ge> 64 * BITS_TO_LONGS n. bm_bit d i = bm_bit dst i"
    using bitmap_shift_right_eq [OF assms] by blast
  have "bm_set d n = {i. i + k < n \<and> bm_bit (op_words s dst) (i + k)}" using d(3) le by (auto simp: bm_set_def)
  also have "\<dots> = {i - k |i. i \<in> bm_set (op_words s dst) n \<and> k \<le> i}"
    by (auto simp: bm_set_def intro!: exI [of _ "x + k" for x])
  finally show "\<exists>d. bitmap_shift_right' dst s k n = Some d \<and> sets dst n {i - k |i. i \<in> bm_set (op_words s dst) n \<and> k \<le> i} d"
    using d by (auto simp: sets_def)
qed


text \<open>
  Where they differ: \<^verbatim>\<open>bitmap_shift_right\<close> with a constant size does not mask its source, so unused bits
  of the source move into the result; the general function masks them.
\<close>

theorem shift_right_unused_bits:
  assumes "0 < k" "k \<le> n" "n + k \<le> 64" "w = push_bit n (mask k)"
  shows "\<exists>d d'. bitmap_shift_right True [0] (Arr [w]) k n = Some d \<and> bm_set d n = {n - k..<n} \<and>
    bitmap_shift_right False [0] (Arr [w]) k n = Some d' \<and> bm_set d' n = {} \<and> bm_set [w] n = {}"
proof -
  have bit_w: "bm_bit [w] i \<longleftrightarrow> n \<le> i \<and> i < n + k" for i
    using assms(3) by (cases "i < 64") (auto simp: bm_bit_def assms(4) bit_push_bit_iff bit_mask_iff not_less)
  obtain d' where d': "bitmap_shift_right' [0] (Arr [w]) k n = Some d'"
      "\<forall>i < 64 * BITS_TO_LONGS n. bm_bit d' i \<longleftrightarrow> i + k < n \<and> bm_bit [w] (i + k)"
    using bitmap_shift_right_eq [where dst = "[0]" and bits = n and s = "Arr [w]" and shift = k] assms(1-3) by (auto simp: BITS_TO_LONGS_def)
  have "bm_set d' n = {}" using d'(2) longs_le [of n] bit_w by (auto simp: bm_set_def)
  moreover have "bm_set [drop_bit k w] n = {n - k..<n}"
    using assms(1-3) by (auto simp: bm_set_def bm_bit_def bit_drop_bit_eq assms(4) bit_push_bit_iff bit_mask_iff)
  moreover have "bm_set [w] n = {}" using bit_w by (auto simp: bm_set_def)
  ultimately show ?thesis using d'(1) assms(2,3) by (simp add: bitmap_shift_right_def small_const_nbits_def wr_def rd_def)
qed


section \<open>Round trips\<close>

text \<open>
  C21. A bitmap that is printed as a list of ranges, into any buffer that the text fits in, is read back from the text when
  it is not empty; the buffer behind \<^verbatim>\<open>buflen\<close> is not touched. The empty bitmap is printed as the empty text, and that is
  read back as the set of bit 0.
\<close>

theorem list_round_trip:
  assumes "backed m n" "backed m0 n" "0 < n" "n < 2 ^ 31"
    and "length (list_text (runs_of m n)) < buflen" "buflen \<le> length buf" "buflen < 2 ^ 31"
  shows "\<exists>buf' len m'. bitmap_scnlistprintf buf buflen (Some m) n = Some (buf', len) \<and> buf' ! len = NUL \<and>
    length buf' = length buf \<and> drop buflen buf' = drop buflen buf \<and>
    bitmap_parselist (take len buf') m0 n = Some (0, m') \<and> bm_set m' n = (if bm_set m n = {} then {0} else bm_set m n)"
proof -
  obtain buf' where b: "bitmap_scnlistprintf buf buflen (Some m) n = Some (buf', length (list_text (runs_of m n)))"
      "printed (list_text (runs_of m n)) buf'" "length buf' = length buf" "drop buflen buf' = drop buflen buf"
    using scnlistprintf_fits [OF assms(1,5-7)] by blast
  obtain m' where "bitmap_parselist (take (length (list_text (runs_of m n))) buf') m0 n = Some (0, m')"
      "bm_set m' n = (if bm_set m n = {} then {0} else bm_set m n)"
    using parselist_scnlistprintf [OF assms] b(1) by auto
  then show ?thesis using b
    by (intro exI [of _ buf'] exI [of _ "length (list_text (runs_of m n))"] exI [of _ m']) (simp add: printed_def)
qed

text \<open>
  C22. A bitmap that is printed in hexadecimal chunks, into any buffer that the text fits in, is read back from the
  text and its NUL.
\<close>

theorem hex_round_trip:
  assumes "backed m n" "backed m0 n" "0 < n" "n < 2 ^ 31"
    and "length (hex_text m n) < buflen" "buflen \<le> length buf" "buflen < 2 ^ 64"
  shows "\<exists>buf' len m'. bitmap_scnprintf buf buflen (Some m) n = Some (buf', len) \<and>
    length buf' = length buf \<and> drop buflen buf' = drop buflen buf \<and>
    bitmap_parse' buf' (Suc len) m0 n = Some (0, m') \<and> bm_set m' n = bm_set m n"
proof -
  obtain buf' where b: "bitmap_scnprintf buf buflen (Some m) n = Some (buf', length (hex_text m n))"
      "length buf' = length buf" "drop buflen buf' = drop buflen buf"
    using bitmap_scnprintf_fits [OF assms(1,5-7,4)] by blast
  moreover obtain m' where "bitmap_parse' buf' (Suc (length (hex_text m n))) m0 n = Some (0, m')" "\<forall>i < n. bm_bit m' i = bm_bit m i"
    using parse_scnprintf [OF assms] b(1) by auto
  ultimately show ?thesis by (auto simp: bm_set_def)
qed

text \<open>
  C32. A text of hexadecimal chunks is read as the number it denotes, most significant chunk first. A chunk of more than 32
  bits, or a number that does not fit the bitmap, is refused with \<^verbatim>\<open>-EOVERFLOW\<close>.
\<close>

theorem hex_parse_number:
  assumes "hex_chunks dss" "dss \<noteq> []" "terminated tail e" "backed m n" "0 < n"
  shows "\<exists>r m'. bitmap_parse' (comma_text dss @ tail) (length (comma_text dss) + e) m n = Some (r, m') \<and>
    (if (\<forall>ds \<in> set dss. hexval 0 ds < 2 ^ 32) \<and> number 0 dss < 2 ^ n
     then r = 0 \<and> length m' = length m \<and> (\<forall>i < n. bm_bit m' i \<longleftrightarrow> bit (number 0 dss) i)
     else r = - EOVERFLOW)"
proof (cases "(\<forall>ds \<in> set dss. hexval 0 ds < 2 ^ 32) \<and> number 0 dss < 2 ^ n")
  case True
  from bitmap_parse_number [OF assms] show ?thesis unfolding if_P [OF True] by blast
next
  case False
  from bitmap_parse_number [OF assms] show ?thesis unfolding if_not_P [OF False] by blast
qed

text \<open>
  C31. A list of ranges, up to the first newline, is read as the union of its ranges, with every number taken modulo \<open>2 ^ 32\<close>. If
  after this some range is reversed or ends beyond the bitmap, the first such range decides the error: \<^verbatim>\<open>-EINVAL\<close> when it is
  reversed, else \<^verbatim>\<open>-ERANGE\<close>. The empty text is read like \<^verbatim>\<open>0\<close>. Whatever text is accepted has only digits, commas, hyphens and
  white space in its first line.
\<close>

theorem parselist_ranges:
  assumes "backed m n"
  shows "(rest = [] \<or> hd rest = NEWLINE \<longrightarrow>
      (let items = map (\<lambda>(l, h). (l mod 2 ^ 32, h mod 2 ^ 32)) (if rs = [] then [(0, 0)] else rs) in
       \<exists>r m'. bitmap_parselist (list_text rs @ rest) m n = Some (r, m') \<and>
         (case filter (\<lambda>(l, h). h < l \<or> n \<le> h) items of
            [] \<Rightarrow> r = 0 \<and> bm_set m' n = (\<Union>(l, h) \<in> set items. {l..h})
          | (l, h) # _ \<Rightarrow> r = (if h < l then - EINVAL else - ERANGE)))) \<and>
    (bitmap_parselist bp m n = Some (0, m2) \<and> NUL \<notin> set bp \<longrightarrow> list_all list_char (takeWhile (\<lambda>c. c \<noteq> NEWLINE) bp))"
proof (intro conjI impI)
  assume rest: "rest = [] \<or> hd rest = NEWLINE"
  define items where "items = map (\<lambda>(l, h). (l mod 2 ^ 32, h mod 2 ^ 32 :: nat)) (if rs = [] then [(0, 0)] else rs)"
  have "read_range = (\<lambda>(l, h). (l mod 2 ^ 32, h mod 2 ^ 32))" by (rule ext) auto
  then have "items = map read_range (if rs = [] then [(0, 0)] else rs)" by (simp add: items_def)
  from bitmap_parselist_list [OF assms rest this] obtain m' where
    m': "bitmap_parselist (list_text rs @ rest) m n = Some (list_error n items, m')" "list_error n items = 0 \<longrightarrow> bm_set m' n = ranges_set items"
    by blast
  have "case filter (\<lambda>(l, h). h < l \<or> n \<le> h) items of
            [] \<Rightarrow> list_error n items = 0 \<and> bm_set m' n = (\<Union>(l, h) \<in> set items. {l..h})
          | (l, h) # _ \<Rightarrow> list_error n items = (if h < l then - EINVAL else - ERANGE)"
    using m'(2) list_error_first [of n items] by (auto simp: ranges_set_def split: list.splits)
  then show "let items = map (\<lambda>(l, h). (l mod 2 ^ 32, h mod 2 ^ 32)) (if rs = [] then [(0, 0)] else rs) in
       \<exists>r m'. bitmap_parselist (list_text rs @ rest) m n = Some (r, m') \<and>
         (case filter (\<lambda>(l, h). h < l \<or> n \<le> h) items of
            [] \<Rightarrow> r = 0 \<and> bm_set m' n = (\<Union>(l, h) \<in> set items. {l..h})
          | (l, h) # _ \<Rightarrow> r = (if h < l then - EINVAL else - ERANGE))"
    unfolding Let_def items_def [symmetric] using m'(1) by blast
qed (use bitmap_parselist_chars assms in blast)

section \<open>Population counts\<close>

text \<open>
  C39. Both variants of the population counts, with and without a fast multiplication, count the bits; a
  narrow count ignores nothing of a value that fits its width.
\<close>

theorem hweight_counts:
  "unat (sw_hweight64 w) = card {i. i < 64 \<and> bit w i} \<and> sw_hweight64_mul w = sw_hweight64 w \<and>
   unat (hweight_long w) = card {i. bit w i} \<and>
   unat (sw_hweight32 v) = card {i. i < 32 \<and> bit v i} \<and> sw_hweight32_mul v = sw_hweight32 v \<and>
   (unat v < 2 ^ 16 \<longrightarrow> unat (sw_hweight16 v) = card {i. bit v i}) \<and>
   (unat v < 2 ^ 8 \<longrightarrow> unat (sw_hweight8 v) = card {i. bit v i})"
proof -
  have below: "{i. i < k \<and> bit v i} = {i. bit v i}" if "unat v < 2 ^ k" for k
  proof -
    have "\<not> bit v i" if "k \<le> i" for i
    proof -
      have "unat v < 2 ^ i" using \<open>unat v < 2 ^ k\<close> that by (meson less_le_trans one_le_numeral power_increasing)
      then have "\<not> bit (unat v) i" by (simp add: bit_iff_odd)
      then show ?thesis by (simp add: bit_unsigned_iff)
    qed
    then show ?thesis by (auto simp: not_less [symmetric])
  qed
  show ?thesis
    using sw_hweight64_count [of w] sw_hweight64_mul_count [of w] hweight_long_count [of w]
      sw_hweight32_count [of v] sw_hweight32_mul_count [of v] sw_hweight16_count [of v] sw_hweight8_count [of v] below [of 16] below [of 8]
    by (intro conjI impI) (simp_all add: word_unat_eq_iff)
qed


section \<open>Regions\<close>

text \<open>
  C33. \<^verbatim>\<open>bitmap_find_free_region\<close> allocates the lowest free region of its order, aligned and inside of the
  bitmap, and sets exactly its bits; it gives \<^verbatim>\<open>-ENOMEM\<close>, and changes nothing, exactly when no aligned region is free. The order has to
  be so small that the end of no region leaves the range of \<^verbatim>\<open>int\<close>, in which the code computes it.
\<close>

theorem find_free_region_lowest:
  assumes "backed b n" "n + 2 ^ order < 2 ^ 31"
  shows "(\<exists>p b'. bitmap_find_free_region b n order = Some (int p, b') \<and> fits n p order \<and> region p order \<inter> used b = {} \<and>
      used b' = used b \<union> region p order \<and> length b' = length b \<and>
      (\<forall>q < p. fits n q order \<longrightarrow> region q order \<inter> used b \<noteq> {})) \<or>
    (bitmap_find_free_region b n order = Some (- ENOMEM, b) \<and> (\<forall>q. fits n q order \<longrightarrow> region q order \<inter> used b \<noteq> {}))"
  using free_region_from_eq [OF assms(1), of order 0] assms(2) unfolding bitmap_find_free_region_def by auto

text \<open>
  C34. Releasing the region that was just found restores the bitmap's set, allocating it again then
  succeeds, and allocating a region that overlaps it meanwhile gives \<^verbatim>\<open>-EBUSY\<close> and changes nothing.
\<close>

theorem region_round_trip:
  assumes "backed b n" "bitmap_find_free_region b n order = Some (r, b')" "0 \<le> r"
  shows "\<exists>b1 b2. bitmap_release_region b' (nat r) order = Some b1 \<and> used b1 = used b \<and>
    bitmap_allocate_region b1 (nat r) order = Some (0, b2) \<and> used b2 = used b' \<and>
    (\<forall>q k. fits n q k \<and> region q k \<inter> region (nat r) order \<noteq> {} \<longrightarrow> bitmap_allocate_region b' q k = Some (- EBUSY, b'))"
proof -
  note F = reg.find_found [OF assms, THEN conjunct1] reg.find_found [OF assms, THEN conjunct2, THEN conjunct1]
    reg.find_found [OF assms, THEN conjunct2, THEN conjunct2, THEN conjunct1] reg.find_found [OF assms, THEN conjunct2, THEN conjunct2, THEN conjunct2]
  obtain b1 where b1: "bitmap_release_region b' (nat r) order = Some b1" "used b1 = used b' - region (nat r) order" "length b1 = length b'"
    using release_region_eq [OF F(4,1)] by blast
  have u: "used b1 = used b" using b1(2) F(2,3) by blast
  have "backed b1 n" using F(4) b1(3) by simp
  from allocate_region_eq [OF this F(1)] obtain b2 where
    "bitmap_allocate_region b1 (nat r) order = Some (0, b2)" "used b2 = used b1 \<union> region (nat r) order"
    using F(2) u by auto
  moreover have "bitmap_allocate_region b' q k = Some (- EBUSY, b')" if "fits n q k" "region q k \<inter> region (nat r) order \<noteq> {}" for q k
  proof -
    have "region q k \<inter> used b' \<noteq> {}" using that(2) F(3) by blast
    then show ?thesis using allocate_region_eq [OF F(4) that(1)] by simp
  qed
  ultimately show ?thesis using b1(1) u F(3) by auto
qed

section \<open>Maps\<close>

lemma positions_sorted: "positions b n = sorted_list_of_set (bm_set b n)"
  by (rule sorted_distinct_set_unique) (simp_all add: positions_facts)

text \<open>
  C35. \<^verbatim>\<open>bitmap_bitremap\<close> moves the \<open>k\<close>-th member of \<open>old\<close> to member \<open>k\<close> modulo the weight of \<open>new\<close>, and keeps
  every other bit; \<^verbatim>\<open>bitmap_remap\<close> gives the image of its source under the same map.
\<close>

theorem remap_image:
  assumes "backed dst n" "backed src n" "backed old n" "backed new n"
  shows "\<exists>d. bitmap_remap dst (Arr src) old new n = Some d \<and>
    (\<forall>q. q \<in> bm_set d n \<longleftrightarrow> (\<exists>p \<in> bm_set src n. bitmap_bitremap (int p) old new n = Some (int q))) \<and>
    (\<forall>p. p \<notin> bm_set old n \<or> bm_set new n = {} \<longrightarrow> bitmap_bitremap (int p) old new n = Some (int p)) \<and>
    (\<forall>k < card (bm_set old n). bm_set new n \<noteq> {} \<longrightarrow>
       bitmap_bitremap (int (sorted_list_of_set (bm_set old n) ! k)) old new n =
         Some (int (sorted_list_of_set (bm_set new n) ! (k mod card (bm_set new n)))))"
proof -
  obtain d where d: "bitmap_remap dst (Arr src) old new n = Some d" "bm_set d n = remap_pos old new n ` bm_set src n"
    using remap_eq [OF assms] by blast
  note bit = bitremap_eq [OF assms(3,4)]
  have "q \<in> bm_set d n \<longleftrightarrow> (\<exists>p \<in> bm_set src n. bitmap_bitremap (int p) old new n = Some (int q))" for q
    unfolding d(2) bit by auto
  moreover have "bitmap_bitremap (int p) old new n = Some (int p)" if "p \<notin> bm_set old n \<or> bm_set new n = {}" for p
    using that unfolding bit by (auto simp: remap_pos_def bm_set_def)
  moreover have "bitmap_bitremap (int (sorted_list_of_set (bm_set old n) ! k)) old new n =
      Some (int (sorted_list_of_set (bm_set new n) ! (k mod card (bm_set new n))))"
    if "k < card (bm_set old n)" "bm_set new n \<noteq> {}" for k
    using positions_nth [OF that(1)] ordinal_positions [OF that(1)] that(2)
    unfolding bit positions_sorted [symmetric] by (simp add: remap_pos_def)
  ultimately show ?thesis using d(1) by blast
qed

text \<open>
  \<^verbatim>\<open>bitmap_ord_to_pos\<close> and \<^verbatim>\<open>bitmap_pos_to_ord\<close> are inverse to each other between the members and the
  numbers below the weight.
\<close>

theorem pos_ord_inverse:
  assumes "backed b n"
  shows "(\<forall>k < card (bm_set b n). \<exists>p. bitmap_ord_to_pos b (int k) n = Some p \<and> p \<in> bm_set b n \<and> bitmap_pos_to_ord b (int p) n = Some (int k)) \<and>
    (\<forall>p \<in> bm_set b n. \<exists>k < card (bm_set b n). bitmap_pos_to_ord b (int p) n = Some (int k) \<and> bitmap_ord_to_pos b (int k) n = Some p)"
proof (intro conjI allI impI ballI)
  fix k assume k: "k < card (bm_set b n)"
  show "\<exists>p. bitmap_ord_to_pos b (int k) n = Some p \<and> p \<in> bm_set b n \<and> bitmap_pos_to_ord b (int p) n = Some (int k)"
    using positions_nth [OF k] ordinal_positions [OF k] k
    by (intro exI [of _ "positions b n ! k"]) (simp add: ord_to_pos_eq [OF assms] pos_to_ord_eq [OF assms] bm_set_def)
next
  fix p assume "p \<in> bm_set b n"
  then have p: "bm_bit b p" "p < n" by (simp_all add: bm_set_def)
  show "\<exists>k < card (bm_set b n). bitmap_pos_to_ord b (int p) n = Some (int k) \<and> bitmap_ord_to_pos b (int k) n = Some p"
    using positions_ordinal [OF p] p
    by (intro exI [of _ "ordinal b p"]) (simp add: ord_to_pos_eq [OF assms] pos_to_ord_eq [OF assms])
qed


text \<open>
  Folding a set modulo the weight of \<open>relmap\<close> and mapping it onto \<open>relmap\<close> keeps it non-empty: every
  member \<open>p\<close> lands on member \<open>p\<close> modulo the weight of \<open>relmap\<close>.
\<close>

theorem fold_onto:
  assumes "backed tmp n" "backed dst n" "backed orig n" "backed relmap n" "bm_set orig n \<noteq> {}" "bm_set relmap n \<noteq> {}"
  shows "\<exists>t d. bitmap_fold tmp (Arr orig) (card (bm_set relmap n)) n = Some t \<and> bitmap_onto dst (Arr t) relmap n = Some d \<and>
    bm_set d n = (\<lambda>p. sorted_list_of_set (bm_set relmap n) ! (p mod card (bm_set relmap n))) ` bm_set orig n \<and>
    bm_set d n \<noteq> {} \<and> bm_set d n \<subseteq> bm_set relmap n"
proof -
  obtain t d where td: "bitmap_fold tmp (Arr orig) (card (bm_set relmap n)) n = Some t" "bitmap_onto dst (Arr t) relmap n = Some d"
      "bm_set d n = (\<lambda>p. sorted_list_of_set (bm_set relmap n) ! (p mod card (bm_set relmap n))) ` bm_set orig n"
    using fold_onto_nonempty [OF assms] unfolding positions_sorted by blast
  have "0 < card (bm_set relmap n)" using assms(6) by (simp add: card_gt_0_iff)
  then have "sorted_list_of_set (bm_set relmap n) ! (p mod card (bm_set relmap n)) \<in> bm_set relmap n" for p
    using positions_nth [of "p mod card (bm_set relmap n)" relmap n] unfolding positions_sorted by (simp add: bm_set_def)
  then show ?thesis using td assms(5) by auto
qed


section \<open>Concrete bitmaps\<close>

lemma bm_set_list: "bm_set m n = set (filter (bm_bit m) [0..<n])"
  by (auto simp: bm_set_def)

lemma example_sets:
  "bm_set [12] 4 = {2, 3}" "bm_set [10] 4 = {1, 3}" "bm_set [0x21] 8 = {0, 5}" "bm_set [0xF0] 4 = {}" "bm_set [6] 4 = {1, 2}"
  unfolding bm_set_list by code_simp+

theorem bitmap_algebra_witness:
  "\<exists>d1 d2 d3. bitmap_or' [10] (Arr [12]) Dst 4 = Some d1 \<and> bm_set d1 4 = {1, 2, 3} \<and>
     bitmap_xor' [10] (Arr [12]) Dst 4 = Some d2 \<and> bm_set d2 4 = {1, 2} \<and>
     bitmap_complement' [10] (Arr [12]) 4 = Some d3 \<and> bm_set d3 4 = {0, 1}"
proof -
  have "{2, 3} \<union> {1, 3} = {1, 2, 3 :: nat}" "({2, 3} - {1, 3}) \<union> ({1, 3} - {2, 3}) = {1, 2 :: nat}" "{..<4} - {2, 3} = {0, 1 :: nat}" by auto
  then show ?thesis
    using bitmap_algebra [where dst = "[10]" and n = 4 and ?s1.0 = "Arr [12]" and ?s2.0 = Dst and A = "{2, 3}" and B = "{1, 3}"] example_sets(1,2) unfolding sets_def by auto
qed

theorem bitmap_queries_witness:
  "bitmap_empty' [0xF0] 4 = Some True \<and> bitmap_subset' [0xF0] [12] 4 = Some True \<and> bitmap_equal' [0xF0] [12] 4 = Some False \<and>
   bitmap_weight' [0xF0] 4 = Some 0"
  using bitmap_queries [where a = "[0xF0]" and n = 4 and b = "[12]"] by (simp add: example_sets)

theorem bitmap_searches_witness:
  "find_next_bit [0x21] 8 1 = Some 5 \<and> find_first_bit [0x21] 8 = Some 0 \<and>
   for_each_set_bit (\<lambda>i xs. Some (xs @ [i])) [0x21] 8 [] = Some [0, 5]"
proof -
  have "{i \<in> {0, 5 :: nat}. 1 \<le> i} = {5}" "\<exists>i \<in> {0, 5 :: nat}. 1 \<le> i" "sorted_list_of_set {0, 5 :: nat} = [0, 5]" by auto
  then show ?thesis using bitmap_searches [where m = "[0x21]" and n = 8 and off = 1] unfolding example_sets by (simp only:) simp
qed

theorem bitmap_shifts_witness:
  "\<exists>d d'. bitmap_shift_left' [0] (Arr [0x21]) 2 8 = Some d \<and> bm_set d 8 = {2, 7} \<and>
     bitmap_shift_right' [0x21] Dst 2 8 = Some d' \<and> bm_set d' 8 = {3}"
proof -
  have "{i + 2 |i. i \<in> {0, 5 :: nat} \<and> i + 2 < 8} = {2, 7}" "{i - 2 |i. i \<in> {0, 5 :: nat} \<and> 2 \<le> i} = {3}"
    by (auto intro: exI [of _ 5])
  then show ?thesis
    using bitmap_shifts [where dst = "[0]" and s = "Arr [0x21]" and n = 8 and k = 2] bitmap_shifts [where dst = "[0x21]" and s = Dst and n = 8 and k = 2]
    unfolding sets_def op_words.simps example_sets by (simp only:) auto
qed


theorem shift_right_unused_bits_witness:
  "\<exists>d d'. bitmap_shift_right True [0] (Arr [0xF0]) 4 4 = Some d \<and> bm_set d 4 = {0..<4} \<and>
     bitmap_shift_right False [0] (Arr [0xF0]) 4 4 = Some d' \<and> bm_set d' 4 = {}"
proof -
  have "push_bit 4 (mask 4) = (0xF0 :: ulong)" by code_simp
  then show ?thesis using shift_right_unused_bits [of 4 4 "0xF0"] by auto
qed

theorem list_round_trip_witness:
  "\<exists>buf' len m'. bitmap_scnlistprintf (replicate 8 NUL) 8 (Some [0x21]) 8 = Some (buf', len) \<and> buf' ! len = NUL \<and>
     bitmap_parselist (take len buf') [0] 8 = Some (0, m') \<and> bm_set m' 8 = {0, 5}"
proof -
  have "list_text (runs_of [0x21] 8) = ''0,5''" by code_simp
  then show ?thesis
    using list_round_trip [where m = "[0x21]" and n = 8 and ?m0.0 = "[0]" and buflen = 8 and buf = "replicate 8 NUL"] by (simp add: example_sets) blast
qed

theorem hex_round_trip_witness:
  "\<exists>buf' len m'. bitmap_scnprintf (replicate 8 NUL) 8 (Some [0x21]) 8 = Some (buf', len) \<and>
     bitmap_parse' buf' (Suc len) [0] 8 = Some (0, m') \<and> bm_set m' 8 = {0, 5}"
proof -
  have "hex_text [0x21] 8 = ''21''" by code_simp
  then show ?thesis
    using hex_round_trip [where m = "[0x21]" and n = 8 and ?m0.0 = "[0]" and buflen = 8 and buf = "replicate 8 NUL"] by (simp add: example_sets) blast
qed


theorem hex_parse_number_witness:
  "\<exists>r m'. bitmap_parse' (''1,21'' @ [NUL]) 5 [0] 40 = Some (r, m') \<and> r = 0 \<and> bm_bit m' 32 \<and> bm_bit m' 5 \<and> \<not> bm_bit m' 1"
proof -
  let ?dss = "[''1'', ''21'']"
  have h: "hexval 0 ''1'' = 1" "hexval 0 ''21'' = 33" by code_simp+
  have c: "hex_chunks ?dss" "comma_text ?dss = ''1,21''" by code_simp+
  have n: "number 0 ?dss = 2 ^ 32 + 33" using h by (simp add: number_def)
  have v: "(\<forall>ds \<in> set ?dss. hexval 0 ds < 2 ^ 32) \<and> number 0 ?dss < 2 ^ 40" using h n by simp
  have t: "terminated [NUL] 1" unfolding terminated_def by (intro disjI2 exI [of _ "[]"] exI [of _ "[]"]) simp
  have b: "bit (2 ^ 32 + 33 :: nat) 32" "bit (2 ^ 32 + 33 :: nat) 5" "\<not> bit (2 ^ 32 + 33 :: nat) 1" by (simp_all add: bit_iff_odd)
  have m: "backed [0] 40" "?dss \<noteq> []" "(0 :: nat) < 40" "length ''1,21'' + 1 = 5" by simp_all
  obtain r m' where r: "bitmap_parse' (''1,21'' @ [NUL]) 5 [0] 40 = Some (r, m')" "r = 0" "\<forall>i < 40. bm_bit m' i \<longleftrightarrow> bit (2 ^ 32 + 33 :: nat) i"
    using hex_parse_number [OF c(1) m(2) t m(1,3)] unfolding c(2) n m(4) if_P [OF v [unfolded n]] by blast
  then have "bm_bit m' 32" "bm_bit m' 5" "\<not> bm_bit m' 1" using b by simp_all
  then show ?thesis using r(1,2) by blast
qed

theorem parselist_ranges_witness:
  "(\<exists>m'. bitmap_parselist (''1-2'' @ [NEWLINE]) [0] 4 = Some (0, m') \<and> bm_set m' 4 = {1, 2}) \<and>
   (\<exists>m'. bitmap_parselist ''1-2,7'' [0] 4 = Some (- ERANGE, m')) \<and> (\<exists>m'. bitmap_parselist ''4294967296'' [0] 4 = Some (0, m') \<and> bm_set m' 4 = {0})"
proof -
  have d: "digit 0 = CHR ''0''" "digit (Suc 0) = CHR ''1''" "digit 2 = CHR ''2''" "digit 4 = CHR ''4''" "digit 6 = CHR ''6''" "digit 7 = CHR ''7''" "digit 9 = CHR ''9''"
    by code_simp+
  have t: "list_text [(1, 2)] = ''1-2''" "list_text [(1, 2), (7, 7)] = ''1-2,7''" "list_text [(4294967296, 4294967296)] = ''4294967296''"
    by (simp_all add: dec_step dec_digit d)
  have b: "backed [0] 4" by simp
  note T = parselist_ranges [OF b, THEN conjunct1, THEN mp, unfolded Let_def]
  let ?items = "\<lambda>rs. map (\<lambda>(l, h). (l mod 2 ^ 32, h mod 2 ^ 32 :: nat)) (if rs = [] then [(0, 0)] else rs)"
  let ?bad = "filter (\<lambda>(l, h). h < l \<or> (4 :: nat) \<le> h)"
  have f: "?bad (?items [(1, 2)]) = []" "?bad (?items [(1, 2), (7, 7)]) = [(7, 7)]" "?bad (?items [(4294967296, 4294967296)]) = []"
    by simp_all
  have u: "(\<Union>(l, h) \<in> set (?items [(1, 2)]). {l..h}) = {1, 2}" "(\<Union>(l, h) \<in> set (?items [(4294967296, 4294967296)]). {l..h}) = {0}" by auto
  have "\<exists>m'. bitmap_parselist (''1-2'' @ [NEWLINE]) [0] 4 = Some (0, m') \<and> bm_set m' 4 = {1, 2}"
    using T [of "[NEWLINE]" "[(1, 2)]", unfolded t f u list.case list.sel] by blast
  moreover have "\<exists>m'. bitmap_parselist (''1-2,7'' @ []) [0] 4 = Some (if (7 :: nat) < 7 then - EINVAL else - ERANGE, m')"
    using T [of "[]" "[(1, 2), (7, 7)]", unfolded t f u list.case prod.case] by blast
  moreover have "\<exists>m'. bitmap_parselist (''4294967296'' @ []) [0] 4 = Some (0, m') \<and> bm_set m' 4 = {0}"
    using T [of "[]" "[(4294967296, 4294967296)]", unfolded t f u list.case] by blast
  ultimately show ?thesis unfolding append_Nil2 by simp
qed

theorem hweight_counts_witness:
  "sw_hweight16 0xF0F = 8 \<and> sw_hweight8 0x81 = 2 \<and> sw_hweight64_mul 0xFF = sw_hweight64 0xFF"
proof -
  have list: "{i. bit v i} = set (filter (bit v) [0..<32])" for v :: u32
    by (auto dest: bit_imp_le_length)
  have "card (set (filter (bit (0xF0F :: u32)) [0..<32])) = 8" "card (set (filter (bit (0x81 :: u32)) [0..<32])) = 2" by code_simp+
  then have "card {i. bit (0xF0F :: u32) i} = 8" "card {i. bit (0x81 :: u32) i} = 2" unfolding list .
  then show ?thesis using hweight_counts [of "0xFF" "0xF0F"] hweight_counts [of "0xFF" "0x81"]
    by (simp add: word_unat_eq_iff del: card.infinite)
qed

lemma example_find: "bitmap_find_free_region [0x21] 8 1 = Some (2, [0x2D])"
  by code_simp

lemma example_used: "used [0x21] = {0, 5}" "region 0 1 = {0, 1}" "region 2 1 = {2, 3}"
proof -
  have "used [0x21] = bm_set [0x21] 64" by (auto simp: used_def bm_set_def bm_bit_def)
  also have "\<dots> = {0, 5}" unfolding bm_set_list by code_simp
  finally show "used [0x21] = {0, 5}" .
  show "region 0 1 = {0, 1}" "region 2 1 = {2, 3}" by (auto simp: region_def)
qed

theorem find_free_region_lowest_witness:
  "\<exists>b'. bitmap_find_free_region [0x21] 8 1 = Some (2, b') \<and> used b' = {0, 2, 3, 5}"
proof -
  have b: "backed [0x21] 8" and small: "8 + 2 ^ 1 < (2 :: nat) ^ 31" by simp_all
  have "(\<exists>p b'. bitmap_find_free_region [0x21] 8 1 = Some (int p, b') \<and> used b' = used [0x21] \<union> region p 1) \<or>
      bitmap_find_free_region [0x21] 8 1 = Some (- ENOMEM, [0x21])"
    using find_free_region_lowest [OF b small] by blast
  then obtain p b' where "Some (2, [0x2D]) = Some (int p, b')" "used b' = used [0x21] \<union> region p 1"
    unfolding example_find by (auto simp: ENOMEM_def)
  then have "used [0x2D] = {0, 5} \<union> region 2 1" by (simp add: example_used(1))
  also have "\<dots> = {0, 2, 3, 5}" unfolding example_used(3) by auto
  finally show ?thesis using example_find by blast
qed

theorem region_round_trip_witness:
  "\<exists>b1 b2. bitmap_release_region [0x2D] 2 1 = Some b1 \<and> used b1 = used [0x21] \<and> bitmap_allocate_region b1 2 1 = Some (0, b2) \<and>
     bitmap_allocate_region [0x2D] 2 0 = Some (- EBUSY, [0x2D])"
proof -
  have f: "fits 8 2 0" "region 2 0 \<inter> region 2 1 \<noteq> {}" by (auto simp: fits_def region_def)
  have b: "backed [0x21] 8" "0 \<le> (2 :: int)" by simp_all
  show ?thesis using region_round_trip [OF b(1) example_find b(2)] f unfolding nat_numeral by blast
qed

theorem remap_image_witness:
  "\<exists>d. bitmap_remap [0] (Arr [0x21]) [6] [12] 4 = Some d \<and> bitmap_bitremap 1 [6] [12] 4 = Some 2"
proof -
  have "sorted_list_of_set {1, 2 :: nat} = [1, 2]" "sorted_list_of_set {2, 3 :: nat} = [2, 3]" by simp_all
  then show ?thesis
    using remap_image [where dst = "[0]" and src = "[0x21]" and old = "[6]" and new = "[12]" and n = 4] unfolding example_sets by force
qed

theorem pos_ord_inverse_witness:
  "\<exists>k < 2. bitmap_pos_to_ord [12] 3 4 = Some (int k) \<and> bitmap_ord_to_pos [12] (int k) 4 = Some 3"
  using pos_ord_inverse [where b = "[12]" and n = 4] unfolding example_sets by (auto dest!: bspec [of _ _ 3])

theorem fold_onto_witness:
  "\<exists>t d. bitmap_fold [0] (Arr [0x21]) 2 8 = Some t \<and> bitmap_onto [0] (Arr t) [0x21] 8 = Some d \<and> bm_set d 8 = {0, 5}"
proof -
  have e: "sorted_list_of_set {0, 5 :: nat} = [0, 5]" "card {0, 5 :: nat} = 2" "(\<lambda>p :: nat. [0, 5 :: nat] ! (p mod 2)) ` {0, 5} = {0, 5}" by simp_all
  have b: "backed [0] 8" "backed [0x21] 8" "{0, 5 :: nat} \<noteq> {}" by simp_all
  show ?thesis
    using fold_onto [OF b(1) b(1) b(2) b(2), unfolded example_sets, OF b(3) b(3)] unfolding e by blast
qed

end
