(* ===== verification/Linked_List.thy ===== *)
theory Linked_List
  imports Mpipin_Prelude
begin

text \<open>
The circular doubly linked lists of \<^verbatim>\<open>include/list.h\<close>. A \<^verbatim>\<open>struct list_head\<close> is a pair of addresses,
  the heap maps addresses to them; an access to an unmapped address is \<open>None\<close>. Every inline function is
  translated write by write. \<open>ring h head xs\<close> says that the list at \<open>head\<close> holds the entries \<open>xs\<close>; the lemmas give
  each operation as an operation on the HOL list and say which other lists it keeps.
  \<^verbatim>\<open>mpipin.c\<close> uses \<^verbatim>\<open>INIT_LIST_HEAD\<close>, \<^verbatim>\<open>list_add_tail\<close> and \<^verbatim>\<open>list_for_each_entry\<close>: the locale \<open>tail_list\<close>
  is what it relies on, which is why the other theories have HOL lists for its topology lists.
\<close>

section \<open>The heap\<close>

type_synonym addr = nat

record list_head =
  lh_next :: addr
  lh_prev :: addr

type_synonym list_heap = "addr \<Rightarrow> list_head option"

definition get_next :: "list_heap \<Rightarrow> addr \<Rightarrow> addr option" where
  "get_next h a = map_option lh_next (h a)"

definition get_prev :: "list_heap \<Rightarrow> addr \<Rightarrow> addr option" where
  "get_prev h a = map_option lh_prev (h a)"

definition set_next :: "list_heap \<Rightarrow> addr \<Rightarrow> addr \<Rightarrow> list_heap option" where
  "set_next h a v = map_option (\<lambda>c. h(a \<mapsto> c\<lparr>lh_next := v\<rparr>)) (h a)"

definition set_prev :: "list_heap \<Rightarrow> addr \<Rightarrow> addr \<Rightarrow> list_heap option" where
  "set_prev h a v = map_option (\<lambda>c. h(a \<mapsto> c\<lparr>lh_prev := v\<rparr>)) (h a)"

section \<open>The operations\<close>

definition LIST_POISON1 :: addr where "LIST_POISON1 = 0x00100129"
definition LIST_POISON2 :: addr where "LIST_POISON2 = 0x00200229"

definition INIT_LIST_HEAD :: "addr \<Rightarrow> list_heap \<Rightarrow> list_heap option" where
  "INIT_LIST_HEAD l h = do { h \<leftarrow> set_next h l l; set_prev h l l }"

definition ZERO_LIST_HEAD :: "addr \<Rightarrow> list_heap \<Rightarrow> list_heap option" where
  "ZERO_LIST_HEAD l h = do { h \<leftarrow> set_next h l 0; set_prev h l 0 }"

definition list_add' :: "addr \<Rightarrow> addr \<Rightarrow> addr \<Rightarrow> list_heap \<Rightarrow> list_heap option" where
  "list_add' new prev next h = do {
     h \<leftarrow> set_prev h next new;
     h \<leftarrow> set_next h new next;
     h \<leftarrow> set_prev h new prev;
     set_next h prev new }"

definition list_add :: "addr \<Rightarrow> addr \<Rightarrow> list_heap \<Rightarrow> list_heap option" where
  "list_add new head h = do { n \<leftarrow> get_next h head; list_add' new head n h }"

definition list_add_tail :: "addr \<Rightarrow> addr \<Rightarrow> list_heap \<Rightarrow> list_heap option" where
  "list_add_tail new head h = do { p \<leftarrow> get_prev h head; list_add' new p head h }"

definition list_del' :: "addr \<Rightarrow> addr \<Rightarrow> list_heap \<Rightarrow> list_heap option" where
  "list_del' prev next h = do { h \<leftarrow> set_prev h next prev; set_next h prev next }"

definition list_del_entry' :: "addr \<Rightarrow> list_heap \<Rightarrow> list_heap option" where
  "list_del_entry' entry h = do { p \<leftarrow> get_prev h entry; n \<leftarrow> get_next h entry; list_del' p n h }"

definition list_del :: "addr \<Rightarrow> list_heap \<Rightarrow> list_heap option" where
  "list_del entry h = do {
     p \<leftarrow> get_prev h entry;
     n \<leftarrow> get_next h entry;
     h \<leftarrow> list_del' p n h;
     h \<leftarrow> set_next h entry LIST_POISON1;
     set_prev h entry LIST_POISON2 }"

definition list_replace :: "addr \<Rightarrow> addr \<Rightarrow> list_heap \<Rightarrow> list_heap option" where
  "list_replace old new h = do {
     n \<leftarrow> get_next h old;
     h \<leftarrow> set_next h new n;
     n \<leftarrow> get_next h new;
     h \<leftarrow> set_prev h n new;
     p \<leftarrow> get_prev h old;
     h \<leftarrow> set_prev h new p;
     p \<leftarrow> get_prev h new;
     set_next h p new }"

definition list_replace_init :: "addr \<Rightarrow> addr \<Rightarrow> list_heap \<Rightarrow> list_heap option" where
  "list_replace_init old new h = do { h \<leftarrow> list_replace old new h; INIT_LIST_HEAD old h }"

definition list_del_init :: "addr \<Rightarrow> list_heap \<Rightarrow> list_heap option" where
  "list_del_init entry h = do { h \<leftarrow> list_del_entry' entry h; INIT_LIST_HEAD entry h }"

definition list_move :: "addr \<Rightarrow> addr \<Rightarrow> list_heap \<Rightarrow> list_heap option" where
  "list_move l head h = do { h \<leftarrow> list_del_entry' l h; list_add l head h }"

definition list_move_tail :: "addr \<Rightarrow> addr \<Rightarrow> list_heap \<Rightarrow> list_heap option" where
  "list_move_tail l head h = do { h \<leftarrow> list_del_entry' l h; list_add_tail l head h }"

definition list_is_last :: "addr \<Rightarrow> addr \<Rightarrow> list_heap \<Rightarrow> bool option" where
  "list_is_last l head h = do { n \<leftarrow> get_next h l; Some (n = head) }"

definition list_empty :: "addr \<Rightarrow> list_heap \<Rightarrow> bool option" where
  "list_empty head h = do { n \<leftarrow> get_next h head; Some (n = head) }"

definition list_empty_careful :: "addr \<Rightarrow> list_heap \<Rightarrow> bool option" where
  "list_empty_careful head h = do { n \<leftarrow> get_next h head; p \<leftarrow> get_prev h head; Some (n = head \<and> n = p) }"

definition list_rotate_left :: "addr \<Rightarrow> list_heap \<Rightarrow> list_heap option" where
  "list_rotate_left head h = do {
     e \<leftarrow> list_empty head h;
     if \<not> e then do { first \<leftarrow> get_next h head; list_move_tail first head h } else Some h }"

definition list_is_singular :: "addr \<Rightarrow> list_heap \<Rightarrow> bool option" where
  "list_is_singular head h = do {
     e \<leftarrow> list_empty head h;
     if e then Some False else do { n \<leftarrow> get_next h head; p \<leftarrow> get_prev h head; Some (n = p) } }"

definition list_cut_position' :: "addr \<Rightarrow> addr \<Rightarrow> addr \<Rightarrow> list_heap \<Rightarrow> list_heap option" where
  "list_cut_position' l head entry h = do {
     new_first \<leftarrow> get_next h entry;
     n \<leftarrow> get_next h head;
     h \<leftarrow> set_next h l n;
     n \<leftarrow> get_next h l;
     h \<leftarrow> set_prev h n l;
     h \<leftarrow> set_prev h l entry;
     h \<leftarrow> set_next h entry l;
     h \<leftarrow> set_next h head new_first;
     set_prev h new_first head }"

definition list_cut_position :: "addr \<Rightarrow> addr \<Rightarrow> addr \<Rightarrow> list_heap \<Rightarrow> list_heap option" where
  "list_cut_position l head entry h = do {
     e \<leftarrow> list_empty head h;
     if e then Some h
     else do {
       s \<leftarrow> list_is_singular head h;
       n \<leftarrow> get_next h head;
       if s \<and> n \<noteq> entry \<and> head \<noteq> entry then Some h
       else if entry = head then INIT_LIST_HEAD l h
       else list_cut_position' l head entry h } }"

definition list_splice' :: "addr \<Rightarrow> addr \<Rightarrow> addr \<Rightarrow> list_heap \<Rightarrow> list_heap option" where
  "list_splice' l prev next h = do {
     first \<leftarrow> get_next h l;
     last \<leftarrow> get_prev h l;
     h \<leftarrow> set_prev h first prev;
     h \<leftarrow> set_next h prev first;
     h \<leftarrow> set_next h last next;
     set_prev h next last }"

definition list_splice :: "addr \<Rightarrow> addr \<Rightarrow> list_heap \<Rightarrow> list_heap option" where
  "list_splice l head h = do {
     e \<leftarrow> list_empty l h;
     if \<not> e then do { n \<leftarrow> get_next h head; list_splice' l head n h } else Some h }"

definition list_splice_tail :: "addr \<Rightarrow> addr \<Rightarrow> list_heap \<Rightarrow> list_heap option" where
  "list_splice_tail l head h = do {
     e \<leftarrow> list_empty l h;
     if \<not> e then do { p \<leftarrow> get_prev h head; list_splice' l p head h } else Some h }"

definition list_splice_init :: "addr \<Rightarrow> addr \<Rightarrow> list_heap \<Rightarrow> list_heap option" where
  "list_splice_init l head h = do {
     e \<leftarrow> list_empty l h;
     if \<not> e then do { n \<leftarrow> get_next h head; h \<leftarrow> list_splice' l head n h; INIT_LIST_HEAD l h } else Some h }"

definition list_splice_tail_init :: "addr \<Rightarrow> addr \<Rightarrow> list_heap \<Rightarrow> list_heap option" where
  "list_splice_tail_init l head h = do {
     e \<leftarrow> list_empty l h;
     if \<not> e then do { p \<leftarrow> get_prev h head; h \<leftarrow> list_splice' l p head h; INIT_LIST_HEAD l h } else Some h }"

section \<open>Iteration\<close>

text \<open>The loop of \<^verbatim>\<open>list_for_each\<close> and \<^verbatim>\<open>list_for_each_entry\<close>; the body maps the state and may change the heap, which is part of it.\<close>

partial_function (option) list_for_each_from ::
  "(addr \<Rightarrow> list_heap \<times> 's \<Rightarrow> (list_heap \<times> 's) option) \<Rightarrow> addr \<Rightarrow> addr \<Rightarrow> list_heap \<times> 's \<Rightarrow> (list_heap \<times> 's) option" where
  "list_for_each_from body head pos hs =
     (if pos \<noteq> head then do {
        hs \<leftarrow> body pos hs;
        pos \<leftarrow> get_next (fst hs) pos;
        list_for_each_from body head pos hs }
      else Some hs)"

definition list_for_each :: "(addr \<Rightarrow> list_heap \<times> 's \<Rightarrow> (list_heap \<times> 's) option) \<Rightarrow> addr \<Rightarrow> list_heap \<times> 's \<Rightarrow> (list_heap \<times> 's) option" where
  "list_for_each body head hs = do { pos \<leftarrow> get_next (fst hs) head; list_for_each_from body head pos hs }"

partial_function (option) list_for_each_prev_from ::
  "(addr \<Rightarrow> list_heap \<times> 's \<Rightarrow> (list_heap \<times> 's) option) \<Rightarrow> addr \<Rightarrow> addr \<Rightarrow> list_heap \<times> 's \<Rightarrow> (list_heap \<times> 's) option" where
  "list_for_each_prev_from body head pos hs =
     (if pos \<noteq> head then do {
        hs \<leftarrow> body pos hs;
        pos \<leftarrow> get_prev (fst hs) pos;
        list_for_each_prev_from body head pos hs }
      else Some hs)"

definition list_for_each_prev :: "(addr \<Rightarrow> list_heap \<times> 's \<Rightarrow> (list_heap \<times> 's) option) \<Rightarrow> addr \<Rightarrow> list_heap \<times> 's \<Rightarrow> (list_heap \<times> 's) option" where
  "list_for_each_prev body head hs = do { pos \<leftarrow> get_prev (fst hs) head; list_for_each_prev_from body head pos hs }"

partial_function (option) list_for_each_safe_from ::
  "(addr \<Rightarrow> list_heap \<times> 's \<Rightarrow> (list_heap \<times> 's) option) \<Rightarrow> addr \<Rightarrow> addr \<Rightarrow> addr \<Rightarrow> list_heap \<times> 's \<Rightarrow> (list_heap \<times> 's) option" where
  "list_for_each_safe_from body head pos n hs =
     (if pos \<noteq> head then do {
        hs \<leftarrow> body pos hs;
        n' \<leftarrow> get_next (fst hs) n;
        list_for_each_safe_from body head n n' hs }
      else Some hs)"

definition list_for_each_safe :: "(addr \<Rightarrow> list_heap \<times> 's \<Rightarrow> (list_heap \<times> 's) option) \<Rightarrow> addr \<Rightarrow> list_heap \<times> 's \<Rightarrow> (list_heap \<times> 's) option" where
  "list_for_each_safe body head hs = do {
     pos \<leftarrow> get_next (fst hs) head;
     n \<leftarrow> get_next (fst hs) pos;
     list_for_each_safe_from body head pos n hs }"

section \<open>Reads after writes\<close>

definition valid :: "list_heap \<Rightarrow> addr \<Rightarrow> bool" where
  "valid h a \<longleftrightarrow> h a \<noteq> None"

lemma set_next_spec:
  assumes "valid h a"
  shows "\<exists>h'. set_next h a v = Some h' \<and> get_next h' = (get_next h)(a \<mapsto> v) \<and> get_prev h' = get_prev h \<and> valid h' = valid h"
proof -
  obtain c where "h a = Some c" using assms by (auto simp: valid_def)
  then show ?thesis
    by (intro exI [of _ "h(a \<mapsto> c\<lparr>lh_next := v\<rparr>)"]) (auto simp: set_next_def get_next_def get_prev_def valid_def intro!: ext split: if_splits)
qed

lemma set_prev_spec:
  assumes "valid h a"
  shows "\<exists>h'. set_prev h a v = Some h' \<and> get_prev h' = (get_prev h)(a \<mapsto> v) \<and> get_next h' = get_next h \<and> valid h' = valid h"
proof -
  obtain c where "h a = Some c" using assms by (auto simp: valid_def)
  then show ?thesis
    by (intro exI [of _ "h(a \<mapsto> c\<lparr>lh_prev := v\<rparr>)"]) (auto simp: set_prev_def get_next_def get_prev_def valid_def intro!: ext split: if_splits)
qed

lemma valid_get: "get_next h a = Some b \<Longrightarrow> valid h a" "get_prev h a = Some b \<Longrightarrow> valid h a"
  by (auto simp: get_next_def get_prev_def valid_def)

lemma get_valid: "valid h a \<Longrightarrow> \<exists>b. get_next h a = Some b" "valid h a \<Longrightarrow> \<exists>b. get_prev h a = Some b"
  by (auto simp: get_next_def get_prev_def valid_def)

text \<open>Rules that run a sequence of writes.\<close>

lemma run_set_next:
  assumes "valid h a" "\<And>h1. get_next h1 = (get_next h)(a \<mapsto> v) \<Longrightarrow> get_prev h1 = get_prev h \<Longrightarrow> valid h1 = valid h \<Longrightarrow> \<exists>h'. f h1 = Some h' \<and> Q h'"
  shows "\<exists>h'. (do { h1 \<leftarrow> set_next h a v; f h1 }) = Some h' \<and> Q h'"
  using set_next_spec [OF assms(1), of v] assms(2) by auto

lemma run_set_prev:
  assumes "valid h a" "\<And>h1. get_prev h1 = (get_prev h)(a \<mapsto> v) \<Longrightarrow> get_next h1 = get_next h \<Longrightarrow> valid h1 = valid h \<Longrightarrow> \<exists>h'. f h1 = Some h' \<and> Q h'"
  shows "\<exists>h'. (do { h1 \<leftarrow> set_prev h a v; f h1 }) = Some h' \<and> Q h'"
  using set_prev_spec [OF assms(1), of v] assms(2) by auto

lemma run_get:
  "x = Some b \<Longrightarrow> \<exists>h'. f b = Some h' \<and> Q h' \<Longrightarrow> \<exists>h'. (do { n \<leftarrow> x; f n }) = Some h' \<and> Q h'"
  by simp

lemma run_call:
  "\<exists>h1. x = Some h1 \<and> P h1 \<Longrightarrow> (\<And>h1. P h1 \<Longrightarrow> \<exists>h'. f h1 = Some h' \<and> Q h') \<Longrightarrow> \<exists>h'. (do { h1 \<leftarrow> x; f h1 }) = Some h' \<and> Q h'"
  by auto

lemma run_last: "\<exists>h'. (do { h1 \<leftarrow> x; Some h1 }) = Some h' \<and> Q h' \<Longrightarrow> \<exists>h'. x = Some h' \<and> Q h'"
  by (cases x) auto

definition updated :: "list_heap \<Rightarrow> (addr \<Rightarrow> addr option) \<Rightarrow> (addr \<Rightarrow> addr option) \<Rightarrow> list_heap \<Rightarrow> bool" where
  "updated h N P h' \<longleftrightarrow> get_next h' = N \<and> get_prev h' = P \<and> valid h' = valid h"

lemma INIT_LIST_HEAD_spec:
  "valid h l \<Longrightarrow> \<exists>h'. INIT_LIST_HEAD l h = Some h' \<and> updated h ((get_next h)(l \<mapsto> l)) ((get_prev h)(l \<mapsto> l)) h'"
  unfolding INIT_LIST_HEAD_def
  by (rule run_set_next, assumption, rule run_last, rule run_set_prev) (simp_all add: updated_def)

lemma list_add'_spec:
  "valid h new \<Longrightarrow> valid h prev \<Longrightarrow> valid h nx \<Longrightarrow>
   \<exists>h'. list_add' new prev nx h = Some h' \<and>
     updated h ((get_next h)(new \<mapsto> nx, prev \<mapsto> new)) ((get_prev h)(nx \<mapsto> new, new \<mapsto> prev)) h'"
  unfolding list_add'_def
  by (rule run_set_prev, assumption, rule run_set_next, simp, rule run_set_prev, simp, rule run_last, rule run_set_next) (simp_all add: updated_def)

lemma list_del'_spec:
  "valid h prev \<Longrightarrow> valid h nx \<Longrightarrow>
   \<exists>h'. list_del' prev nx h = Some h' \<and> updated h ((get_next h)(prev \<mapsto> nx)) ((get_prev h)(nx \<mapsto> prev)) h'"
  unfolding list_del'_def
  by (rule run_set_prev, assumption, rule run_last, rule run_set_next) (simp_all add: updated_def)

section \<open>Paths\<close>

definition link :: "(addr \<Rightarrow> addr option) \<Rightarrow> (addr \<Rightarrow> addr option) \<Rightarrow> addr \<Rightarrow> addr \<Rightarrow> bool" where
  "link N P p q \<longleftrightarrow> N p = Some q \<and> P q = Some p"

fun path :: "(addr \<Rightarrow> addr option) \<Rightarrow> (addr \<Rightarrow> addr option) \<Rightarrow> addr list \<Rightarrow> bool" where
  "path N P (x # y # xs) \<longleftrightarrow> link N P x y \<and> path N P (y # xs)"
| "path N P _ \<longleftrightarrow> True"

lemma path_Cons: "path N P (x # xs) \<longleftrightarrow> (xs \<noteq> [] \<longrightarrow> link N P x (hd xs)) \<and> path N P xs"
  by (cases xs) simp_all

lemma path_append:
  "path N P (xs @ ys) \<longleftrightarrow> path N P xs \<and> path N P ys \<and> (xs \<noteq> [] \<and> ys \<noteq> [] \<longrightarrow> link N P (last xs) (hd ys))"
  by (induction xs) (auto simp: path_Cons)

lemma path_cong:
  assumes "\<And>p. p \<in> set (butlast xs) \<Longrightarrow> N' p = N p" "\<And>q. q \<in> set (tl xs) \<Longrightarrow> P' q = P q"
  shows "path N' P' xs = path N P xs"
  using assms
proof (induction N P xs rule: path.induct)
  case (1 N P x y xs)
  have "link N' P' x y = link N P x y" using "1.prems" by (simp add: link_def)
  moreover have "path N' P' (y # xs) = path N P (y # xs)"
    by (rule "1.IH") (use "1.prems" in \<open>auto split: if_splits\<close>)
  ultimately show ?case by simp
qed simp_all

text \<open>The list with the head \<open>head\<close> has the entries \<open>xs\<close>.\<close>

definition ring :: "list_heap \<Rightarrow> addr \<Rightarrow> addr list \<Rightarrow> bool" where
  "ring h head xs \<longleftrightarrow> path (get_next h) (get_prev h) (head # xs @ [head]) \<and> distinct (head # xs)"

lemma ring_at:
  assumes "ring h head (xs @ e # ys)"
  shows "get_next h e = Some (hd (ys @ [head]))" "get_prev h e = Some (last (head # xs))"
  using assms unfolding ring_def
  by (simp_all add: path_append path_Cons link_def split: if_splits) (cases ys; cases xs; simp add: path_append path_Cons link_def)+

lemma ring_head:
  assumes "ring h head xs"
  shows "get_next h head = Some (hd (xs @ [head]))" "get_prev h head = Some (last (head # xs))"
  using assms unfolding ring_def by (auto simp: path_append path_Cons link_def)

lemma ring_valid: "ring h head xs \<Longrightarrow> e \<in> set (head # xs) \<Longrightarrow> valid h e"
  using ring_at(1) ring_head(1) valid_get(1) split_list [of e xs] by fastforce

lemma ring_unique:
  assumes "ring h head xs" "ring h head ys"
  shows "xs = ys"
proof -
  have "xs = ys" if "path N P (a # xs @ [head])" "path N P (a # ys @ [head])" "head \<notin> set xs" "head \<notin> set ys" for N P a xs ys
    using that
  proof (induction xs arbitrary: a ys)
    case Nil
    then show ?case by (cases ys) (auto simp: path_Cons link_def)
  next
    case (Cons x xs)
    then show ?case by (cases ys) (auto simp: path_Cons link_def)
  qed
  then show ?thesis using assms unfolding ring_def by (metis distinct.simps(2))
qed

text \<open>A path whose middle part is replaced.\<close>

definition parts :: "addr list \<Rightarrow> addr list \<Rightarrow> bool" where
  "parts A B \<longleftrightarrow> A \<noteq> [] \<and> B \<noteq> [] \<and> distinct A \<and> distinct B \<and> set (tl A) \<inter> set B = {} \<and> set A \<inter> set (butlast B) = {}"

lemma ring_parts: "distinct (head # xs @ ys) \<Longrightarrow> parts (head # xs) (ys @ [head])"
  by (auto simp: parts_def)

lemma last_not_butlast: "distinct xs \<Longrightarrow> last xs \<notin> set (butlast xs)"
  by (cases xs rule: rev_cases) auto

lemma hd_not_tl: "distinct xs \<Longrightarrow> xs \<noteq> [] \<Longrightarrow> hd xs \<notin> set (tl xs)"
  by (cases xs) auto

lemma relink:
  assumes "path N P A" "path N P B" "parts A B" "path N' P' C" "set C \<inter> (set A \<union> set B) = {}"
    and "\<And>p. p \<noteq> last A \<Longrightarrow> p \<notin> set C \<Longrightarrow> p \<in> set A \<union> set B \<Longrightarrow> N' p = N p"
    and "\<And>q. q \<noteq> hd B \<Longrightarrow> q \<notin> set C \<Longrightarrow> q \<in> set A \<union> set B \<Longrightarrow> P' q = P q"
    and "link N' P' (last A) (hd (C @ B))" "C \<noteq> [] \<Longrightarrow> link N' P' (last C) (hd B)"
  shows "path N' P' (A @ C @ B)"
proof -
  have ab: "A \<noteq> []" "B \<noteq> []" "distinct A" "distinct B" "set (tl A) \<inter> set B = {}" "set A \<inter> set (butlast B) = {}"
    using assms(3) by (simp_all add: parts_def)
  note lb = last_not_butlast [OF ab(3)] and ht = hd_not_tl [OF ab(4,2)]
  have "path N' P' A = path N P A"
  proof (rule path_cong)
    fix p assume "p \<in> set (butlast A)"
    then have "p \<noteq> last A" "p \<in> set A" using lb in_set_butlastD by fastforce+
    then show "N' p = N p" using assms(5,6) by blast
  next
    fix q assume q: "q \<in> set (tl A)"
    then have "q \<noteq> hd B" "q \<in> set A" using ab(2,5) hd_in_set list.set_sel(2) [OF ab(1)] by fastforce+
    then show "P' q = P q" using assms(5,7) by blast
  qed
  moreover have "path N' P' B = path N P B"
  proof (rule path_cong)
    fix p assume "p \<in> set (butlast B)"
    then have "p \<noteq> last A" "p \<in> set B" using ab(1,6) last_in_set in_set_butlastD by fastforce+
    then show "N' p = N p" using assms(5,6) by blast
  next
    fix q assume "q \<in> set (tl B)"
    then have "q \<noteq> hd B" "q \<in> set B" using ht ab(2) list.set_sel(2) by fastforce+
    then show "P' q = P q" using assms(5,7) by blast
  qed
  ultimately show ?thesis using assms(1,2,4,8,9) ab(1,2) by (simp add: path_append)
qed

lemma ring_split:
  assumes "ring h head (xs @ ys)"
  shows "path (get_next h) (get_prev h) (head # xs)" "path (get_next h) (get_prev h) (ys @ [head])" "parts (head # xs) (ys @ [head])"
proof -
  have "path (get_next h) (get_prev h) ((head # xs) @ (ys @ [head]))" using assms by (simp add: ring_def)
  then show "path (get_next h) (get_prev h) (head # xs)" "path (get_next h) (get_prev h) (ys @ [head])"
    unfolding path_append by blast+
  show "parts (head # xs) (ys @ [head])" using assms by (intro ring_parts) (simp add: ring_def)
qed


section \<open>The operations on lists of entries\<close>

text \<open>\<open>other\<close> lists are those that share no node with the written ones.\<close>

lemma ring_frame:
  assumes "ring h head xs" "updated h N P h'"
    and "\<And>p. p \<in> set (head # xs) \<Longrightarrow> N p = get_next h p \<and> P p = get_prev h p"
  shows "ring h' head xs"
proof -
  have "path N P (head # xs @ [head]) = path (get_next h) (get_prev h) (head # xs @ [head])"
    by (rule path_cong) (use assms(3) in \<open>auto simp: butlast_append dest!: in_set_butlastD\<close>)
  then show ?thesis using assms(1,2) by (simp add: ring_def updated_def)
qed

lemma ring_INIT:
  assumes "valid h l"
  shows "\<exists>h'. INIT_LIST_HEAD l h = Some h' \<and> ring h' l [] \<and> valid h' = valid h \<and>
    (\<forall>head xs. ring h head xs \<and> l \<notin> set (head # xs) \<longrightarrow> ring h' head xs)"
proof -
  obtain h' where h': "INIT_LIST_HEAD l h = Some h'" "updated h ((get_next h)(l \<mapsto> l)) ((get_prev h)(l \<mapsto> l)) h'"
    using INIT_LIST_HEAD_spec [OF assms] by blast
  have "ring h' l []" using h'(2) by (simp add: ring_def updated_def link_def)
  moreover have "ring h' head xs" if "ring h head xs" "l \<notin> set (head # xs)" for head xs
    by (rule ring_frame [OF that(1) h'(2)]) (use that(2) in auto)
  ultimately show ?thesis using h' by (auto simp: updated_def)
qed

lemma ring_insert:
  assumes "ring h head (xs @ ys)" "valid h new" "new \<notin> set (head # xs @ ys)"
  shows "\<exists>h'. list_add' new (last (head # xs)) (hd (ys @ [head])) h = Some h' \<and> ring h' head (xs @ new # ys) \<and> valid h' = valid h \<and>
    (\<forall>head' zs. ring h head' zs \<and> set (head' # zs) \<inter> set (new # head # xs @ ys) = {} \<longrightarrow> ring h' head' zs)"
proof -
  let ?A = "head # xs" and ?B = "ys @ [head]"
  let ?p = "last ?A" and ?n = "hd ?B"
  let ?N = "(get_next h)(new \<mapsto> ?n, ?p \<mapsto> new)" and ?P = "(get_prev h)(?n \<mapsto> new, new \<mapsto> ?p)"
  note sp = ring_split [OF assms(1)]
  have pA: "?p \<in> set ?A" by (rule last_in_set) simp
  have nB: "?n \<in> set (head # ys)" by (cases ys) simp_all
  have valid: "valid h ?p" "valid h ?n" using ring_valid [OF assms(1)] pA nB by auto
  obtain h' where h': "list_add' new ?p ?n h = Some h'" "updated h ?N ?P h'"
    using list_add'_spec [OF assms(2) valid] by blast
  have ne: "new \<noteq> ?p" "new \<noteq> ?n" using assms(3) pA nB by auto
  have "path ?N ?P (?A @ [new] @ ?B)"
    by (rule relink [OF sp]) (use assms(3) ne in \<open>auto simp: link_def\<close>)
  then have "ring h' head (xs @ new # ys)"
    using h'(2) assms(1,3) by (simp add: ring_def updated_def)
  moreover have "ring h' head' zs" if "ring h head' zs" "set (head' # zs) \<inter> set (new # head # xs @ ys) = {}" for head' zs
    by (rule ring_frame [OF that(1) h'(2)]) (use that(2) pA nB in auto)
  ultimately show ?thesis using h' by (auto simp: updated_def)
qed

lemma ring_list_add:
  assumes "ring h head xs" "valid h new" "new \<notin> set (head # xs)"
  shows "\<exists>h'. list_add new head h = Some h' \<and> ring h' head (new # xs) \<and> valid h' = valid h \<and>
    (\<forall>head' zs. ring h head' zs \<and> set (head' # zs) \<inter> set (new # head # xs) = {} \<longrightarrow> ring h' head' zs)"
  using ring_insert [of h head "[]" xs new] assms ring_head(1) [OF assms(1)] by (simp add: list_add_def)

lemma ring_list_add_tail:
  assumes "ring h head xs" "valid h new" "new \<notin> set (head # xs)"
  shows "\<exists>h'. list_add_tail new head h = Some h' \<and> ring h' head (xs @ [new]) \<and> valid h' = valid h \<and>
    (\<forall>head' zs. ring h head' zs \<and> set (head' # zs) \<inter> set (new # head # xs) = {} \<longrightarrow> ring h' head' zs)"
  using ring_insert [of h head xs "[]" new] assms ring_head(2) [OF assms(1)] by (simp add: list_add_tail_def)

lemma ring_delete:
  assumes "ring h head (xs @ e # ys)"
  shows "\<exists>h'. list_del_entry' e h = Some h' \<and> ring h' head (xs @ ys) \<and> valid h' = valid h \<and>
    (\<forall>head' zs. ring h head' zs \<and> set (head' # zs) \<inter> set (head # xs @ ys) = {} \<longrightarrow> ring h' head' zs)"
proof -
  let ?A = "head # xs" and ?B = "ys @ [head]"
  let ?p = "last ?A" and ?n = "hd ?B"
  let ?N = "(get_next h)(?p \<mapsto> ?n)" and ?P = "(get_prev h)(?n \<mapsto> ?p)"
  have pa: "path (get_next h) (get_prev h) ?A" by (rule ring_split(1) [OF assms])
  have pb: "path (get_next h) (get_prev h) ?B" using ring_split(2) [OF assms] by (simp add: path_Cons)
  have parts: "parts ?A ?B" using assms by (intro ring_parts) (simp add: ring_def)
  have pA: "?p \<in> set ?A" by (rule last_in_set) simp
  have nB: "?n \<in> set (head # ys)" by (cases ys) simp_all
  have "valid h ?p" "valid h ?n" using ring_valid [OF assms] pA nB by auto
  from list_del'_spec [OF this] obtain h' where h': "list_del' ?p ?n h = Some h'" "updated h ?N ?P h'" by blast
  have "path ?N ?P (?A @ [] @ ?B)"
    by (rule relink [OF pa pb parts]) (auto simp: link_def)
  then have "ring h' head (xs @ ys)"
    using h'(2) assms by (simp add: ring_def updated_def)
  moreover have "list_del_entry' e h = Some h'" using ring_at [OF assms] h'(1) by (simp add: list_del_entry'_def)
  moreover have "ring h' head' zs" if "ring h head' zs" "set (head' # zs) \<inter> set (head # xs @ ys) = {}" for head' zs
    by (rule ring_frame [OF that(1) h'(2)]) (use that(2) pA nB in auto)
  ultimately show ?thesis using h' by (auto simp: updated_def)
qed

lemma ring_list_del:
  assumes "ring h head (xs @ e # ys)"
  shows "\<exists>h'. list_del e h = Some h' \<and> ring h' head (xs @ ys) \<and> get_next h' e = Some LIST_POISON1 \<and> get_prev h' e = Some LIST_POISON2"
proof -
  obtain h1 where h1: "list_del_entry' e h = Some h1" "ring h1 head (xs @ ys)" "valid h1 = valid h"
    using ring_delete [OF assms] by blast
  have e: "valid h1 e" using ring_valid [OF assms] h1(3) by simp
  obtain h2 where h2: "set_next h1 e LIST_POISON1 = Some h2" "get_next h2 = (get_next h1)(e \<mapsto> LIST_POISON1)" "get_prev h2 = get_prev h1" "valid h2 = valid h1"
    using set_next_spec [OF e] by blast
  obtain h3 where h3: "set_prev h2 e LIST_POISON2 = Some h3" "get_prev h3 = (get_prev h2)(e \<mapsto> LIST_POISON2)" "get_next h3 = get_next h2" "valid h3 = valid h2"
    using set_prev_spec [of h2 e] e h2(4) by auto
  have "updated h1 ((get_next h1)(e \<mapsto> LIST_POISON1)) ((get_prev h1)(e \<mapsto> LIST_POISON2)) h3"
    using h2 h3 by (simp add: updated_def)
  from ring_frame [OF h1(2) this] have "ring h3 head (xs @ ys)" using assms by (simp add: ring_def) force
  moreover have "list_del e h = Some h3"
    using h1(1) h2(1) h3(1) ring_at [OF assms] by (simp add: list_del_def list_del_entry'_def)
  ultimately show ?thesis using h2 h3 by (intro exI [of _ h3]) simp
qed

lemma ring_list_del_init:
  assumes "ring h head (xs @ e # ys)"
  shows "\<exists>h'. list_del_init e h = Some h' \<and> ring h' head (xs @ ys) \<and> ring h' e []"
proof -
  obtain h1 where h1: "list_del_entry' e h = Some h1" "ring h1 head (xs @ ys)" "valid h1 = valid h"
    using ring_delete [OF assms] by blast
  have "valid h1 e" using ring_valid [OF assms] h1(3) by simp
  from ring_INIT [OF this] obtain h2 where "INIT_LIST_HEAD e h1 = Some h2" "ring h2 e []"
      "\<forall>head xs. ring h1 head xs \<and> e \<notin> set (head # xs) \<longrightarrow> ring h2 head xs" by blast
  moreover have "e \<notin> set (head # xs @ ys)" using assms by (auto simp: ring_def)
  ultimately show ?thesis using h1 by (auto simp: list_del_init_def)
qed

lemma ring_move:
  assumes "ring h head (xs @ e # ys)"
  shows "\<exists>h'. list_move e head h = Some h' \<and> ring h' head (e # xs @ ys)"
    and "\<exists>h'. list_move_tail e head h = Some h' \<and> ring h' head (xs @ ys @ [e])"
proof -
  obtain h1 where h1: "list_del_entry' e h = Some h1" "ring h1 head (xs @ ys)" "valid h1 = valid h"
    using ring_delete [OF assms] by blast
  have e: "valid h1 e" "e \<notin> set (head # xs @ ys)" using assms ring_valid [OF assms] h1(3) by (auto simp: ring_def)
  show "\<exists>h'. list_move e head h = Some h' \<and> ring h' head (e # xs @ ys)"
    using ring_list_add [OF h1(2) e] h1(1) by (auto simp: list_move_def)
  show "\<exists>h'. list_move_tail e head h = Some h' \<and> ring h' head (xs @ ys @ [e])"
    using ring_list_add_tail [OF h1(2) e] h1(1) by (auto simp: list_move_tail_def)
qed

lemma ring_tests:
  assumes "ring h head xs"
  shows "list_empty head h = Some (xs = [])" "list_empty_careful head h = Some (xs = [])"
    "list_is_singular head h = Some (length xs = 1)"
    "e \<in> set xs \<Longrightarrow> list_is_last e head h = Some (e = last xs)"
proof -
  have d: "distinct (head # xs)" using assms by (simp add: ring_def)
  have hd: "hd (xs @ [head]) = head \<longleftrightarrow> xs = []" using d by (cases xs) auto
  have last: "last (head # xs) = head \<longleftrightarrow> xs = []" using d last_in_set [of xs] by (cases "xs = []") auto
  note rh = ring_head [OF assms]
  show e: "list_empty head h = Some (xs = [])" using rh(1) hd by (simp add: list_empty_def)
  show "list_empty_careful head h = Some (xs = [])" using rh hd last by (auto simp: list_empty_careful_def)
  have "xs \<noteq> [] \<Longrightarrow> hd (xs @ [head]) = last (head # xs) \<longleftrightarrow> length xs = 1"
    using d by (cases xs; cases "tl xs") (auto split: if_splits dest: last_in_set)
  then show "list_is_singular head h = Some (length xs = 1)" using rh e by (auto simp: list_is_singular_def)
  assume "e \<in> set xs"
  then obtain ys zs where s: "xs = ys @ e # zs" by (meson split_list)
  have "hd (zs @ [head]) = head \<longleftrightarrow> zs = []" using d s by (cases zs) auto
  moreover have "e = last xs \<longleftrightarrow> zs = []" using d s last_in_set [of zs] by (cases "zs = []") auto
  ultimately show "list_is_last e head h = Some (e = last xs)"
    using ring_at(1) [of h head ys e zs] assms s by (simp add: list_is_last_def)
qed

lemma ring_rotate_left:
  assumes "ring h head xs"
  shows "\<exists>h'. list_rotate_left head h = Some h' \<and> ring h' head (rotate1 xs)"
proof (cases xs)
  case Nil
  then show ?thesis using assms ring_tests(1) [OF assms] by (simp add: list_rotate_left_def)
next
  case (Cons x ys)
  then show ?thesis
    using ring_move(2) [of h head "[]" x ys] assms ring_tests(1) [OF assms] ring_head(1) [OF assms]
    by (simp add: list_rotate_left_def)
qed


lemma ring_splice':
  assumes "ring h l zs" "zs \<noteq> []" "ring h head (xs @ ys)" "set (l # zs) \<inter> set (head # xs @ ys) = {}"
  shows "\<exists>h'. list_splice' l (last (head # xs)) (hd (ys @ [head])) h = Some h' \<and> ring h' head (xs @ zs @ ys) \<and> valid h' = valid h"
proof -
  define p where "p = last (head # xs)"
  let ?A = "head # xs" and ?B = "ys @ [head]"
  let ?p = "p" and ?n = "hd ?B" and ?f = "hd zs" and ?l = "last zs"
  let ?N = "(get_next h)(?p \<mapsto> ?f, ?l \<mapsto> ?n)" and ?P = "(get_prev h)(?f \<mapsto> ?p, ?n \<mapsto> ?l)"
  note sp = ring_split [OF assms(3)]
  have pA: "?p \<in> set ?A" unfolding p_def by (rule last_in_set) simp
  have nB: "?n \<in> set (head # ys)" by (cases ys) simp_all
  have fl: "?f \<in> set zs" "?l \<in> set zs" using assms(2) by simp_all
  have valid: "valid h ?p" "valid h ?n" "valid h ?f" "valid h ?l"
    using ring_valid [OF assms(3)] ring_valid [OF assms(1)] pA nB fl by auto
  have g: "get_next h l = Some ?f" "get_prev h l = Some ?l" using ring_head [OF assms(1)] assms(2) by simp_all
  have "\<exists>h'. list_splice' l ?p ?n h = Some h' \<and> updated h ?N ?P h'"
    unfolding list_splice'_def
    by (rule run_get, rule g, rule run_get, rule g, rule run_set_prev, rule valid, rule run_set_next, simp add: valid,
        rule run_set_next, simp add: valid, rule run_last, rule run_set_prev) (simp_all add: valid updated_def)
  then obtain h' where h': "list_splice' l ?p ?n h = Some h'" "updated h ?N ?P h'" by blast
  have dz: "distinct zs" using assms(1) by (simp add: ring_def)
  have dis: "?p \<notin> set zs" "?n \<notin> set zs" "set zs \<inter> (set ?A \<union> set ?B) = {}" using assms(4) pA nB by auto
  have ne: "?f \<noteq> ?n" "?l \<noteq> ?p" using fl dis(1,2) by metis+
  have "path ?N ?P zs = path (get_next h) (get_prev h) zs"
  proof (rule path_cong)
    fix q assume "q \<in> set (butlast zs)"
    then show "?N q = get_next h q" using last_not_butlast [OF dz] dis(1) in_set_butlastD by fastforce
  next
    fix q assume "q \<in> set (tl zs)"
    then show "?P q = get_prev h q" using hd_not_tl [OF dz assms(2)] dis(2) list.set_sel(2) [OF assms(2)] by fastforce
  qed
  moreover have "path (get_next h) (get_prev h) zs" using assms(1) by (simp add: ring_def path_Cons path_append)
  ultimately have pz: "path ?N ?P zs" by simp
  have "path ?N ?P (?A @ zs @ ?B)"
    by (rule relink [OF sp pz dis(3)]) (use ne dis assms(2) in \<open>auto simp: link_def p_def [symmetric] simp del: last.simps\<close>)
  then have "ring h' head (xs @ zs @ ys)"
    using h'(2) assms dz by (auto simp: ring_def updated_def)
  then show ?thesis using h' unfolding p_def [symmetric] by (auto simp: updated_def)
qed

lemma ring_list_splice:
  assumes "ring h l zs" "ring h head xs" "set (l # zs) \<inter> set (head # xs) = {}"
  shows "\<exists>h'. list_splice l head h = Some h' \<and> ring h' head (zs @ xs)"
    and "\<exists>h'. list_splice_tail l head h = Some h' \<and> ring h' head (xs @ zs)"
    and "\<exists>h'. list_splice_init l head h = Some h' \<and> ring h' head (zs @ xs) \<and> ring h' l []"
    and "\<exists>h'. list_splice_tail_init l head h = Some h' \<and> ring h' head (xs @ zs) \<and> ring h' l []"
proof -
  note e = ring_tests(1) [OF assms(1)] and rh = ring_head [OF assms(2)]
  have l: "valid h l" using ring_valid [OF assms(1)] by simp
  have lout: "l \<notin> set (head # zs @ xs)" "l \<notin> set (head # xs @ zs)" using assms(1,3) by (auto simp: ring_def)
  have 1: "\<exists>h'. list_splice' l head (hd (xs @ [head])) h = Some h' \<and> ring h' head (zs @ xs) \<and> valid h' = valid h" if "zs \<noteq> []"
    using ring_splice' [OF assms(1) that, of head "[]" xs] assms(2,3) by simp
  have 2: "\<exists>h'. list_splice' l (last (head # xs)) head h = Some h' \<and> ring h' head (xs @ zs) \<and> valid h' = valid h" if "zs \<noteq> []"
    using ring_splice' [OF assms(1) that, of head xs "[]"] assms(2,3) by simp
  have init: "\<exists>h2. INIT_LIST_HEAD l h1 = Some h2 \<and> ring h2 head ws \<and> ring h2 l []"
    if "ring h1 head ws" "valid h1 = valid h" "l \<notin> set (head # ws)" for h1 ws
    using ring_INIT [of h1 l] that l by auto
  show "\<exists>h'. list_splice l head h = Some h' \<and> ring h' head (zs @ xs)"
    using 1 e rh assms(2) by (cases "zs = []") (auto simp: list_splice_def)
  show "\<exists>h'. list_splice_tail l head h = Some h' \<and> ring h' head (xs @ zs)"
    using 2 e rh assms(2) by (cases "zs = []") (auto simp: list_splice_tail_def)
  show "\<exists>h'. list_splice_init l head h = Some h' \<and> ring h' head (zs @ xs) \<and> ring h' l []"
  proof (cases "zs = []")
    case True
    then show ?thesis using e assms(1,2) by (simp add: list_splice_init_def)
  next
    case False
    then show ?thesis using 1 [OF False] init [OF _ _ lout(1)] e rh by (fastforce simp: list_splice_init_def)
  qed
  show "\<exists>h'. list_splice_tail_init l head h = Some h' \<and> ring h' head (xs @ zs) \<and> ring h' l []"
  proof (cases "zs = []")
    case True
    then show ?thesis using e assms(1,2) by (simp add: list_splice_tail_init_def)
  next
    case False
    then show ?thesis using 2 [OF False] init [OF _ _ lout(2)] e rh by (fastforce simp: list_splice_tail_init_def)
  qed
qed

lemma ring_replace:
  assumes "ring h head (xs @ old # ys)" "valid h new" "new \<notin> set (head # xs @ old # ys)"
  shows "\<exists>h'. list_replace old new h = Some h' \<and> ring h' head (xs @ new # ys) \<and> valid h' = valid h"
proof -
  define p where "p = last (head # xs)"
  let ?A = "head # xs" and ?B = "ys @ [head]"
  let ?p = "p" and ?n = "hd ?B"
  let ?N = "(get_next h)(new \<mapsto> ?n, ?p \<mapsto> new)" and ?P = "(get_prev h)(?n \<mapsto> new, new \<mapsto> ?p)"
  have pa: "path (get_next h) (get_prev h) ?A" by (rule ring_split(1) [OF assms(1)])
  have pb: "path (get_next h) (get_prev h) ?B" using ring_split(2) [OF assms(1)] by (simp add: path_Cons)
  have parts: "parts ?A ?B" using assms(1) by (intro ring_parts) (simp add: ring_def)
  have pA: "?p \<in> set ?A" unfolding p_def by (rule last_in_set) simp
  have nB: "?n \<in> set (head # ys)" by (cases ys) simp_all
  have valid: "valid h ?p" "valid h ?n" using ring_valid [OF assms(1)] pA nB by auto
  have g: "get_next h old = Some ?n" "get_prev h old = Some ?p" unfolding p_def using ring_at [OF assms(1)] .
  have ne: "new \<noteq> ?p" "new \<noteq> ?n" "?n \<noteq> old" "new \<noteq> old" using assms(1,3) pA nB by (auto simp: ring_def)
  have "\<exists>h'. list_replace old new h = Some h' \<and> updated h ?N ?P h'"
    unfolding list_replace_def
    by (rule run_get, rule g, rule run_set_next, rule assms(2), rule run_get [where b = "?n"], simp,
        rule run_set_prev, simp add: valid, rule run_get [where b = "?p"], simp add: g ne(3) [symmetric], rule run_set_prev, simp add: assms(2),
        rule run_get [where b = "?p"], simp, rule run_last, rule run_set_next) (simp_all add: valid updated_def)
  then obtain h' where h': "list_replace old new h = Some h'" "updated h ?N ?P h'" by blast
  have "path ?N ?P (?A @ [new] @ ?B)"
    by (rule relink [OF pa pb parts]) (use assms(3) ne in \<open>auto simp: link_def p_def [symmetric] last_ConsL simp del: last.simps\<close>)
  then have "ring h' head (xs @ new # ys)"
    using h'(2) assms(1,3) by (simp add: ring_def updated_def)
  then show ?thesis using h' by (auto simp: updated_def)
qed

lemma ring_replace_init:
  assumes "ring h head (xs @ old # ys)" "valid h new" "new \<notin> set (head # xs @ old # ys)"
  shows "\<exists>h'. list_replace_init old new h = Some h' \<and> ring h' head (xs @ new # ys) \<and> ring h' old []"
proof -
  obtain h1 where h1: "list_replace old new h = Some h1" "ring h1 head (xs @ new # ys)" "valid h1 = valid h"
    using ring_replace [OF assms] by blast
  have "valid h1 old" using ring_valid [OF assms(1)] h1(3) by simp
  from ring_INIT [OF this] h1 assms show ?thesis by (fastforce simp: list_replace_init_def ring_def)
qed

lemma ring_cut:
  assumes "ring h head (xs @ e # ys)" "valid h l" "l \<notin> set (head # xs @ e # ys)"
  shows "\<exists>h'. list_cut_position l head e h = Some h' \<and> ring h' l (xs @ [e]) \<and> ring h' head ys"
proof -
  let ?n = "hd (xs @ [e])" and ?f = "hd (ys @ [head])"
  let ?N = "(get_next h)(l \<mapsto> ?n, e \<mapsto> l, head \<mapsto> ?f)" and ?P = "(get_prev h)(?n \<mapsto> l, l \<mapsto> e, ?f \<mapsto> head)"
  have d: "distinct (head # xs @ e # ys)" using assms(1) by (simp add: ring_def)
  have nX: "?n \<in> set (xs @ [e])" by (cases xs) simp_all
  have fY: "?f \<in> set (head # ys)" by (cases ys) simp_all
  have valid: "valid h ?n" "valid h ?f" "valid h head" "valid h e" using ring_valid [OF assms(1)] nX fY by auto
  have g: "get_next h e = Some ?f" "get_next h head = Some ?n"
    using ring_at(1) [OF assms(1)] ring_head(1) [OF assms(1)] by (simp, cases xs, simp_all)
  have "\<exists>h'. list_cut_position' l head e h = Some h' \<and> updated h ?N ?P h'"
    unfolding list_cut_position'_def
    by (rule run_get, rule g, rule run_get, rule g, rule run_set_next, rule assms(2), rule run_get [where b = "?n"], simp,
        rule run_set_prev, simp add: valid, rule run_set_prev, simp add: assms(2), rule run_set_next, simp add: valid,
        rule run_set_next, simp add: valid, rule run_last, rule run_set_prev) (simp_all add: valid updated_def)
  then obtain h' where h': "list_cut_position' l head e h = Some h'" "updated h ?N ?P h'" by blast
  have p: "path (get_next h) (get_prev h) (xs @ [e])" "path (get_next h) (get_prev h) (ys @ [head])"
    using assms(1) unfolding ring_def by (simp_all add: path_Cons path_append)
  have "path ?N ?P (xs @ [e]) = path (get_next h) (get_prev h) (xs @ [e])"
  proof (rule path_cong)
    fix q assume "q \<in> set (butlast (xs @ [e]))"
    then show "?N q = get_next h q" using d assms(3) by auto
  next
    fix q assume q: "q \<in> set (tl (xs @ [e]))"
    then have "q \<noteq> ?n" "q \<in> set (xs @ [e])" using d by (cases xs; auto)+
    then show "?P q = get_prev h q" using d assms(3) fY by auto
  qed
  moreover have "path ?N ?P (ys @ [head]) = path (get_next h) (get_prev h) (ys @ [head])"
  proof (rule path_cong)
    fix q assume "q \<in> set (butlast (ys @ [head]))"
    then show "?N q = get_next h q" using d assms(3) by auto
  next
    fix q assume q: "q \<in> set (tl (ys @ [head]))"
    then have "q \<noteq> ?f" "q \<in> set (ys @ [head])" using d by (cases ys; auto)+
    then show "?P q = get_prev h q" using d assms(3) nX by auto
  qed
  ultimately have "path ?N ?P (xs @ [e])" "path ?N ?P (ys @ [head])" using p by simp_all
  moreover have "link ?N ?P l ?n" "link ?N ?P e l" "link ?N ?P head ?f"
    using d assms(3) nX fY by (auto simp: link_def)
  moreover have "hd (xs @ [e, l]) = ?n" by (cases xs) simp_all
  ultimately have "ring h' l (xs @ [e])" "ring h' head ys"
    using h'(2) d assms(3) unfolding ring_def updated_def by (auto simp: path_Cons path_append)
  moreover have "list_cut_position l head e h = Some h'"
  proof -
    have "\<not> (length (xs @ e # ys) = 1 \<and> ?n \<noteq> e)" by (cases xs) simp_all
    then show ?thesis
      using ring_tests(1,3) [OF assms(1)] g(2) h'(1) d by (auto simp: list_cut_position_def)
  qed
  ultimately show ?thesis by blast
qed


section \<open>Iteration visits the entries in order\<close>

lemma ring_drop: "ring h head (xs @ ys) \<Longrightarrow> get_next h (last (head # xs)) = Some (hd (ys @ [head]))"
  by (auto simp: ring_def path_append path_Cons link_def)

lemma list_for_each_from_eq:
  assumes "ring h head (xs @ ys)" "\<And>e s. body e (h, s) = Some (h, f e s)"
  shows "list_for_each_from body head (hd (ys @ [head])) (h, s) = Some (h, fold f ys s)"
  using assms(1)
proof (induction ys arbitrary: xs s)
  case Nil
  then show ?case by (simp add: list_for_each_from.simps)
next
  case (Cons y ys)
  have "y \<noteq> head" using Cons.prems by (auto simp: ring_def)
  moreover have "get_next h y = Some (hd (ys @ [head]))" by (rule ring_at(1) [OF Cons.prems])
  moreover have "list_for_each_from body head (hd (ys @ [head])) (h, f y s) = Some (h, fold f ys (f y s))"
    using Cons.IH [of "xs @ [y]"] Cons.prems by simp
  ultimately show ?case by (simp add: list_for_each_from.simps [of body head y] assms(2))
qed

lemma list_for_each_eq:
  assumes "ring h head xs" "\<And>e s. body e (h, s) = Some (h, f e s)"
  shows "list_for_each body head (h, s) = Some (h, fold f xs s)"
  using list_for_each_from_eq [of h head "[]" xs body f s] assms ring_head(1) [OF assms(1)] by (simp add: list_for_each_def)

lemma list_for_each_prev_from_eq:
  assumes "ring h head (xs @ ys)" "\<And>e s. body e (h, s) = Some (h, f e s)"
  shows "list_for_each_prev_from body head (last (head # xs)) (h, s) = Some (h, fold f (rev xs) s)"
  using assms(1)
proof (induction xs arbitrary: ys s rule: rev_induct)
  case Nil
  then show ?case by (simp add: list_for_each_prev_from.simps)
next
  case (snoc x xs)
  have "x \<noteq> head" using snoc.prems by (auto simp: ring_def)
  moreover have "get_prev h x = Some (last (head # xs))" using ring_at(2) [of h head xs x ys] snoc.prems by simp
  moreover have "list_for_each_prev_from body head (last (head # xs)) (h, f x s) = Some (h, fold f (rev xs) (f x s))"
    using snoc.IH [of "x # ys"] snoc.prems by simp
  ultimately show ?case by (simp add: list_for_each_prev_from.simps [of body head x] assms(2) del: last.simps) (simp add: list_for_each_prev_from.simps [of body head x] assms(2))
qed

lemma list_for_each_prev_eq:
  assumes "ring h head xs" "\<And>e s. body e (h, s) = Some (h, f e s)"
  shows "list_for_each_prev body head (h, s) = Some (h, fold f (rev xs) s)"
  using list_for_each_prev_from_eq [of h head xs "[]" body f s] assms ring_head(2) [OF assms(1)] by (simp add: list_for_each_prev_def)

text \<open>The safe loop may delete the current entry; the plain one then follows the poison.\<close>

definition delete_entry :: "addr \<Rightarrow> list_heap \<times> addr list \<Rightarrow> (list_heap \<times> addr list) option" where
  "delete_entry e = (\<lambda>(h, s). do { h \<leftarrow> list_del e h; Some (h, s @ [e]) })"

lemma delete_entry_apply: "delete_entry e (h, s) = do { h \<leftarrow> list_del e h; Some (h, s @ [e]) }"
  by (simp add: delete_entry_def)

lemma list_for_each_safe_from_delete:
  assumes "ring h head (x # xs)" 
  shows "\<exists>h'. list_for_each_safe_from delete_entry head x (hd (xs @ [head])) (h, s) = Some (h', s @ x # xs) \<and> ring h' head []"
  using assms
proof (induction xs arbitrary: h x s)
  case Nil
  obtain h1 where h1: "list_del x h = Some h1" "ring h1 head []" using ring_list_del [of h head "[]" x "[]"] Nil by auto
  moreover have "get_next h1 head = Some head" using ring_head(1) [OF h1(2)] by simp
  moreover have "x \<noteq> head" using Nil by (auto simp: ring_def)
  ultimately show ?case
    by (intro exI [of _ h1]) (simp add: list_for_each_safe_from.simps [of _ _ x] list_for_each_safe_from.simps [of _ _ head] delete_entry_apply)
next
  case (Cons y ys)
  obtain h1 where h1: "list_del x h = Some h1" "ring h1 head (y # ys)" using ring_list_del [of h head "[]" x "y # ys"] Cons.prems by auto
  have "get_next h1 y = Some (hd (ys @ [head]))" using ring_at(1) [of h1 head "[]" y ys] h1(2) by simp
  moreover have "x \<noteq> head" using Cons.prems by (auto simp: ring_def)
  moreover obtain h' where "list_for_each_safe_from delete_entry head y (hd (ys @ [head])) (h1, s @ [x]) = Some (h', (s @ [x]) @ y # ys)" "ring h' head []"
    using Cons.IH [OF h1(2), of "s @ [x]"] by blast
  ultimately show ?case using h1(1) by (intro exI [of _ h']) (simp add: list_for_each_safe_from.simps [of _ _ x] delete_entry_apply)
qed

lemma list_for_each_safe_delete:
  assumes "ring h head xs"
  shows "\<exists>h'. list_for_each_safe delete_entry head (h, []) = Some (h', xs) \<and> ring h' head []"
proof (cases xs)
  case Nil
  then show ?thesis using assms ring_head(1) [OF assms] by (simp add: list_for_each_safe_def list_for_each_safe_from.simps)
next
  case (Cons x ys)
  then show ?thesis
    using list_for_each_safe_from_delete [of h head x ys "[]"] assms ring_head(1) [OF assms] ring_at(1) [of h head "[]" x ys]
    by (simp add: list_for_each_safe_def)
qed

lemma list_for_each_delete_fails:
  assumes "ring h head (x # xs)" "\<not> valid h LIST_POISON1"
  shows "list_for_each delete_entry head (h, []) = None"
proof -
  obtain h1 where h1: "list_del x h = Some h1" "get_next h1 x = Some LIST_POISON1"
    using ring_list_del [of h head "[]" x xs] assms(1) by auto
  have v: "valid h1 = valid h"
  proof -
    have "set_next h a v = Some h' \<Longrightarrow> valid h' = valid h" "set_prev h a v = Some h' \<Longrightarrow> valid h' = valid h" for h h' a v
      using set_next_spec [of h a v] set_prev_spec [of h a v] by (auto simp: valid_def set_next_def set_prev_def)
    then show ?thesis using h1(1) by (auto simp: list_del_def list_del'_def bind_eq_Some_conv)
  qed
  have nx: "get_next h1 LIST_POISON1 = None" "h1 LIST_POISON1 = None"
  proof -
    have "\<not> valid h1 LIST_POISON1" using assms(2) v by simp
    then show "get_next h1 LIST_POISON1 = None" "h1 LIST_POISON1 = None" by (simp_all add: get_next_def valid_def)
  qed
  have "x \<noteq> head" using assms(1) by (auto simp: ring_def)
  moreover have "get_next h head = Some x" using ring_head(1) [OF assms(1)] by simp
  moreover have "list_for_each_from delete_entry head LIST_POISON1 (h1, [x]) = None"
  proof -
    have "LIST_POISON1 \<noteq> head" using assms ring_valid [OF assms(1), of head] by auto
    moreover have "list_del LIST_POISON1 h1 = None" by (simp add: list_del_def get_prev_def nx)
    ultimately show ?thesis by (simp add: list_for_each_from.simps [of _ _ LIST_POISON1] delete_entry_apply)
  qed
  ultimately show ?thesis
    using h1 by (simp add: list_for_each_def list_for_each_from.simps [of _ _ x] delete_entry_apply)
qed


section \<open>The contract of a list that is filled from the tail\<close>

text \<open>What \<^verbatim>\<open>mpipin.c\<close> relies on for its topology lists: \<^verbatim>\<open>list_add_tail\<close> appends, the loops read the entries in order.\<close>

locale tail_list =
  fixes add_tail :: "'a \<Rightarrow> 'h \<Rightarrow> 'h option"
    and walk :: "'h \<Rightarrow> 'a list option"
    and holds :: "'h \<Rightarrow> 'a list \<Rightarrow> bool"
    and fresh :: "'h \<Rightarrow> 'a \<Rightarrow> bool"
  assumes add_tail_law: "holds h xs \<Longrightarrow> fresh h x \<Longrightarrow> x \<notin> set xs \<Longrightarrow>
      \<exists>h'. add_tail x h = Some h' \<and> holds h' (xs @ [x]) \<and> (\<forall>y. fresh h y \<longrightarrow> fresh h' y)"
    and walk_law: "holds h xs \<Longrightarrow> walk h = Some xs"
begin

lemma add_all:
  assumes "holds h xs" "\<forall>x \<in> set es. fresh h x" "distinct (xs @ es)"
  shows "\<exists>h'. fold_opt add_tail es h = Some h' \<and> holds h' (xs @ es)"
  using assms
proof (induction es arbitrary: h xs)
  case (Cons e es)
  then obtain h1 where h1: "add_tail e h = Some h1" "holds h1 (xs @ [e])" "\<forall>y. fresh h y \<longrightarrow> fresh h1 y"
    using add_tail_law [of h xs e] by auto
  have "\<exists>h'. fold_opt add_tail es h1 = Some h' \<and> holds h' ((xs @ [e]) @ es)"
    by (rule Cons.IH [OF h1(2)]) (use Cons.prems h1(3) in auto)
  then show ?case using h1(1) by simp
qed simp

lemma walk_after_adds:
  assumes "holds h []" "\<forall>x \<in> set es. fresh h x" "distinct es"
  shows "\<exists>h'. fold_opt add_tail es h = Some h' \<and> walk h' = Some es"
  using add_all [OF assms(1,2)] assms(3) walk_law by fastforce

end

definition list_walk :: "addr \<Rightarrow> list_heap \<Rightarrow> addr list option" where
  "list_walk head h = map_option snd (list_for_each (\<lambda>e (h, s). Some (h, s @ [e])) head (h, []))"

lemma fold_snoc: "fold (\<lambda>e s. s @ [e]) xs s = s @ xs"
  by (induction xs arbitrary: s) simp_all

interpretation entries: tail_list "\<lambda>e. list_add_tail e head" "list_walk head" "\<lambda>h. ring h head" "\<lambda>h e. valid h e \<and> e \<noteq> head" for head
proof
  fix h xs x
  assume "ring h head xs" "valid h x \<and> x \<noteq> head" "x \<notin> set xs"
  then show "\<exists>h'. list_add_tail x head h = Some h' \<and> ring h' head (xs @ [x]) \<and> (\<forall>y. valid h y \<and> y \<noteq> head \<longrightarrow> valid h' y \<and> y \<noteq> head)"
    using ring_list_add_tail [of h head xs x] by auto
next
  fix h xs
  assume "ring h head xs"
  from list_for_each_eq [OF this, of "\<lambda>e (h, s). Some (h, s @ [e])" "\<lambda>e s. s @ [e]"]
  show "list_walk head h = Some xs" by (simp add: list_walk_def fold_snoc)
qed

section \<open>Properties\<close>

text \<open>
  C28. On a list with the entries \<open>xs\<close>, \<open>e\<close>, \<open>ys\<close> the operations that take \<open>e\<close> out, move it, or replace it
  by \<open>new\<close>, and the cut behind \<open>e\<close>, do to the list of entries what their names say, at both ends of the list too.
\<close>

theorem list_operations:
  assumes "ring h head (xs @ e # ys)" "valid h new" "new \<notin> set (head # xs @ e # ys)"
  shows "(\<exists>h'. list_del e h = Some h' \<and> ring h' head (xs @ ys) \<and> get_next h' e = Some LIST_POISON1 \<and> get_prev h' e = Some LIST_POISON2) \<and>
    (\<exists>h'. list_del_init e h = Some h' \<and> ring h' head (xs @ ys) \<and> ring h' e []) \<and>
    (\<exists>h'. list_move e head h = Some h' \<and> ring h' head (e # xs @ ys)) \<and>
    (\<exists>h'. list_move_tail e head h = Some h' \<and> ring h' head (xs @ ys @ [e])) \<and>
    (\<exists>h'. list_replace e new h = Some h' \<and> ring h' head (xs @ new # ys)) \<and>
    (\<exists>h'. list_cut_position new head e h = Some h' \<and> ring h' new (xs @ [e]) \<and> ring h' head ys) \<and>
    (\<exists>h'. list_rotate_left head h = Some h' \<and> ring h' head (rotate1 (xs @ e # ys)))"
  using ring_list_del [OF assms(1)] ring_list_del_init [OF assms(1)] ring_move [OF assms(1)] ring_replace [OF assms]
    ring_cut [OF assms] ring_rotate_left [OF assms(1)]
  by (intro conjI) (assumption | blast)+

text \<open>
  What is added to a list is found by a walk over it, in order, and taking it out again restores the list; other
  lists are not touched.
\<close>

theorem list_add_del_round_trip:
  assumes "ring h head xs" "valid h new" "new \<notin> set (head # xs)" "ring h other zs" "set (other # zs) \<inter> set (new # head # xs) = {}"
  shows "\<exists>h1 h2 h3. list_add_tail new head h = Some h1 \<and> list_walk head h1 = Some (xs @ [new]) \<and> ring h1 other zs \<and>
    list_add new head h = Some h2 \<and> list_walk head h2 = Some (new # xs) \<and> ring h2 other zs \<and>
    list_del_init new h1 = Some h3 \<and> list_walk head h3 = Some xs \<and> list_empty new h3 = Some True"
proof -
  obtain h1 where h1: "list_add_tail new head h = Some h1" "ring h1 head (xs @ [new])" "ring h1 other zs"
    using ring_list_add_tail [OF assms(1-3)] assms(4,5) by blast
  obtain h2 where h2: "list_add new head h = Some h2" "ring h2 head (new # xs)" "ring h2 other zs"
    using ring_list_add [OF assms(1-3)] assms(4,5) by blast
  obtain h3 where h3: "list_del_init new h1 = Some h3" "ring h3 head xs" "ring h3 new []"
    using ring_list_del_init [of h1 head xs new "[]"] h1(2) by auto
  show ?thesis
    using h1 h2 h3(1) entries.walk_law [OF h1(2)] entries.walk_law [OF h2(2)] entries.walk_law [OF h3(2)] ring_tests(1) [OF h3(3)]
    by simp
qed

text \<open>
  \<^verbatim>\<open>list_for_each_safe\<close> may delete the current entry: deleting in every step visits all entries in order and leaves the
  list empty. The same loop with \<^verbatim>\<open>list_for_each\<close> follows the poisoned pointer of the first entry.
\<close>

theorem list_delete_while_iterating:
  assumes "ring h head (x # xs)" "\<not> valid h LIST_POISON1"
  shows "(\<exists>h'. list_for_each_safe delete_entry head (h, []) = Some (h', x # xs) \<and> list_empty head h' = Some True) \<and>
    list_for_each delete_entry head (h, []) = None"
proof -
  obtain h' where "list_for_each_safe delete_entry head (h, []) = Some (h', x # xs)" "ring h' head []"
    using list_for_each_safe_delete [OF assms(1)] by blast
  then show ?thesis using list_for_each_delete_fails [OF assms] ring_tests(1) by fastforce
qed

section \<open>A concrete list\<close>

text \<open>A list at 1 with the entries 2 and 3, an empty list at 4, and an entry at 5.\<close>

definition example_heap :: list_heap where
  "example_heap = [1 \<mapsto> \<lparr>lh_next = 2, lh_prev = 3\<rparr>, 2 \<mapsto> \<lparr>lh_next = 3, lh_prev = 1\<rparr>, 3 \<mapsto> \<lparr>lh_next = 1, lh_prev = 2\<rparr>,
     4 \<mapsto> \<lparr>lh_next = 4, lh_prev = 4\<rparr>, 5 \<mapsto> \<lparr>lh_next = 0, lh_prev = 0\<rparr>]"


lemma example_rings: "ring example_heap 1 [2, 3]" "ring example_heap 4 []" "valid example_heap 5" "\<not> valid example_heap LIST_POISON1"
  by (simp_all add: ring_def link_def get_next_def get_prev_def valid_def example_heap_def LIST_POISON1_def)

theorem list_operations_witness:
  "(\<exists>h'. list_del 3 example_heap = Some h' \<and> ring h' 1 [2]) \<and> (\<exists>h'. list_move 3 1 example_heap = Some h' \<and> ring h' 1 [3, 2]) \<and>
   (\<exists>h'. list_replace 3 5 example_heap = Some h' \<and> ring h' 1 [2, 5])"
  using list_operations [of example_heap 1 "[2]" 3 "[]" 5] example_rings(1,3) by auto

theorem list_add_del_round_trip_witness:
  "\<exists>h1 h3. list_add_tail 5 1 example_heap = Some h1 \<and> list_walk 1 h1 = Some [2, 3, 5] \<and> list_del_init 5 h1 = Some h3 \<and>
     list_walk 1 h3 = Some [2, 3]"
  using list_add_del_round_trip [OF example_rings(1,3) _ example_rings(2)] by auto

theorem list_delete_while_iterating_witness:
  "(\<exists>h'. list_for_each_safe delete_entry 1 (example_heap, []) = Some (h', [2, 3])) \<and> list_for_each delete_entry 1 (example_heap, []) = None"
  using list_delete_while_iterating [OF example_rings(1,4)] by auto

end
