(* ===== verification/List_Entries.thy ===== *)
theory List_Entries
  imports Linked_List
begin

text \<open>
  The macros of \<^verbatim>\<open>include/list.h\<close> that iterate over the structures in which the list heads are embedded. A pointer to a
  structure is an integer, \<open>off\<close> is the offset of the member. A loop body gives whether it leaves the loop with
  \<^verbatim>\<open>break\<close> and the new state, which includes the heap; a loop gives the cursor with which it ends and the state. The safe loops
  hand the stored next entry to the body, which may set it anew.
\<close>

section \<open>From heads to structures\<close>

text \<open>The initial value of a static list.\<close>

definition LIST_HEAD_INIT :: "addr \<Rightarrow> list_head" where
  "LIST_HEAD_INIT name = \<lparr>lh_next = name, lh_prev = name\<rparr>"

definition container_of :: "nat \<Rightarrow> addr \<Rightarrow> int" where
  "container_of off p = int p - int off"

definition list_entry :: "nat \<Rightarrow> addr \<Rightarrow> int" where
  "list_entry off p = container_of off p"

text \<open>The address \<^verbatim>\<open>&pos->member\<close>.\<close>

definition member_of :: "nat \<Rightarrow> int \<Rightarrow> addr" where
  "member_of off pos = nat (pos + int off)"

definition list_first_entry :: "nat \<Rightarrow> addr \<Rightarrow> list_heap \<Rightarrow> int option" where
  "list_first_entry off head h = map_option (list_entry off) (get_next h head)"

lemma member_of_entry [simp]: "member_of off (list_entry off p) = p"
  by (simp add: member_of_def list_entry_def container_of_def)

section \<open>The loops\<close>

text \<open>The condition and the step that the loops over entries share; \<open>dir\<close> reads \<^verbatim>\<open>next\<close> or \<^verbatim>\<open>prev\<close>.\<close>

partial_function (option) entry_loop ::
  "(list_heap \<Rightarrow> addr \<Rightarrow> addr option) \<Rightarrow> nat \<Rightarrow> addr \<Rightarrow> (int \<Rightarrow> list_heap \<times> 's \<Rightarrow> (bool \<times> list_heap \<times> 's) option) \<Rightarrow>
   int \<Rightarrow> list_heap \<times> 's \<Rightarrow> (int \<times> list_heap \<times> 's) option" where
  "entry_loop dir off head body pos hs =
     (if member_of off pos \<noteq> head then do {
        r \<leftarrow> body pos hs;
        (if fst r then Some (pos, snd r)
         else do {
           p \<leftarrow> dir (fst (snd r)) (member_of off pos);
           entry_loop dir off head body (list_entry off p) (snd r) }) }
      else Some (pos, hs))"

definition list_for_each_entry ::
  "nat \<Rightarrow> addr \<Rightarrow> (int \<Rightarrow> list_heap \<times> 's \<Rightarrow> (bool \<times> list_heap \<times> 's) option) \<Rightarrow> list_heap \<times> 's \<Rightarrow> (int \<times> list_heap \<times> 's) option" where
  "list_for_each_entry off head body hs = do {
     p \<leftarrow> get_next (fst hs) head;
     entry_loop get_next off head body (list_entry off p) hs }"

definition list_for_each_entry_reverse ::
  "nat \<Rightarrow> addr \<Rightarrow> (int \<Rightarrow> list_heap \<times> 's \<Rightarrow> (bool \<times> list_heap \<times> 's) option) \<Rightarrow> list_heap \<times> 's \<Rightarrow> (int \<times> list_heap \<times> 's) option" where
  "list_for_each_entry_reverse off head body hs = do {
     p \<leftarrow> get_prev (fst hs) head;
     entry_loop get_prev off head body (list_entry off p) hs }"

definition list_prepare_entry :: "nat \<Rightarrow> int \<Rightarrow> addr \<Rightarrow> int" where
  "list_prepare_entry off pos head = (if pos \<noteq> 0 then pos else list_entry off head)"

definition list_for_each_entry_continue ::
  "nat \<Rightarrow> addr \<Rightarrow> (int \<Rightarrow> list_heap \<times> 's \<Rightarrow> (bool \<times> list_heap \<times> 's) option) \<Rightarrow> int \<Rightarrow> list_heap \<times> 's \<Rightarrow> (int \<times> list_heap \<times> 's) option" where
  "list_for_each_entry_continue off head body pos hs = do {
     p \<leftarrow> get_next (fst hs) (member_of off pos);
     entry_loop get_next off head body (list_entry off p) hs }"

definition list_for_each_entry_continue_reverse ::
  "nat \<Rightarrow> addr \<Rightarrow> (int \<Rightarrow> list_heap \<times> 's \<Rightarrow> (bool \<times> list_heap \<times> 's) option) \<Rightarrow> int \<Rightarrow> list_heap \<times> 's \<Rightarrow> (int \<times> list_heap \<times> 's) option" where
  "list_for_each_entry_continue_reverse off head body pos hs = do {
     p \<leftarrow> get_prev (fst hs) (member_of off pos);
     entry_loop get_prev off head body (list_entry off p) hs }"

definition list_for_each_entry_from ::
  "nat \<Rightarrow> addr \<Rightarrow> (int \<Rightarrow> list_heap \<times> 's \<Rightarrow> (bool \<times> list_heap \<times> 's) option) \<Rightarrow> int \<Rightarrow> list_heap \<times> 's \<Rightarrow> (int \<times> list_heap \<times> 's) option" where
  "list_for_each_entry_from off head body pos hs = entry_loop get_next off head body pos hs"

text \<open>The loops that store the next entry before the body runs.\<close>

partial_function (option) entry_loop_safe ::
  "(list_heap \<Rightarrow> addr \<Rightarrow> addr option) \<Rightarrow> nat \<Rightarrow> addr \<Rightarrow> (int \<Rightarrow> int \<Rightarrow> list_heap \<times> 's \<Rightarrow> (bool \<times> int \<times> list_heap \<times> 's) option) \<Rightarrow>
   int \<Rightarrow> int \<Rightarrow> list_heap \<times> 's \<Rightarrow> (int \<times> list_heap \<times> 's) option" where
  "entry_loop_safe dir off head body pos n hs =
     (if member_of off pos \<noteq> head then do {
        r \<leftarrow> body pos n hs;
        (if fst r then Some (pos, snd (snd r))
         else do {
           p \<leftarrow> dir (fst (snd (snd r))) (member_of off (fst (snd r)));
           entry_loop_safe dir off head body (fst (snd r)) (list_entry off p) (snd (snd r)) }) }
      else Some (pos, hs))"

definition list_for_each_entry_safe ::
  "nat \<Rightarrow> addr \<Rightarrow> (int \<Rightarrow> int \<Rightarrow> list_heap \<times> 's \<Rightarrow> (bool \<times> int \<times> list_heap \<times> 's) option) \<Rightarrow> list_heap \<times> 's \<Rightarrow> (int \<times> list_heap \<times> 's) option" where
  "list_for_each_entry_safe off head body hs = do {
     p \<leftarrow> get_next (fst hs) head;
     n \<leftarrow> get_next (fst hs) p;
     entry_loop_safe get_next off head body (list_entry off p) (list_entry off n) hs }"

definition list_for_each_entry_safe_continue ::
  "nat \<Rightarrow> addr \<Rightarrow> (int \<Rightarrow> int \<Rightarrow> list_heap \<times> 's \<Rightarrow> (bool \<times> int \<times> list_heap \<times> 's) option) \<Rightarrow> int \<Rightarrow> list_heap \<times> 's \<Rightarrow> (int \<times> list_heap \<times> 's) option" where
  "list_for_each_entry_safe_continue off head body pos hs = do {
     p \<leftarrow> get_next (fst hs) (member_of off pos);
     n \<leftarrow> get_next (fst hs) p;
     entry_loop_safe get_next off head body (list_entry off p) (list_entry off n) hs }"

definition list_for_each_entry_safe_from ::
  "nat \<Rightarrow> addr \<Rightarrow> (int \<Rightarrow> int \<Rightarrow> list_heap \<times> 's \<Rightarrow> (bool \<times> int \<times> list_heap \<times> 's) option) \<Rightarrow> int \<Rightarrow> list_heap \<times> 's \<Rightarrow> (int \<times> list_heap \<times> 's) option" where
  "list_for_each_entry_safe_from off head body pos hs = do {
     n \<leftarrow> get_next (fst hs) (member_of off pos);
     entry_loop_safe get_next off head body pos (list_entry off n) hs }"

definition list_for_each_entry_safe_reverse ::
  "nat \<Rightarrow> addr \<Rightarrow> (int \<Rightarrow> int \<Rightarrow> list_heap \<times> 's \<Rightarrow> (bool \<times> int \<times> list_heap \<times> 's) option) \<Rightarrow> list_heap \<times> 's \<Rightarrow> (int \<times> list_heap \<times> 's) option" where
  "list_for_each_entry_safe_reverse off head body hs = do {
     p \<leftarrow> get_prev (fst hs) head;
     n \<leftarrow> get_prev (fst hs) p;
     entry_loop_safe get_prev off head body (list_entry off p) (list_entry off n) hs }"

definition list_safe_reset_next :: "nat \<Rightarrow> int \<Rightarrow> list_heap \<Rightarrow> int option" where
  "list_safe_reset_next off pos h = map_option (list_entry off) (get_next h (member_of off pos))"

text \<open>Two more loops over the heads themselves, as \<^verbatim>\<open>list_for_each\<close> and \<^verbatim>\<open>list_for_each_safe\<close> in theory \<open>Linked_List\<close>.\<close>

definition list_for_each' :: "(addr \<Rightarrow> list_heap \<times> 's \<Rightarrow> (list_heap \<times> 's) option) \<Rightarrow> addr \<Rightarrow> list_heap \<times> 's \<Rightarrow> (list_heap \<times> 's) option" where
  "list_for_each' body head hs = do { pos \<leftarrow> get_next (fst hs) head; list_for_each_from body head pos hs }"

partial_function (option) list_for_each_prev_safe_from ::
  "(addr \<Rightarrow> list_heap \<times> 's \<Rightarrow> (list_heap \<times> 's) option) \<Rightarrow> addr \<Rightarrow> addr \<Rightarrow> addr \<Rightarrow> list_heap \<times> 's \<Rightarrow> (list_heap \<times> 's) option" where
  "list_for_each_prev_safe_from body head pos n hs =
     (if pos \<noteq> head then do {
        hs \<leftarrow> body pos hs;
        n' \<leftarrow> get_prev (fst hs) n;
        list_for_each_prev_safe_from body head n n' hs }
      else Some hs)"

definition list_for_each_prev_safe :: "(addr \<Rightarrow> list_heap \<times> 's \<Rightarrow> (list_heap \<times> 's) option) \<Rightarrow> addr \<Rightarrow> list_heap \<times> 's \<Rightarrow> (list_heap \<times> 's) option" where
  "list_for_each_prev_safe body head hs = do {
     pos \<leftarrow> get_prev (fst hs) head;
     n \<leftarrow> get_prev (fst hs) pos;
     list_for_each_prev_safe_from body head pos n hs }"

section \<open>Loops whose bodies leave the heap alone\<close>

text \<open>What such a body does to a list of entries; the entry is the one at which it breaks.\<close>

fun visit :: "(int \<Rightarrow> 's \<Rightarrow> bool \<times> 's) \<Rightarrow> int list \<Rightarrow> 's \<Rightarrow> int option \<times> 's" where
  "visit f [] s = (None, s)"
| "visit f (e # es) s = (if fst (f e s) then (Some e, snd (f e s)) else visit f es (snd (f e s)))"

abbreviation ends_at :: "int \<Rightarrow> list_heap \<Rightarrow> int option \<times> 's \<Rightarrow> int \<times> list_heap \<times> 's" where
  "ends_at stop h r \<equiv> (case fst r of None \<Rightarrow> stop | Some e \<Rightarrow> e, h, snd r)"

definition reads :: "(int \<Rightarrow> list_heap \<times> 's \<Rightarrow> (bool \<times> list_heap \<times> 's) option) \<Rightarrow> list_heap \<Rightarrow> int set \<Rightarrow> (int \<Rightarrow> 's \<Rightarrow> bool \<times> 's) \<Rightarrow> bool" where
  "reads body h E f \<longleftrightarrow> (\<forall>e \<in> E. \<forall>s. body e (h, s) = Some (fst (f e s), h, snd (f e s)))"

text \<open>A loop along \<open>dir\<close> from the first of \<open>as\<close>, where \<open>dir\<close> leads from each to the next and at last to the head.\<close>

fun leads :: "(addr \<Rightarrow> addr option) \<Rightarrow> addr list \<Rightarrow> addr \<Rightarrow> bool" where
  "leads d [] head = True"
| "leads d (a # as) head \<longleftrightarrow> a \<noteq> head \<and> d a = Some (hd (as @ [head])) \<and> leads d as head"

lemma leads_next: "ring h head (xs @ ys) \<Longrightarrow> leads (get_next h) ys head"
proof (induction ys arbitrary: xs)
  case (Cons y ys)
  then show ?case using ring_at(1) [of h head xs y ys] Cons.IH [of "xs @ [y]"] by (auto simp: ring_def)
qed simp

lemma leads_prev: "ring h head (xs @ ys) \<Longrightarrow> leads (get_prev h) (rev xs) head"
proof (induction xs arbitrary: ys rule: rev_induct)
  case (snoc x xs)
  have "last (head # xs) = hd (rev xs @ [head])" by (cases xs rule: rev_cases) simp_all
  then show ?case using ring_at(2) [of h head xs x ys] snoc.IH [of "x # ys"] snoc.prems by (auto simp: ring_def)
qed simp

lemma entry_loop_eq:
  assumes "leads (dir h) as head" "reads body h (list_entry off ` set as) f"
  shows "entry_loop dir off head body (list_entry off (hd (as @ [head]))) (h, s) =
    Some (ends_at (list_entry off head) h (visit f (map (list_entry off) as) s))"
  using assms
proof (induction as arbitrary: s)
  case Nil
  then show ?case by (simp add: entry_loop.simps)
next
  case (Cons a as)
  let ?e = "list_entry off a"
  have b: "body ?e (h, s) = Some (fst (f ?e s), h, snd (f ?e s))" using Cons.prems(2) by (simp add: reads_def)
  have "reads body h (list_entry off ` set as) f" using Cons.prems(2) by (simp add: reads_def)
  then show ?case using Cons.prems(1) Cons.IH b by (simp add: entry_loop.simps [of dir off head body ?e])
qed

lemma ring_next_hd: "ring h head (xs @ e # ys) \<Longrightarrow> get_next h e = Some (hd (ys @ [head]))"
  by (rule ring_at(1))

lemma ring_prev_hd: "ring h head (xs @ e # ys) \<Longrightarrow> get_prev h e = Some (hd (rev xs @ [head]))"
  using ring_at(2) [of h head xs e ys] by (cases xs rule: rev_cases) simp_all

lemma ring_ends: "ring h head as \<Longrightarrow> get_next h head = Some (hd (as @ [head])) \<and> get_prev h head = Some (hd (rev as @ [head]))"
  using ring_head [of h head as] by (cases as rule: rev_cases) simp_all

lemma list_for_each_entry_eq:
  assumes "ring h head as" "reads body h (list_entry off ` set as) f"
  shows "list_for_each_entry off head body (h, s) = Some (ends_at (list_entry off head) h (visit f (map (list_entry off) as) s))"
  using entry_loop_eq [where dir = get_next, OF leads_next [of h head "[]", simplified, OF assms(1)] assms(2)] ring_ends [OF assms(1)]
  by (simp add: list_for_each_entry_def)

text \<open>
  C29. On a list of structures with the entries \<open>xs\<close>, \<open>e\<close>, \<open>ys\<close> every loop runs its body on its part of the entries in its order,
  up to a \<^verbatim>\<open>break\<close>, and ends at the entry where it broke or at the head: all, all backwards, those behind and before
  \<open>e\<close>, and those from \<open>e\<close> on. A \<^verbatim>\<open>list_prepare_entry\<close> on a null pointer makes the continued loop start from the front.
\<close>

theorem entry_loops_visit:
  assumes "ring h head (xs @ e # ys)" "reads body h (list_entry off ` set (xs @ e # ys)) f"
  defines "E \<equiv> map (list_entry off)" and "stop \<equiv> list_entry off head" and "pos \<equiv> list_entry off e"
  shows "list_for_each_entry off head body (h, s) = Some (ends_at stop h (visit f (E (xs @ e # ys)) s)) \<and>
    list_for_each_entry_reverse off head body (h, s) = Some (ends_at stop h (visit f (E (rev (xs @ e # ys))) s)) \<and>
    list_for_each_entry_continue off head body pos (h, s) = Some (ends_at stop h (visit f (E ys) s)) \<and>
    list_for_each_entry_continue_reverse off head body pos (h, s) = Some (ends_at stop h (visit f (E (rev xs)) s)) \<and>
    list_for_each_entry_from off head body pos (h, s) = Some (ends_at stop h (visit f (E (e # ys)) s)) \<and>
    list_for_each_entry_continue off head body (list_prepare_entry off 0 head) (h, s) =
      Some (ends_at stop h (visit f (E (xs @ e # ys)) s)) \<and>
    list_first_entry off head h = Some (hd (E (xs @ e # ys)))"
proof -
  have sub: "reads body h (list_entry off ` A) f" if "A \<subseteq> set (xs @ e # ys)" for A
    using assms(2) that by (auto simp: reads_def)
  note run = entry_loop_eq [OF _ sub]
  have N: "leads (get_next h) (xs @ e # ys) head" "leads (get_next h) ys head" "leads (get_next h) (e # ys) head"
    using leads_next [of h head "[]" "xs @ e # ys"] leads_next [of h head "xs @ [e]" ys] leads_next [of h head xs "e # ys"] assms(1) by simp_all
  have P: "leads (get_prev h) (rev (xs @ e # ys)) head" "leads (get_prev h) (rev xs) head"
    using leads_prev [of h head "xs @ e # ys" "[]"] leads_prev [of h head xs "e # ys"] assms(1) by simp_all
  note at = ring_next_hd [OF assms(1)] ring_prev_hd [OF assms(1)] ring_ends [OF assms(1)]
  have m: "member_of off pos = e" "member_of off (list_prepare_entry off 0 head) = head"
    by (simp_all add: pos_def list_prepare_entry_def)
  have S: "set (xs @ e # ys) \<subseteq> set (xs @ e # ys)" "set ys \<subseteq> set (xs @ e # ys)" "set (e # ys) \<subseteq> set (xs @ e # ys)"
      "set (rev (xs @ e # ys)) \<subseteq> set (xs @ e # ys)" "set (rev xs) \<subseteq> set (xs @ e # ys)" by auto
  note R = run [where dir = get_next, OF N(1) S(1)] run [where dir = get_next, OF N(2) S(2)] run [where dir = get_next, OF N(3) S(3)]
    run [where dir = get_prev, OF P(1) S(4)] run [where dir = get_prev, OF P(2) S(5)]
  have "hd (E (xs @ e # ys)) = list_entry off (hd ((xs @ e # ys) @ [head]))" by (cases xs) (simp_all add: E_def)
  then show ?thesis
    unfolding list_for_each_entry_def list_for_each_entry_reverse_def list_for_each_entry_continue_def
      list_for_each_entry_continue_reverse_def list_for_each_entry_from_def list_first_entry_def fst_conv m stop_def
    using R [where s = s] at by (simp add: E_def pos_def del: rev_append)
qed


section \<open>Loops that take the entries out\<close>

text \<open>A move to another list, which puts the entry somewhere in the list of its entries.\<close>

definition move_entry :: "(addr \<Rightarrow> addr \<Rightarrow> list_heap \<Rightarrow> list_heap option) \<Rightarrow> nat \<Rightarrow> addr \<Rightarrow> int \<Rightarrow> int \<Rightarrow> list_heap \<times> int list \<Rightarrow>
    (bool \<times> int \<times> list_heap \<times> int list) option" where
  "move_entry move off other pos n hs = do { h \<leftarrow> move (member_of off pos) other (fst hs); Some (False, n, h, snd hs @ [pos]) }"

lemma move_entry_apply:
  "move_entry move off other pos n (h, s) = do { h \<leftarrow> move (member_of off pos) other h; Some (False, n, h, s @ [pos]) }"
  by (simp add: move_entry_def)

definition apart :: "addr \<Rightarrow> addr list \<Rightarrow> addr \<Rightarrow> addr list \<Rightarrow> bool" where
  "apart other zs head xs \<longleftrightarrow> set (other # zs) \<inter> set (head # xs) = {}"

locale entry_mover =
  fixes move :: "addr \<Rightarrow> addr \<Rightarrow> list_heap \<Rightarrow> list_heap option"
    and place :: "addr \<Rightarrow> addr list \<Rightarrow> addr list"
  assumes move_law: "ring h head (xs @ e # ys) \<Longrightarrow> ring h other zs \<Longrightarrow> apart other zs head (xs @ e # ys) \<Longrightarrow>
      \<exists>h'. move e other h = Some h' \<and> ring h' head (xs @ ys) \<and> ring h' other (place e zs)"
    and place_set: "set (place e zs) = insert e (set zs)"
begin

lemma apart_next: "ring h head (xs @ e # ys) \<Longrightarrow> apart other zs head (xs @ e # ys) \<Longrightarrow> apart other (place e zs) head (xs @ ys)"
  by (auto simp: apart_def place_set ring_def)

lemma moves_forward:
  assumes "ring h head (pre @ x # xs)" "ring h other zs" "apart other zs head (pre @ x # xs)"
  shows "\<exists>h'. entry_loop_safe get_next off head (move_entry move off other) (list_entry off x) (list_entry off (hd (xs @ [head]))) (h, s) =
      Some (list_entry off head, h', s @ map (list_entry off) (x # xs)) \<and> ring h' head pre \<and> ring h' other (fold place (x # xs) zs)"
  using assms
proof (induction xs arbitrary: h x zs s)
  case Nil
  obtain h1 where h1: "move x other h = Some h1" "ring h1 head pre" "ring h1 other (place x zs)"
    using move_law [OF Nil] by auto
  have "x \<noteq> head" using Nil(1) by (auto simp: ring_def)
  then show ?case using h1 ring_head(1) [OF h1(2)]
    by (simp add: entry_loop_safe.simps [of _ _ _ _ "list_entry off x"] entry_loop_safe.simps [of _ _ _ _ "list_entry off head"] move_entry_apply)
next
  case (Cons y ys)
  obtain h1 where h1: "move x other h = Some h1" "ring h1 head (pre @ y # ys)" "ring h1 other (place x zs)"
    using move_law [OF Cons.prems] by auto
  obtain h' where h': "entry_loop_safe get_next off head (move_entry move off other) (list_entry off y) (list_entry off (hd (ys @ [head]))) (h1, s @ [list_entry off x]) =
      Some (list_entry off head, h', (s @ [list_entry off x]) @ map (list_entry off) (y # ys)) \<and> ring h' head pre \<and> ring h' other (fold place (y # ys) (place x zs))"
    using Cons.IH [OF h1(2,3) apart_next [OF Cons.prems(1,3)]] by blast
  have "x \<noteq> head" using Cons.prems(1) by (auto simp: ring_def)
  then show ?case using h' h1(1) ring_next_hd [OF h1(2)]
    by (intro exI [of _ h']) (simp add: entry_loop_safe.simps [of _ _ _ _ "list_entry off x"] move_entry_apply)
qed

lemma moves_backward:
  assumes "ring h head (xs @ x # post)" "ring h other zs" "apart other zs head (xs @ x # post)"
  shows "\<exists>h'. entry_loop_safe get_prev off head (move_entry move off other) (list_entry off x) (list_entry off (hd (rev xs @ [head]))) (h, s) =
      Some (list_entry off head, h', s @ map (list_entry off) (x # rev xs)) \<and> ring h' head post \<and> ring h' other (fold place (x # rev xs) zs)"
  using assms
proof (induction xs arbitrary: h x zs s rule: rev_induct)
  case Nil
  obtain h1 where h1: "move x other h = Some h1" "ring h1 head post" "ring h1 other (place x zs)"
    using move_law [OF Nil] by auto
  have "x \<noteq> head" using Nil(1) by (auto simp: ring_def)
  then show ?case using h1 ring_head(2) [OF h1(2)]
    by (simp add: entry_loop_safe.simps [of _ _ _ _ "list_entry off x"] entry_loop_safe.simps [of _ _ _ _ "list_entry off head"] move_entry_apply)
next
  case (snoc y ys)
  obtain h1 where h1: "move x other h = Some h1" "ring h1 head (ys @ y # post)" "ring h1 other (place x zs)"
    using move_law [OF snoc.prems] by auto
  have a: "apart other (place x zs) head (ys @ y # post)" using apart_next [OF snoc.prems(1,3)] by simp
  obtain h' where h': "entry_loop_safe get_prev off head (move_entry move off other) (list_entry off y) (list_entry off (hd (rev ys @ [head]))) (h1, s @ [list_entry off x]) =
      Some (list_entry off head, h', (s @ [list_entry off x]) @ map (list_entry off) (y # rev ys)) \<and> ring h' head post \<and> ring h' other (fold place (y # rev ys) (place x zs))"
    using snoc.IH [OF h1(2,3) a] by blast
  have "x \<noteq> head" using snoc.prems(1) by (auto simp: ring_def)
  then show ?case using h' h1(1) ring_prev_hd [OF h1(2)]
    by (intro exI [of _ h']) (simp add: entry_loop_safe.simps [of _ _ _ _ "list_entry off x"] move_entry_apply)
qed

lemma safe_from:
  assumes "ring h head (pre @ x # xs)" "ring h other zs" "apart other zs head (pre @ x # xs)"
  shows "\<exists>h'. list_for_each_entry_safe_from off head (move_entry move off other) (list_entry off x) (h, []) =
      Some (list_entry off head, h', map (list_entry off) (x # xs)) \<and> ring h' head pre \<and> ring h' other (fold place (x # xs) zs)"
  using moves_forward [OF assms, of off "[]"] ring_next_hd [OF assms(1)]
  unfolding list_for_each_entry_safe_from_def by simp

lemma safe_continue:
  assumes "ring h head (pre @ e # xs)" "ring h other zs" "apart other zs head (pre @ e # xs)"
  shows "\<exists>h'. list_for_each_entry_safe_continue off head (move_entry move off other) (list_entry off e) (h, []) =
      Some (list_entry off head, h', map (list_entry off) xs) \<and> ring h' head (pre @ [e]) \<and> ring h' other (fold place xs zs)"
proof (cases xs)
  case Nil
  then show ?thesis using assms ring_next_hd [OF assms(1)] ring_head(1) [OF assms(1)]
    by (simp add: list_for_each_entry_safe_continue_def entry_loop_safe.simps)
next
  case (Cons a as)
  then show ?thesis
    using moves_forward [of h head "pre @ [e]" a as other zs off "[]"] assms ring_next_hd [OF assms(1)] ring_next_hd [of h head "pre @ [e]" a as]
    unfolding list_for_each_entry_safe_continue_def by simp
qed

lemma safe_all:
  assumes "ring h head (x # xs)" "ring h other zs" "apart other zs head (x # xs)"
  shows "\<exists>h'. list_for_each_entry_safe off head (move_entry move off other) (h, []) =
      Some (list_entry off head, h', map (list_entry off) (x # xs)) \<and> ring h' head [] \<and> ring h' other (fold place (x # xs) zs)"
  using moves_forward [of h head "[]" x xs other zs off "[]"] assms ring_head(1) [OF assms(1)] ring_next_hd [of h head "[]" x xs]
  unfolding list_for_each_entry_safe_def by simp

lemma safe_reverse:
  assumes "ring h head (xs @ [x])" "ring h other zs" "apart other zs head (xs @ [x])"
  shows "\<exists>h'. list_for_each_entry_safe_reverse off head (move_entry move off other) (h, []) =
      Some (list_entry off head, h', map (list_entry off) (x # rev xs)) \<and> ring h' head [] \<and> ring h' other (fold place (x # rev xs) zs)"
  using moves_backward [of h head xs x "[]" other zs off "[]"] assms ring_head(2) [OF assms(1)] ring_prev_hd [of h head xs x "[]"]
  unfolding list_for_each_entry_safe_reverse_def by simp

end

lemma ring_moves:
  assumes "ring h head (xs @ e # ys)" "ring h other zs" "apart other zs head (xs @ e # ys)"
  shows "\<exists>h'. list_move_tail e other h = Some h' \<and> ring h' head (xs @ ys) \<and> ring h' other (zs @ [e])"
    and "\<exists>h'. list_move e other h = Some h' \<and> ring h' head (xs @ ys) \<and> ring h' other (e # zs)"
proof -
  obtain h1 where h1: "list_del_entry' e h = Some h1" "ring h1 head (xs @ ys)" "valid h1 = valid h"
      "\<forall>head' zs. ring h head' zs \<and> set (head' # zs) \<inter> set (head # xs @ ys) = {} \<longrightarrow> ring h1 head' zs"
    using ring_delete [OF assms(1)] by blast
  have o: "ring h1 other zs" using h1(4) assms(2,3) by (auto simp: apart_def)
  have e: "valid h1 e" "e \<notin> set (other # zs)" "set (head # xs @ ys) \<inter> set (e # other # zs) = {}"
    using assms ring_valid [OF assms(1), of e] h1(3) by (auto simp: apart_def ring_def)
  show "\<exists>h'. list_move_tail e other h = Some h' \<and> ring h' head (xs @ ys) \<and> ring h' other (zs @ [e])"
    using ring_list_add_tail [OF o e(1,2)] h1(1,2) e(3) by (auto simp: list_move_tail_def)
  show "\<exists>h'. list_move e other h = Some h' \<and> ring h' head (xs @ ys) \<and> ring h' other (e # zs)"
    using ring_list_add [OF o e(1,2)] h1(1,2) e(3) by (auto simp: list_move_def)
qed

interpretation to_tail: entry_mover list_move_tail "\<lambda>e zs. zs @ [e]"
  by unfold_locales (use ring_moves(1) in auto)

interpretation to_front: entry_mover list_move "(#)"
  by unfold_locales (use ring_moves(2) in auto)

text \<open>The safe loop over heads, backwards.\<close>

lemma list_for_each_prev_safe_from_delete:
  assumes "ring h head (xs @ [x])"
  shows "\<exists>h'. list_for_each_prev_safe_from delete_entry head x (hd (rev xs @ [head])) (h, s) = Some (h', s @ x # rev xs) \<and> ring h' head []"
  using assms
proof (induction xs arbitrary: h x s rule: rev_induct)
  case Nil
  obtain h1 where h1: "list_del x h = Some h1" "ring h1 head []" using ring_list_del [of h head "[]" x "[]"] Nil by auto
  moreover have "get_prev h1 head = Some head" using ring_head(2) [OF h1(2)] by simp
  moreover have "x \<noteq> head" using Nil by (auto simp: ring_def)
  ultimately show ?case
    by (simp add: list_for_each_prev_safe_from.simps [of _ _ x] list_for_each_prev_safe_from.simps [of _ _ head] delete_entry_apply)
next
  case (snoc y ys)
  obtain h1 where h1: "list_del x h = Some h1" "ring h1 head (ys @ [y])" using ring_list_del [of h head "ys @ [y]" x "[]"] snoc.prems by auto
  have "x \<noteq> head" using snoc.prems by (auto simp: ring_def)
  moreover obtain h' where "list_for_each_prev_safe_from delete_entry head y (hd (rev ys @ [head])) (h1, s @ [x]) = Some (h', (s @ [x]) @ y # rev ys)" "ring h' head []"
    using snoc.IH [OF h1(2), of "s @ [x]"] by blast
  ultimately show ?case using h1(1) ring_prev_hd [of h1 head ys y "[]"] h1(2)
    by (intro exI [of _ h']) (simp add: list_for_each_prev_safe_from.simps [of _ _ x] delete_entry_apply)
qed

lemma list_for_each_prev_safe_delete:
  assumes "ring h head (xs @ [x])"
  shows "\<exists>h'. list_for_each_prev_safe delete_entry head (h, []) = Some (h', x # rev xs) \<and> ring h' head []"
  using list_for_each_prev_safe_from_delete [OF assms, of "[]"] ring_head(2) [OF assms] ring_prev_hd [of h head xs x "[]"] assms
  by (simp add: list_for_each_prev_safe_def)

text \<open>
  C30. The safe loops over structures may take the current entry out, here to another list: every entry of their part is visited once and
  arrives, those that are not in it stay. Moving to the tail from the front, or to the front from the back, keeps the order of the
  entries; deleting them backwards with \<^verbatim>\<open>list_for_each_prev_safe\<close> leaves an empty list.
\<close>

theorem entry_loops_move:
  fixes off :: nat
  assumes "ring h head (xs @ e # ys)" "ring h other zs" "set (other # zs) \<inter> set (head # xs @ e # ys) = {}"
  defines "E \<equiv> map (list_entry off)" and "stop \<equiv> list_entry off head" and "pos \<equiv> list_entry off e"
  shows "(\<exists>h'. list_for_each_entry_safe off head (move_entry list_move_tail off other) (h, []) = Some (stop, h', E (xs @ e # ys)) \<and>
      ring h' head [] \<and> ring h' other (zs @ xs @ e # ys)) \<and>
    (\<exists>h'. list_for_each_entry_safe_from off head (move_entry list_move_tail off other) pos (h, []) = Some (stop, h', E (e # ys)) \<and>
      ring h' head xs \<and> ring h' other (zs @ e # ys)) \<and>
    (\<exists>h'. list_for_each_entry_safe_continue off head (move_entry list_move_tail off other) pos (h, []) = Some (stop, h', E ys) \<and>
      ring h' head (xs @ [e]) \<and> ring h' other (zs @ ys)) \<and>
    (\<exists>h'. list_for_each_entry_safe_reverse off head (move_entry list_move off other) (h, []) = Some (stop, h', E (rev (xs @ e # ys))) \<and>
      ring h' head [] \<and> ring h' other (xs @ e # ys @ zs)) \<and>
    (\<exists>h'. list_for_each_prev_safe delete_entry head (h, []) = Some (h', rev (xs @ e # ys)) \<and> ring h' head [])"
proof -
  have ap: "apart other zs head (xs @ e # ys)" using assms(3) by (simp add: apart_def)
  have tail: "fold (\<lambda>e zs. zs @ [e]) as zs = zs @ as" for as :: "addr list" and zs by (induction as arbitrary: zs) simp_all
  have front: "fold (#) as zs = rev as @ zs" for as :: "addr list" and zs by (induction as arbitrary: zs) simp_all
  obtain a as where as: "xs @ e # ys = a # as" by (cases xs) simp_all
  obtain b bs where bs: "xs @ e # ys = bs @ [b]" by (cases ys rule: rev_cases) simp_all
  have rb: "rev (xs @ e # ys) = b # rev bs" unfolding bs by simp
  have "rev (b # rev bs) @ zs = (bs @ [b]) @ zs" by simp
  then have "xs @ e # ys @ zs = rev (b # rev bs) @ zs" unfolding bs [symmetric] by simp
  note rb = rb this
  have "\<exists>h'. list_for_each_entry_safe off head (move_entry list_move_tail off other) (h, []) = Some (stop, h', E (xs @ e # ys)) \<and>
      ring h' head [] \<and> ring h' other (zs @ xs @ e # ys)"
    using to_tail.safe_all [OF assms(1) [unfolded as] assms(2) ap [unfolded as], of off] unfolding as tail E_def stop_def .
  moreover have "\<exists>h'. list_for_each_entry_safe_from off head (move_entry list_move_tail off other) pos (h, []) = Some (stop, h', E (e # ys)) \<and>
      ring h' head xs \<and> ring h' other (zs @ e # ys)"
    using to_tail.safe_from [OF assms(1,2) ap, of off] unfolding tail E_def stop_def pos_def .
  moreover have "\<exists>h'. list_for_each_entry_safe_continue off head (move_entry list_move_tail off other) pos (h, []) = Some (stop, h', E ys) \<and>
      ring h' head (xs @ [e]) \<and> ring h' other (zs @ ys)"
    using to_tail.safe_continue [OF assms(1,2) ap, of off] unfolding tail E_def stop_def pos_def .
  moreover have "\<exists>h'. list_for_each_entry_safe_reverse off head (move_entry list_move off other) (h, []) = Some (stop, h', E (rev (xs @ e # ys))) \<and>
      ring h' head [] \<and> ring h' other (xs @ e # ys @ zs)"
    using to_front.safe_reverse [OF assms(1) [unfolded bs] assms(2) ap [unfolded bs], of off] unfolding rb front E_def stop_def .
  moreover have "\<exists>h'. list_for_each_prev_safe delete_entry head (h, []) = Some (h', rev (xs @ e # ys)) \<and> ring h' head []"
    using list_for_each_prev_safe_delete [of h head bs b] assms(1) unfolding rb bs by simp
  ultimately show ?thesis by (intro conjI)
qed


section \<open>The concrete lists\<close>

text \<open>The lists of theory \<open>Linked_List\<close>, in structures with the heads at offset 16.\<close>

lemma example_apart: "set (4 # ([] :: addr list)) \<inter> set (1 # [] @ 2 # [3]) = {}"
  by simp

theorem entry_loops_visit_witness:
  "list_for_each_entry 16 1 (\<lambda>e (h, s). Some (e = - 13, h, s @ [e])) (example_heap, []) = Some (- 13, example_heap, [- 14, - 13]) \<and>
   list_for_each_entry_continue_reverse 16 1 (\<lambda>e (h, s). Some (e = - 13, h, s @ [e])) (- 13) (example_heap, []) = Some (- 15, example_heap, [- 14])"
proof -
  have r: "ring example_heap 1 ([2] @ 3 # [])" using example_rings(1) by simp
  have b: "reads (\<lambda>e (h, s). Some (e = - 13, h, s @ [e])) example_heap A (\<lambda>e s. (e = - 13, s @ [e]))" for A
    by (simp add: reads_def)
  have l: "list_entry 16 1 = - 15" "list_entry 16 2 = - 14" "list_entry 16 3 = - 13" by (simp_all add: list_entry_def container_of_def)
  show ?thesis using entry_loops_visit [OF r b, where s = "[]" and off = 16, unfolded l list.map append.simps rev.simps] by simp
qed

theorem entry_loops_move_witness:
  "\<exists>h' h''. list_for_each_entry_safe 16 1 (move_entry list_move_tail 16 4) (example_heap, []) = Some (- 15, h', [- 14, - 13]) \<and>
     ring h' 1 [] \<and> ring h' 4 [2, 3] \<and>
     list_for_each_entry_safe_continue 16 1 (move_entry list_move_tail 16 4) (- 14) (example_heap, []) = Some (- 15, h'', [- 13]) \<and>
     ring h'' 1 [2] \<and> ring h'' 4 [3]"
proof -
  have r: "ring example_heap 1 ([] @ 2 # [3])" using example_rings(1) by simp
  have l: "list_entry 16 1 = - 15" "list_entry 16 2 = - 14" "list_entry 16 3 = - 13" by (simp_all add: list_entry_def container_of_def)
  note T = entry_loops_move [OF r example_rings(2) example_apart, of 16, unfolded l list.map append.simps]
  show ?thesis using T [THEN conjunct1] T [THEN conjunct2, THEN conjunct2, THEN conjunct1] by blast
qed

end
