(* ===== verification/Topology_Memory.thy ===== *)
theory Topology_Memory
  imports Partition List_Entries
begin

text \<open>
  The topology objects where \<^verbatim>\<open>mpipin.c\<close> keeps them: structures in memory, linked with \<^verbatim>\<open>list_add_tail\<close> and searched with
  \<^verbatim>\<open>list_for_each_entry\<close>. The other theories have HOL lists of records for them; here it is shown that the structures
  hold these lists after the collection, and that the choice of CPUs (lines 986 to 1064) on the
  structures is the one of theory \<open>Partition\<close>.
\<close>

section \<open>The structures\<close>

text \<open>
  The offsets of the list heads in \<^verbatim>\<open>struct cpu_topology\<close> and \<^verbatim>\<open>struct cache_topology\<close> with 64-bit longs and pointers.
  The fields of a structure other than its list heads are records; the list in a stored \<open>cpu_topology\<close> record is not used.
\<close>

definition list_member :: nat where "list_member = 0"
definition caches_member :: nat where "caches_member = 304"

record topology_memory =
  heads :: list_heap
  cpu_at :: "int \<Rightarrow> cpu_topology option"
  cache_at :: "int \<Rightarrow> cache_topology option"

text \<open>\<^verbatim>\<open>malloc\<close> and \<^verbatim>\<open>memset\<close>, for the list heads at the given addresses.\<close>

definition zeroed_heads :: "addr list \<Rightarrow> topology_memory \<Rightarrow> topology_memory" where
  "zeroed_heads as M = M\<lparr>heads := fold (\<lambda>a h. h(a \<mapsto> \<lparr>lh_next = 0, lh_prev = 0\<rparr>)) as (heads M)\<rparr>"

text \<open>A cache object at \<open>a\<close> is filled and appended to the list of the CPU object.\<close>

definition store_cache :: "int \<Rightarrow> addr \<times> cache_topology \<Rightarrow> topology_memory \<Rightarrow> topology_memory option" where
  "store_cache cpu_topo = (\<lambda>(a, x) M. do {
     let M = zeroed_heads [a] M;
     let M = M\<lparr>cache_at := (cache_at M)(list_entry list_member a \<mapsto> x)\<rparr>;
     h \<leftarrow> list_add_tail a (member_of caches_member cpu_topo) (heads M);
     Some (M\<lparr>heads := h\<rparr>) })"

text \<open>A CPU object at \<open>a\<close>, with its caches at \<open>cs\<close>; the values of the fields are those that \<open>collect_cpu_topology\<close> of theory \<open>Sysfs\<close> reads.\<close>

definition store_cpu :: "addr \<Rightarrow> addr \<times> addr list \<times> cpu_topology \<Rightarrow> topology_memory \<Rightarrow> topology_memory option" where
  "store_cpu cpu_list = (\<lambda>(a, cs, t) M. let p = list_entry list_member a; c = member_of caches_member p in do {
     let M = zeroed_heads [a, c] M;
     h \<leftarrow> INIT_LIST_HEAD c (heads M);
     let M = M\<lparr>heads := h, cpu_at := (cpu_at M)(p \<mapsto> t\<lparr>cache_topology_list := []\<rparr>)\<rparr>;
     M \<leftarrow> fold_opt (store_cache p) (zip cs (cache_topology_list t)) M;
     h \<leftarrow> list_add_tail a cpu_list (heads M);
     Some (M\<lparr>heads := h\<rparr>) })"

text \<open>\<^verbatim>\<open>LIST_HEAD(cpu_topology_list)\<close>: the list before the collection.\<close>

definition empty_topology :: "addr \<Rightarrow> topology_memory" where
  "empty_topology cpu_list =
     \<lparr>heads = [cpu_list \<mapsto> LIST_HEAD_INIT cpu_list], cpu_at = (\<lambda>_. None), cache_at = (\<lambda>_. None)\<rparr>"

section \<open>The choice of a CPU on the structures\<close>

text \<open>The pointer \<^verbatim>\<open>cpu_top\<close> after the search for an identifier, which is null (0) when nothing was found.\<close>

definition find_cpu_top_mem :: "topology_memory \<Rightarrow> addr \<Rightarrow> nat \<Rightarrow> int option" where
  "find_cpu_top_mem M cpu_list cpu = do {
     r \<leftarrow> list_for_each_entry list_member cpu_list
        (\<lambda>cpu_top_i (h, cpu_top). do {
           t \<leftarrow> cpu_at M cpu_top_i;
           Some (if cpu_id t = cpu then (True, h, cpu_top_i) else (False, h, cpu_top)) })
        (heads M, 0);
     Some (snd (snd r)) }"

definition same_cache_mem :: "nat \<Rightarrow> topology_memory \<Rightarrow> int \<Rightarrow> cpu_set \<Rightarrow> nat option option" where
  "same_cache_mem nprocs M cpu_top cpus_available = do {
     r \<leftarrow> list_for_each_entry list_member (member_of caches_member cpu_top)
        (\<lambda>cache_top (h, found). do {
           x \<leftarrow> cache_at M cache_top;
           q \<leftarrow> for_each_cpu nprocs (shared_cpu_map x) (\<lambda>cpu _. if CPU_ISSET cpu cpus_available then Inr cpu else Inl ()) (-1) ();
           Some (case q of Inr cpu \<Rightarrow> (True, h, Some cpu) | Inl _ \<Rightarrow> (False, h, found)) })
        (heads M, None);
     Some (snd (snd r)) }"

text \<open>An undefined access in the loop is \<open>Inr None\<close>.\<close>

definition same_node_mem :: "nat \<Rightarrow> topology_memory \<Rightarrow> addr \<Rightarrow> int \<Rightarrow> cpu_set \<Rightarrow> (unit + (int + nat)) option" where
  "same_node_mem nprocs M cpu_list node cpus_available = do {
     r \<leftarrow> for_each_cpu nprocs cpus_available
       (\<lambda>cpu _. case find_cpu_top_mem M cpu_list cpu of
           None \<Rightarrow> Inr None
         | Some cpu_top \<Rightarrow>
             if cpu_top = 0 then Inr (Some (Inl (- EINVAL)))
             else (case cpu_at M cpu_top of
                 None \<Rightarrow> Inr None
               | Some t \<Rightarrow> if node = node_id t then Inr (Some (Inr cpu)) else Inl ())) (-1) ();
     (case r of Inl u \<Rightarrow> Some (Inl u) | Inr None \<Rightarrow> None | Inr (Some x) \<Rightarrow> Some (Inr x)) }"

definition choose_cpu_mem :: "nat \<Rightarrow> topology_memory \<Rightarrow> addr \<Rightarrow> nat \<Rightarrow> cpu_set \<Rightarrow> (int + nat) option" where
  "choose_cpu_mem nprocs M cpu_list cpu_prev cpus_available = do {
     cpu_top \<leftarrow> find_cpu_top_mem M cpu_list cpu_prev;
     if cpu_top = 0 then Some (Inl (- EINVAL))
     else do {
       t \<leftarrow> cpu_at M cpu_top;
       r \<leftarrow> same_cache_mem nprocs M cpu_top cpus_available;
       (case r of
          Some cpu \<Rightarrow> Some (Inr cpu)
        | None \<Rightarrow> do {
            r \<leftarrow> same_node_mem nprocs M cpu_list (node_id t) cpus_available;
            (case r of
               Inr r \<Rightarrow> Some r
             | Inl _ \<Rightarrow> do { cpu \<leftarrow> cpuset_first cpus_available; Some (Inr cpu) }) }) } }"

fun assign_cpus_mem ::
  "nat \<Rightarrow> topology_memory \<Rightarrow> addr \<Rightarrow> nat \<Rightarrow> nat \<Rightarrow> cpu_set \<Rightarrow> cpu_set \<Rightarrow> (int + cpu_set \<times> cpu_set) option" where
  "assign_cpus_mem nprocs M cpu_list 0 cpu_prev cpus_available cpus_to_use = Some (Inr (cpus_available, cpus_to_use))"
| "assign_cpus_mem nprocs M cpu_list (Suc n) cpu_prev cpus_available cpus_to_use = do {
     r \<leftarrow> choose_cpu_mem nprocs M cpu_list cpu_prev cpus_available;
     (case r of
        Inl e \<Rightarrow> Some (Inl e)
      | Inr cpu \<Rightarrow> assign_cpus_mem nprocs M cpu_list n cpu (CPU_CLR cpu cpus_available) (CPU_SET cpu cpus_to_use)) }"

section \<open>What the structures hold\<close>

definition caches_shown :: "topology_memory \<Rightarrow> addr \<Rightarrow> addr list \<Rightarrow> cache_topology list \<Rightarrow> bool" where
  "caches_shown M head cs caches \<longleftrightarrow>
     ring (heads M) head cs \<and> list_all2 (\<lambda>c x. cache_at M (list_entry list_member c) = Some x) cs caches"

definition cpu_shown :: "topology_memory \<Rightarrow> addr \<Rightarrow> cpu_topology \<Rightarrow> bool" where
  "cpu_shown M a t \<longleftrightarrow> cpu_at M (list_entry list_member a) = Some (t\<lparr>cache_topology_list := []\<rparr>) \<and>
     (\<exists>cs. caches_shown M (member_of caches_member (list_entry list_member a)) cs (cache_topology_list t))"

definition topology_shown :: "topology_memory \<Rightarrow> addr \<Rightarrow> addr list \<Rightarrow> cpu_topology list \<Rightarrow> bool" where
  "topology_shown M cpu_list as tops \<longleftrightarrow> ring (heads M) cpu_list as \<and> 0 \<notin> set as \<and> list_all2 (cpu_shown M) as tops"

section \<open>The searches give the same\<close>

lemma list_entry_0 [simp]: "list_entry list_member = int" "member_of list_member (int a) = a"
  by (auto simp: list_entry_def container_of_def list_member_def member_of_def)

lemma visit_find:
  assumes "list_all2 (\<lambda>a t. \<exists>u. cpu_at M (int a) = Some u \<and> cpu_id u = cpu_id t) as tops"
  shows "snd (visit (\<lambda>e s. if cpu_id (the (cpu_at M e)) = cpu then (True, e) else (False, s)) (map int as) s) =
    (case List.find (\<lambda>(a, t). cpu_id t = cpu) (zip as tops) of None \<Rightarrow> s | Some (a, t) \<Rightarrow> int a)"
  using assms by (induction rule: list_all2_induct) auto

lemma find_zip:
  assumes "list_all2 Q as tops"
  shows "find_cpu_top tops cpu = map_option snd (List.find (\<lambda>(a, t). cpu_id t = cpu) (zip as tops))"
  using assms unfolding find_cpu_top_def by (induction rule: list_all2_induct) auto

lemma find_cpu_top_mem_eq:
  assumes "topology_shown M cpu_list as tops"
  shows "\<exists>p. find_cpu_top_mem M cpu_list cpu = Some p \<and>
    (case find_cpu_top tops cpu of None \<Rightarrow> p = 0 | Some t \<Rightarrow> p \<noteq> 0 \<and> (\<exists>a. p = int a \<and> cpu_shown M a t))"
proof -
  have r: "ring (heads M) cpu_list as" and nz: "0 \<notin> set as" and all: "list_all2 (cpu_shown M) as tops"
    using assms by (simp_all add: topology_shown_def)
  let ?body = "\<lambda>cpu_top_i (h, cpu_top). do {
      t \<leftarrow> cpu_at M cpu_top_i; Some (if cpu_id t = cpu then (True, h, cpu_top_i) else (False, h, cpu_top)) }"
  let ?f = "\<lambda>e s. if cpu_id (the (cpu_at M e)) = cpu then (True, e) else (False, s)"
  have ids: "list_all2 (\<lambda>a t. \<exists>u. cpu_at M (int a) = Some u \<and> cpu_id u = cpu_id t) as tops"
    using all by (rule list_all2_mono) (auto simp: cpu_shown_def)
  have "\<exists>u. cpu_at M (int a) = Some u" if "a \<in> set as" for a
    using that ids by (auto simp: list_all2_conv_all_nth in_set_conv_nth)
  then have "reads ?body (heads M) (list_entry list_member ` set as) ?f" by (fastforce simp: reads_def)
  from list_for_each_entry_eq [OF r this, of 0]
  have eq: "find_cpu_top_mem M cpu_list cpu =
      Some (case List.find (\<lambda>(a, t). cpu_id t = cpu) (zip as tops) of None \<Rightarrow> 0 | Some (a, t) \<Rightarrow> int a)"
    using visit_find [OF ids, of cpu 0] by (simp add: find_cpu_top_mem_def)
  show ?thesis
  proof (cases "List.find (\<lambda>(a, t). cpu_id t = cpu) (zip as tops)")
    case (Some at)
    then obtain a t where at: "at = (a, t)" "(a, t) \<in> set (zip as tops)"
      by (cases at) (metis find_Some_iff nth_mem)
    then have "cpu_shown M a t" "a \<in> set as" using all by (auto simp: list_all2_iff dest: set_zip_leftD)
    moreover have "find_cpu_top tops cpu = Some t" "find_cpu_top_mem M cpu_list cpu = Some (int a)"
      using eq find_zip [OF all, of cpu] Some at(1) by simp_all
    moreover have "int a \<noteq> 0" using nz calculation(2) by (cases a) auto
    ultimately show ?thesis by auto
  qed (use eq find_zip [OF all, of cpu] in simp)
qed


lemma fold_until_map_sum:
  "fold_until (\<lambda>x s. map_sum id g (b x s)) xs s = map_sum id g (fold_until b xs s)"
  by (induction xs arbitrary: s) (auto split: sum.split)

lemma same_node_mem_eq:
  assumes "topology_shown M cpu_list as tops" "wf_cpus avail" "nprocs \<le> 1024"
  shows "same_node_mem nprocs M cpu_list node avail = same_node nprocs tops node avail"
proof -
  let ?b = "\<lambda>cpu (_ :: unit). case find_cpu_top tops cpu of None \<Rightarrow> Inr (Inl (- EINVAL))
      | Some cpu_top \<Rightarrow> if node = node_id cpu_top then Inr (Inr cpu) else Inl ()"
  have "(case find_cpu_top_mem M cpu_list cpu of None \<Rightarrow> Inr None
         | Some cpu_top \<Rightarrow>
             if cpu_top = 0 then Inr (Some (Inl (- EINVAL)))
             else (case cpu_at M cpu_top of
                 None \<Rightarrow> Inr None
               | Some t \<Rightarrow> if node = node_id t then Inr (Some (Inr cpu)) else Inl ())) = map_sum id Some (?b cpu u)" for cpu u
    using find_cpu_top_mem_eq [OF assms(1), of cpu] by (auto simp: cpu_shown_def split: option.splits)
  then have "same_node_mem nprocs M cpu_list node avail =
      do { r \<leftarrow> Some (map_sum id Some (fold_until ?b (filter (bm_bit avail) [0..<nprocs]) ()));
           (case r of Inl u \<Rightarrow> Some (Inl u) | Inr None \<Rightarrow> None | Inr (Some x) \<Rightarrow> Some (Inr x)) }"
    using assms(2,3) by (simp only: same_node_mem_def for_each_cpu_eq fold_until_map_sum)
  also have "\<dots> = Some (fold_until ?b (filter (bm_bit avail) [0..<nprocs]) ())"
    by (cases "fold_until ?b (filter (bm_bit avail) [0..<nprocs]) ()") simp_all
  finally show ?thesis using assms(2,3) by (simp only: same_node_def for_each_cpu_eq)
qed

lemma same_cache_mem_eq:
  assumes "caches_shown M (member_of caches_member p) cs caches" "nprocs \<le> 1024" "\<forall>c \<in> set caches. wf_cpus (shared_cpu_map c)"
  shows "same_cache_mem nprocs M p avail = same_cache nprocs caches avail"
proof -
  let ?q = "\<lambda>x. fold_until (\<lambda>cpu (_ :: unit). if CPU_ISSET cpu avail then Inr cpu else Inl ()) (filter (bm_bit (shared_cpu_map x)) [0..<nprocs]) ()"
  let ?body = "\<lambda>cache_top (h, found). do {
           x \<leftarrow> cache_at M cache_top;
           q \<leftarrow> for_each_cpu nprocs (shared_cpu_map x) (\<lambda>cpu _. if CPU_ISSET cpu avail then Inr cpu else Inl ()) (-1) ();
           Some (case q of Inr cpu \<Rightarrow> (True, h, Some cpu) | Inl _ \<Rightarrow> (False, h, found)) }"
  let ?f = "\<lambda>e s. case ?q (the (cache_at M e)) of Inr cpu \<Rightarrow> (True, Some cpu) | Inl _ \<Rightarrow> (False, s)"
  have r: "ring (heads M) (member_of caches_member p) cs" and all: "list_all2 (\<lambda>c x. cache_at M (int c) = Some x) cs caches"
    using assms(1) by (simp_all add: caches_shown_def)
  have "\<exists>x. cache_at M (int c) = Some x \<and> wf_cpus (shared_cpu_map x)" if "c \<in> set cs" for c
    using that all assms(3) nth_mem by (fastforce simp: list_all2_conv_all_nth in_set_conv_nth)
  then have "reads ?body (heads M) (list_entry list_member ` set cs) ?f"
    using assms(2) by (fastforce simp: reads_def for_each_cpu_eq split: sum.split)
  from list_for_each_entry_eq [OF r this, of None]
  have "same_cache_mem nprocs M p avail = Some (snd (visit ?f (map int cs) None))"
    by (simp add: same_cache_mem_def)
  moreover have "same_cache nprocs caches avail = Some (snd (visit ?f (map int cs) None))"
    using all assms(3)
  proof (induction rule: list_all2_induct)
    case (Cons c cs x caches)
    then show ?case using assms(2) by (cases "?q x") (auto simp: for_each_cpu_eq)
  qed simp
  ultimately show ?thesis by simp
qed

lemma choose_cpu_mem_eq:
  assumes "topology_shown M cpu_list as tops" "wf_topology tops" "wf_cpus avail" "nprocs \<le> 1024"
  shows "choose_cpu_mem nprocs M cpu_list prev avail = choose_cpu nprocs tops prev avail"
proof (cases "find_cpu_top tops prev")
  case None
  then show ?thesis using find_cpu_top_mem_eq [OF assms(1), of prev] by (auto simp: choose_cpu_mem_def choose_cpu_def)
next
  case (Some t)
  then obtain a where a: "find_cpu_top_mem M cpu_list prev = Some (int a)" "a \<noteq> 0" "cpu_shown M a t"
    using find_cpu_top_mem_eq [OF assms(1), of prev] by auto
  then obtain cs where cs: "cpu_at M (int a) = Some (t\<lparr>cache_topology_list := []\<rparr>)" "caches_shown M (member_of caches_member (int a)) cs (cache_topology_list t)"
    by (auto simp: cpu_shown_def)
  have "\<forall>c \<in> set (cache_topology_list t). wf_cpus (shared_cpu_map c)"
    using assms(2) find_cpu_top_SomeD [OF Some] by (auto simp: wf_topology_def)
  from same_cache_mem_eq [OF cs(2) assms(4) this] show ?thesis
    using a cs(1) Some same_node_mem_eq [OF assms(1,3,4)] by (simp add: choose_cpu_mem_def choose_cpu_def)
qed

lemma assign_cpus_mem_eq:
  assumes "topology_shown M cpu_list as tops" "wf_topology tops" "nprocs \<le> 1024" "wf_cpus avail"
  shows "assign_cpus_mem nprocs M cpu_list n prev avail use = assign_cpus nprocs tops n prev avail use"
  using assms(4)
proof (induction n arbitrary: prev avail use)
  case (Suc n)
  then show ?case using choose_cpu_mem_eq [OF assms(1,2) Suc.prems assms(3), of prev]
    by (auto split: option.split sum.split simp: bind_eq_Some_conv)
qed simp


section \<open>The structures after the collection\<close>

lemma caches_member_of: "member_of caches_member (int a) = a + 304"
  by (simp add: member_of_def caches_member_def)

lemma zeroed_heads_sel [simp]: "cpu_at (zeroed_heads as M) = cpu_at M" "cache_at (zeroed_heads as M) = cache_at M"
  by (simp_all add: zeroed_heads_def)

lemma fold_put: "fold (\<lambda>a h. h(a \<mapsto> z)) as h b = (if b \<in> set as then Some z else h b)"
  by (induction as arbitrary: h) simp_all

lemma heads_zeroed: "heads (zeroed_heads as M) b = (if b \<in> set as then Some \<lparr>lh_next = 0, lh_prev = 0\<rparr> else heads M b)"
  by (simp add: zeroed_heads_def fold_put)

lemma valid_zeroed: "a \<in> set as \<or> valid (heads M) a \<Longrightarrow> valid (heads (zeroed_heads as M)) a"
  by (auto simp: valid_def heads_zeroed)

lemma ring_zeroed:
  assumes "ring (heads M) g xs" "set as \<inter> set (g # xs) = {}"
  shows "ring (heads (zeroed_heads as M)) g xs"
proof -
  have "get_next (heads (zeroed_heads as M)) a = get_next (heads M) a" "get_prev (heads (zeroed_heads as M)) a = get_prev (heads M) a"
    if "a \<in> set (g # xs)" for a
    using that assms(2) by (auto simp: get_next_def get_prev_def heads_zeroed)
  then have "path (get_next (heads (zeroed_heads as M))) (get_prev (heads (zeroed_heads as M))) (g # xs @ [g]) =
      path (get_next (heads M)) (get_prev (heads M)) (g # xs @ [g])"
    by (intro path_cong) (auto dest!: in_set_butlastD)
  then show ?thesis using assms(1) by (simp add: ring_def)
qed

text \<open>What is kept by writes to the nodes \<open>W\<close>.\<close>

definition keeps :: "addr set \<Rightarrow> topology_memory \<Rightarrow> topology_memory \<Rightarrow> bool" where
  "keeps W M M' \<longleftrightarrow> (\<forall>b. valid (heads M) b \<longrightarrow> valid (heads M') b) \<and>
     (\<forall>g xs. ring (heads M) g xs \<and> set (g # xs) \<inter> W = {} \<longrightarrow> ring (heads M') g xs) \<and>
     (\<forall>b. b \<notin> W \<longrightarrow> cpu_at M' (int b) = cpu_at M (int b) \<and> cache_at M' (int b) = cache_at M (int b))"

lemma keeps_refl: "keeps W M M"
  by (simp add: keeps_def)

lemma keepsD:
  assumes "keeps W M M'"
  shows "valid (heads M) b \<Longrightarrow> valid (heads M') b" "ring (heads M) g xs \<Longrightarrow> set (g # xs) \<inter> W = {} \<Longrightarrow> ring (heads M') g xs"
    "b \<notin> W \<Longrightarrow> cpu_at M' (int b) = cpu_at M (int b)" "b \<notin> W \<Longrightarrow> cache_at M' (int b) = cache_at M (int b)"
  using assms by (simp_all add: keeps_def)

lemma keeps_trans:
  assumes "keeps W M M1" "keeps W' M1 M2" "W \<union> W' \<subseteq> V"
  shows "keeps V M M2"
  unfolding keeps_def
proof (intro conjI allI impI; (elim conjE)?)
  fix g xs assume r: "ring (heads M) g xs" "set (g # xs) \<inter> V = {}"
  then have "set (g # xs) \<inter> W = {}" "set (g # xs) \<inter> W' = {}" using assms(3) by blast+
  then show "ring (heads M2) g xs" using keepsD(2) [OF assms(1) r(1)] keepsD(2) [OF assms(2)] by blast
next
  fix b assume "b \<notin> V"
  then have "b \<notin> W" "b \<notin> W'" using assms(3) by blast+
  then show "cpu_at M2 (int b) = cpu_at M (int b)" "cache_at M2 (int b) = cache_at M (int b)"
    using keepsD(3,4) [OF assms(1)] keepsD(3,4) [OF assms(2)] by simp_all
qed (use keepsD(1) [OF assms(1)] keepsD(1) [OF assms(2)] in blast)

lemma keeps_zeroed: "set as \<subseteq> W \<Longrightarrow> keeps W M (zeroed_heads as M)"
  unfolding keeps_def using valid_zeroed [of _ as M] ring_zeroed [of M _ _ as] by (auto simp del: list.set) blast

lemma store_cache_shown:
  assumes "caches_shown M c cs ys" "c = member_of caches_member p" "a \<notin> set (c # cs)"
  shows "\<exists>M'. store_cache p (a, x) M = Some M' \<and> caches_shown M' c (cs @ [a]) (ys @ [x]) \<and> cpu_at M' = cpu_at M \<and>
    keeps (set (a # c # cs)) M M'"
proof -
  let ?M1 = "(zeroed_heads [a] M)\<lparr>cache_at := (cache_at M)(int a \<mapsto> x)\<rparr>"
  have r: "ring (heads ?M1) c cs" using ring_zeroed [of M c cs "[a]"] assms(1,3) by (simp add: caches_shown_def)
  have v: "valid (heads ?M1) a" using valid_zeroed [of a "[a]" M] by simp
  obtain h where h: "list_add_tail a c (heads ?M1) = Some h" "ring h c (cs @ [a])" "valid h = valid (heads ?M1)"
      "\<forall>g zs. ring (heads ?M1) g zs \<and> set (g # zs) \<inter> set (a # c # cs) = {} \<longrightarrow> ring h g zs"
    using ring_list_add_tail [OF r v assms(3)] by blast
  have k: "keeps (set (a # c # cs)) M (zeroed_heads [a] M)" by (rule keeps_zeroed) simp
  have "keeps (set (a # c # cs)) M (?M1\<lparr>heads := h\<rparr>)"
    using k h(3,4) unfolding keeps_def by simp
  moreover have "cache_at M (int b) = Some y \<longrightarrow> b \<noteq> a \<longrightarrow> cache_at (?M1\<lparr>heads := h\<rparr>) (int b) = Some y" for b y by simp
  then have "list_all2 (\<lambda>c x. cache_at (?M1\<lparr>heads := h\<rparr>) (int c) = Some x) cs ys"
    using assms(1,3) by (auto simp: caches_shown_def list_all2_conv_all_nth)
  then have "caches_shown (?M1\<lparr>heads := h\<rparr>) c (cs @ [a]) (ys @ [x])"
    using h(2) by (simp add: caches_shown_def list_all2_appendI)
  ultimately show ?thesis using h(1) assms(2) by (intro exI [of _ "?M1\<lparr>heads := h\<rparr>"]) (simp add: store_cache_def)
qed

lemma store_caches_shown:
  assumes "caches_shown M c cs ys" "c = member_of caches_member p" "distinct (c # cs @ as)" "length as = length xs"
  shows "\<exists>M'. fold_opt (store_cache p) (zip as xs) M = Some M' \<and> caches_shown M' c (cs @ as) (ys @ xs) \<and> cpu_at M' = cpu_at M \<and>
    keeps (set (c # cs @ as)) M M'"
  using assms(4,1,3)
proof (induction as xs arbitrary: M cs ys rule: list_induct2)
  case Nil
  then show ?case by (simp add: keeps_refl)
next
  case (Cons a as x xs)
  obtain M1 where M1: "store_cache p (a, x) M = Some M1" "caches_shown M1 c (cs @ [a]) (ys @ [x])" "cpu_at M1 = cpu_at M"
      "keeps (set (a # c # cs)) M M1"
    using store_cache_shown [OF Cons.prems(1) assms(2), of a x] Cons.prems(2) by auto
  obtain M2 where M2: "fold_opt (store_cache p) (zip as xs) M1 = Some M2" "caches_shown M2 c ((cs @ [a]) @ as) ((ys @ [x]) @ xs)"
      "cpu_at M2 = cpu_at M1" "keeps (set (c # (cs @ [a]) @ as)) M1 M2"
    using Cons.IH [OF M1(2)] Cons.prems(2) by auto
  have "keeps (set (c # cs @ a # as)) M M2" by (rule keeps_trans [OF M1(4) M2(4)]) auto
  then show ?case using M1(1,3) M2(1,2,3) by simp
qed

text \<open>An object is where it was placed; \<^verbatim>\<open>malloc\<close> gives every object memory of its own.\<close>

type_synonym placed_cpu = "addr \<times> addr list \<times> cpu_topology"

fun nodes :: "placed_cpu \<Rightarrow> addr list" where
  "nodes (a, cs, t) = a # (a + 304) # cs"

fun object_at :: "topology_memory \<Rightarrow> placed_cpu \<Rightarrow> bool" where
  "object_at M (a, cs, t) \<longleftrightarrow> cpu_at M (int a) = Some (t\<lparr>cache_topology_list := []\<rparr>) \<and> caches_shown M (a + 304) cs (cache_topology_list t)"

fun enough_space :: "placed_cpu \<Rightarrow> bool" where
  "enough_space (a, cs, t) \<longleftrightarrow> 0 < a \<and> length cs = length (cache_topology_list t)"

definition stored :: "topology_memory \<Rightarrow> addr \<Rightarrow> placed_cpu list \<Rightarrow> bool" where
  "stored M cpu_list objs \<longleftrightarrow> ring (heads M) cpu_list (map fst objs) \<and> (\<forall>x \<in> set objs. object_at M x)"

lemma object_kept:
  assumes "object_at M x" "keeps W M M'" "set (nodes x) \<inter> W = {}"
  shows "object_at M' x"
proof -
  obtain a cs t where x: "x = (a, cs, t)" by (cases x)
  have "ring (heads M') (a + 304) cs" using assms keepsD(2) [OF assms(2)] unfolding x by (auto simp: caches_shown_def)
  moreover have "list_all2 (\<lambda>c x. cache_at M' (int c) = Some x) cs (cache_topology_list t)"
    using assms(1,3) keepsD(4) [OF assms(2)] unfolding x by (simp add: caches_shown_def list_all2_conv_all_nth disjoint_iff)
  ultimately show ?thesis using assms(1,3) keepsD(3) [OF assms(2), of a] by (simp add: x caches_shown_def)
qed

lemma object_heads:
  assumes "object_at M (a, cs, t)" "ring h (a + 304) cs"
  shows "object_at (M\<lparr>heads := h\<rparr>) (a, cs, t)"
  using assms by (simp add: caches_shown_def)

lemma store_cpu_stored:
  assumes "stored M cpu_list objs" "enough_space (a, cs, t)" "distinct (cpu_list # nodes (a, cs, t))"
    and "set (nodes (a, cs, t)) \<inter> (\<Union>x \<in> set objs. set (nodes x)) = {}" "cpu_list \<notin> (\<Union>x \<in> set objs. set (nodes x))"
    and "\<forall>x \<in> set objs. set (tl (nodes x)) \<inter> fst ` set objs = {}"
  shows "\<exists>M'. store_cpu cpu_list (a, cs, t) M = Some M' \<and> stored M' cpu_list (objs @ [(a, cs, t)])"
proof -
  let ?c = "a + 304" and ?N = "set (nodes (a, cs, t))"
  have "fst x \<in> set (nodes x)" for x by (cases x) simp
  then have firsts: "set (map fst objs) \<subseteq> (\<Union>x \<in> set objs. set (nodes x))" by (simp add: image_subset_iff) blast
  define M1 where "M1 = zeroed_heads [a, ?c] M"
  have k1: "keeps ?N M M1" unfolding M1_def by (rule keeps_zeroed) simp
  have "valid (heads M1) ?c" by (simp add: M1_def valid_zeroed)
  from ring_INIT [OF this] obtain h where h: "INIT_LIST_HEAD ?c (heads M1) = Some h" "ring h ?c []" "valid h = valid (heads M1)"
      "\<forall>g xs. ring (heads M1) g xs \<and> ?c \<notin> set (g # xs) \<longrightarrow> ring h g xs" by blast
  define M2 where "M2 = M1\<lparr>heads := h, cpu_at := (cpu_at M1)(int a \<mapsto> t\<lparr>cache_topology_list := []\<rparr>)\<rparr>"
  have k2: "keeps ?N M1 M2" using h(3,4) by (auto simp: keeps_def M2_def)
  have "caches_shown M2 ?c [] []" using h(2) by (simp add: caches_shown_def M2_def)
  from store_caches_shown [OF this caches_member_of [symmetric], of cs "cache_topology_list t"]
  obtain M3 where M3: "fold_opt (store_cache (int a)) (zip cs (cache_topology_list t)) M2 = Some M3" "caches_shown M3 ?c cs (cache_topology_list t)"
      "cpu_at M3 = cpu_at M2" "keeps (set (?c # cs)) M2 M3"
    using assms(2,3) by auto
  have k3: "keeps ?N M M3" by (rule keeps_trans [OF keeps_trans [OF k1 k2 subset_refl] M3(4)]) auto
  have old: "object_at M3 x" if "x \<in> set objs" for x
    by (rule object_kept [OF _ k3]) (use that assms(1,4) in \<open>auto simp: stored_def simp del: nodes.simps\<close>)
  have new: "object_at M3 (a, cs, t)" using M3(2,3) by (simp add: M2_def)
  have apart_firsts: "set (map fst objs) \<inter> ?N = {}" using firsts assms(4) by blast
  have r: "ring (heads M3) cpu_list (map fst objs)"
  proof (rule keepsD(2) [OF k3])
    note apart_firsts
    moreover have "cpu_list \<notin> ?N" using assms(3) by simp
    ultimately show "set (cpu_list # map fst objs) \<inter> ?N = {}" by simp
  qed (use assms(1) in \<open>simp add: stored_def\<close>)
  have "valid (heads M1) a" by (simp add: M1_def valid_zeroed)
  then have v: "valid (heads M3) a" using keepsD(1) [OF k2] keepsD(1) [OF M3(4)] by blast
  have fresh: "a \<notin> set (cpu_list # map fst objs)" using assms(3,4) firsts by auto
  obtain h4 where h4: "list_add_tail a cpu_list (heads M3) = Some h4" "ring h4 cpu_list (map fst objs @ [a])"
      "\<forall>g zs. ring (heads M3) g zs \<and> set (g # zs) \<inter> set (a # cpu_list # map fst objs) = {} \<longrightarrow> ring h4 g zs"
    using ring_list_add_tail [OF r v fresh] by blast
  have keep: "object_at (M3\<lparr>heads := h4\<rparr>) x" if x: "object_at M3 x" "set (tl (nodes x)) \<inter> set (a # cpu_list # map fst objs) = {}" for x
  proof -
    obtain b ds u where b: "x = (b, ds, u)" by (cases x)
    have "ring h4 (b + 304) ds" using h4(3) x unfolding b by (auto simp: caches_shown_def)
    then show ?thesis using object_heads x(1) unfolding b by blast
  qed
  have "object_at (M3\<lparr>heads := h4\<rparr>) (a, cs, t)"
    by (rule keep [OF new]) (use assms(3) apart_firsts in auto)
  moreover have "object_at (M3\<lparr>heads := h4\<rparr>) x" if "x \<in> set objs" for x
  proof (rule keep [OF old [OF that]])
    have "set (tl (nodes x)) \<subseteq> set (nodes x)" by (cases x) auto
    then show "set (tl (nodes x)) \<inter> set (a # cpu_list # map fst objs) = {}" using that assms(4,5,6) by fastforce
  qed
  ultimately have "stored (M3\<lparr>heads := h4\<rparr>) cpu_list (objs @ [(a, cs, t)])" using h4(2) by (auto simp: stored_def)
  moreover have "store_cpu cpu_list (a, cs, t) M = Some (M3\<lparr>heads := h4\<rparr>)"
    using h(1) M3(1) h4(1) by (simp add: store_cpu_def caches_member_of M1_def M2_def)
  ultimately show ?thesis by blast
qed

definition placed :: "addr \<Rightarrow> placed_cpu list \<Rightarrow> bool" where
  "placed cpu_list objs \<longleftrightarrow> (\<forall>x \<in> set objs. enough_space x) \<and> distinct (cpu_list # concat (map nodes objs))"

lemma placed_tails:
  "distinct (concat (map nodes objs)) \<Longrightarrow> x \<in> set objs \<Longrightarrow> set (tl (nodes x)) \<inter> fst ` set objs = {}"
proof -
  have sub: "fst y \<in> set (nodes y)" "set (tl (nodes y)) \<subseteq> set (nodes y)" "distinct (nodes y) \<Longrightarrow> fst y \<notin> set (tl (nodes y))" for y
    by (cases y, simp, cases y, simp, blast, cases y, simp)
  assume "distinct (concat (map nodes objs))" "x \<in> set objs"
  then show ?thesis
  proof (induction objs)
    case (Cons y ys)
    have d: "distinct (nodes y)" "set (nodes y) \<inter> (\<Union>z \<in> set ys. set (nodes z)) = {}" using Cons.prems(1) by auto
    have f: "fst ` set ys \<subseteq> (\<Union>z \<in> set ys. set (nodes z))" using sub(1) by blast
    show ?case
    proof (cases "x \<in> set ys")
      case True
      then have "set (tl (nodes x)) \<inter> fst ` set ys = {}" using Cons by simp
      moreover have "fst y \<notin> set (tl (nodes x))" using True d(2) sub(1,2) by blast
      ultimately show ?thesis by simp
    next
      case False
      then have "x = y" using Cons.prems(2) by simp
      moreover have "set (tl (nodes y)) \<inter> fst ` set ys = {}" using sub(2) [of y] d(2) f by blast
      ultimately show ?thesis using sub(3) [OF d(1)] by simp
    qed
  qed simp
qed

lemma store_all:
  assumes "placed cpu_list objs"
  shows "\<exists>M. fold_opt (store_cpu cpu_list) objs (empty_topology cpu_list) = Some M \<and> stored M cpu_list objs"
  using assms
proof (induction objs rule: rev_induct)
  case Nil
  have "ring [cpu_list \<mapsto> LIST_HEAD_INIT cpu_list] cpu_list []"
    by (simp add: LIST_HEAD_INIT_def ring_def link_def get_next_def get_prev_def)
  then show ?case by (simp add: empty_topology_def stored_def)
next
  case (snoc x objs)
  then obtain M where M: "fold_opt (store_cpu cpu_list) objs (empty_topology cpu_list) = Some M" "stored M cpu_list objs"
    by (auto simp: placed_def)
  obtain a cs t where x: "x = (a, cs, t)" by (cases x)
  have d: "distinct (concat (map nodes objs))" "distinct (cpu_list # nodes x)" "enough_space x"
      "set (nodes x) \<inter> (\<Union>x \<in> set objs. set (nodes x)) = {}" "cpu_list \<notin> (\<Union>x \<in> set objs. set (nodes x))"
    using snoc.prems by (auto simp: placed_def)
  obtain M' where "store_cpu cpu_list (a, cs, t) M = Some M'" "stored M' cpu_list (objs @ [(a, cs, t)])"
    using store_cpu_stored [OF M(2) d(3,2,4,5) [unfolded x]] placed_tails [OF d(1)] by blast
  then show ?case using M(1) by (simp add: x fold_opt_append)
qed

lemma stored_shown:
  assumes "stored M cpu_list objs" "\<forall>x \<in> set objs. enough_space x"
  shows "topology_shown M cpu_list (map fst objs) (map (snd \<circ> snd) objs)"
proof -
  have "cpu_shown M (fst x) ((snd \<circ> snd) x)" "fst x \<noteq> 0" if "x \<in> set objs" for x
    using assms that by (cases x; fastforce simp: stored_def cpu_shown_def caches_member_of)+
  then have "\<forall>a \<in> set (map fst objs). a \<noteq> 0" "list_all2 (cpu_shown M) (map fst objs) (map (snd \<circ> snd) objs)"
    by (simp, simp add: list_all2_conv_all_nth)
  then show ?thesis using assms(1) by (simp add: topology_shown_def stored_def) fastforce
qed

section \<open>Property\<close>

text \<open>
  C9. The HOL lists of the topology stand for the structures in memory: when every object has memory of its own, the objects that the
  collection finds are stored and linked without an access outside of them, and on the structures the assignment of CPUs to a rank, with its
  searches through the linked lists, gives what it gives on the lists of theory \<open>Partition\<close>.
\<close>

theorem topology_in_memory:
  assumes "placed cpu_list objs" "wf_topology (map (snd \<circ> snd) objs)" "nprocs \<le> 1024"
  shows "\<exists>M. fold_opt (store_cpu cpu_list) objs (empty_topology cpu_list) = Some M \<and>
    (\<forall>n prev avail use. wf_cpus avail \<longrightarrow>
       assign_cpus_mem nprocs M cpu_list n prev avail use = assign_cpus nprocs (map (snd \<circ> snd) objs) n prev avail use)"
proof -
  obtain M where "fold_opt (store_cpu cpu_list) objs (empty_topology cpu_list) = Some M" "stored M cpu_list objs"
    using store_all [OF assms(1)] by blast
  moreover from stored_shown [OF this(2)] assms(1) have "topology_shown M cpu_list (map fst objs) (map (snd \<circ> snd) objs)"
    by (simp add: placed_def)
  ultimately show ?thesis using assign_cpus_mem_eq [OF _ assms(2,3)] by blast
qed

text \<open>Two CPUs that share a cache, with their objects at 1000 and 2000 and the list head at 100.\<close>

definition example_objects :: "placed_cpu list" where
  "example_objects = [(1000, [1500], example_cpu 0 (example_cpus [0, 1])), (2000, [2500], example_cpu 1 (example_cpus [0, 1]))]"

theorem topology_in_memory_witness:
  "\<exists>M. fold_opt (store_cpu 100) example_objects (empty_topology 100) = Some M \<and>
     assign_cpus_mem 2 M 100 1 0 (example_cpus [1]) (example_cpus [0]) =
       assign_cpus 2 (map (snd \<circ> snd) example_objects) 1 0 (example_cpus [1]) (example_cpus [0])"
proof -
  have w: "wf_cpus (example_cpus [0, 1])" "wf_cpus (example_cpus [1])" by (simp_all add: example_cpus_def)
  have p: "placed 100 example_objects" by (simp add: placed_def example_objects_def example_cpu_def)
  have t: "wf_topology (map (snd \<circ> snd) example_objects)"
    using w(1) by (simp add: wf_topology_def example_objects_def example_cpu_def example_cache_def)
  have l: "(2 :: nat) \<le> 1024" by simp
  show ?thesis using topology_in_memory [OF p t l] w(2) by blast
qed

end
